(* ===== verification/Prelude.thy ===== *)
theory Prelude
  imports Main "HOL-Library.Word" "HOL-Library.Monad_Syntax" "HOL-Library.Multiset"
begin

text \<open>
  Shared vocabulary of the development: bytes, checked access to byte buffers (a result
  \<open>None\<close> is an access outside the buffer, which is undefined behaviour in C, or a failed
  assertion), little-endian coding of integers as the C code stores them, the ranges of the
  fixed-width C integer types, and generic facts on lists that several components use.
\<close>

unbundle bit_operations_syntax

named_theorems buf_simps \<open>rewrite rules for checked buffer access\<close>
named_theorems range_defs \<open>definitions of the C integer ranges\<close>

type_synonym byte = "8 word"

section \<open>C integer ranges\<close>

definition int64 :: "int \<Rightarrow> bool" where
  [range_defs]: "int64 v \<longleftrightarrow> - (2 ^ 63) \<le> v \<and> v < 2 ^ 63"

definition uint64 :: "int \<Rightarrow> bool" where
  [range_defs]: "uint64 v \<longleftrightarrow> 0 \<le> v \<and> v < 2 ^ 64"

text \<open>The conversion of an \<open>int\<close> to \<open>unsigned int\<close>.\<close>

definition u32 :: "int \<Rightarrow> int" where
  "u32 v = v mod 2 ^ 32"

lemma u32_id [simp]: "0 \<le> v \<Longrightarrow> v < 2 ^ 32 \<Longrightarrow> u32 v = v"
  by (simp add: u32_def)

section \<open>Checked byte buffers\<close>

definition rd :: "'a list \<Rightarrow> nat \<Rightarrow> nat \<Rightarrow> 'a list option" where
  "rd m off n = (if off + n \<le> length m then Some (take n (drop off m)) else None)"

definition wr :: "'a list \<Rightarrow> nat \<Rightarrow> 'a list \<Rightarrow> 'a list option" where
  "wr m off bs =
     (if off + length bs \<le> length m
      then Some (take off m @ bs @ drop (off + length bs) m) else None)"

text \<open>\<open>memmove\<close>: source and destination may overlap.\<close>

definition memmove :: "'a list \<Rightarrow> nat \<Rightarrow> nat \<Rightarrow> nat \<Rightarrow> 'a list option" where
  "memmove m dst src n = do { bs \<leftarrow> rd m src n; wr m dst bs }"

text \<open>
  \<open>zrealloc\<close>: the common prefix is kept; bytes past the old size are whatever the allocator
  left there, given by \<open>junk\<close>.
\<close>

definition zrealloc :: "(nat \<Rightarrow> 'a) \<Rightarrow> 'a list \<Rightarrow> nat \<Rightarrow> 'a list" where
  "zrealloc junk m n = take n m @ map junk [length m..<n]"

lemma length_zrealloc [simp]: "length (zrealloc junk m n) = n"
  by (auto simp: zrealloc_def min_def)

lemma take_zrealloc [simp]: "k \<le> n \<Longrightarrow> k \<le> length m \<Longrightarrow> take k (zrealloc junk m n) = take k m"
  by (auto simp: zrealloc_def min_def)

lemma zrealloc_shrink: "n \<le> length m \<Longrightarrow> zrealloc junk m n = take n m"
  by (simp add: zrealloc_def)

lemma rd_Some [buf_simps]: "off + n \<le> length m \<Longrightarrow> rd m off n = Some (take n (drop off m))"
  by (simp add: rd_def)

lemma wr_Some [buf_simps]:
  "off + length bs \<le> length m \<Longrightarrow>
     wr m off bs = Some (take off m @ bs @ drop (off + length bs) m)"
  by (simp add: wr_def)

lemma wr_length: "wr m off bs = Some m' \<Longrightarrow> length m' = length m"
  by (auto simp: wr_def split: if_splits)

section \<open>Little-endian coding\<close>

text \<open>The \<open>n\<close> low bytes of a two's complement integer, least significant byte first.\<close>

fun le_enc :: "nat \<Rightarrow> int \<Rightarrow> byte list" where
  "le_enc 0 v = []"
| "le_enc (Suc n) v = word_of_int v # le_enc n (v div 256)"

fun le_dec :: "byte list \<Rightarrow> int" where
  "le_dec [] = 0"
| "le_dec (b # bs) = uint b + 256 * le_dec bs"

text \<open>Reading the same bytes as a signed integer.\<close>

definition le_sdec :: "byte list \<Rightarrow> int" where
  "le_sdec bs =
     (let u = le_dec bs in
      if 2 * u \<ge> 256 ^ length bs then u - 256 ^ length bs else u)"

lemma length_le_enc [simp]: "length (le_enc n v) = n"
  by (induction n arbitrary: v) auto

lemma le_dec_bounds: "0 \<le> le_dec bs \<and> le_dec bs < 256 ^ length bs"
proof (induction bs)
  case (Cons b bs)
  have "0 \<le> uint b \<and> uint b < 256"
    using uint_bounded [of b] by simp
  with Cons.IH show ?case by simp
qed simp

lemma le_dec_enc: "le_dec (le_enc n v) = v mod 256 ^ n"
proof (induction n arbitrary: v)
  case (Suc n)
  have "v mod (256 * 256 ^ n) = 256 * (v div 256 mod 256 ^ n) + v mod 256"
    by (rule zmod_zmult2_eq) simp
  then show ?case by (simp add: Suc.IH uint_word_of_int)
qed simp

lemma le_enc_dec: "le_enc (length bs) (le_dec bs) = bs"
proof (induction bs)
  case (Cons b bs)
  have b: "0 \<le> uint b" "uint b < 256"
    using uint_bounded [of b] by simp_all
  have "(256 * le_dec bs + uint b) div 256 = le_dec bs"
    using b by (simp add: div_add1_eq)
  moreover have "word_of_int (256 * le_dec bs + uint b) = b"
  proof -
    have "(word_of_int (256 * le_dec bs) :: byte) = 0"
      by (simp only: word_of_int_eq_0_iff) simp
    then show ?thesis by (simp add: of_int_add)
  qed
  ultimately show ?case using Cons.IH by (simp add: add.commute)
qed simp

lemma le_sdec_enc:
  assumes "n > 0" "- (256 ^ n) \<le> 2 * v" "2 * v < 256 ^ n"
  shows "le_sdec (le_enc n v) = v"
proof (cases "0 \<le> v")
  case True
  then have "v mod 256 ^ n = v" using assms by simp
  then show ?thesis using assms by (simp add: le_sdec_def le_dec_enc)
next
  case False
  have "v mod 256 ^ n = (v + 256 ^ n) mod 256 ^ n" by simp
  also have "\<dots> = v + 256 ^ n"
    using False assms by (intro mod_pos_pos_trivial) auto
  finally show ?thesis using assms False by (simp add: le_sdec_def le_dec_enc)
qed

lemma le_sdec_bounds: "bs \<noteq> [] \<Longrightarrow> - (256 ^ length bs) \<le> 2 * le_sdec bs \<and> 2 * le_sdec bs < 256 ^ length bs"
  using le_dec_bounds [of bs] by (auto simp: le_sdec_def Let_def)

section \<open>Lists\<close>

lemma mset_concat_update:
  assumes "i < length xss"
  shows "mset (concat (xss[i := ys])) + mset (xss ! i) = mset (concat xss) + mset ys"
proof -
  define l x r where "l = take i xss" and "x = xss ! i" and "r = drop (Suc i) xss"
  have "xss = l @ x # r" "i = length l"
    using id_take_nth_drop [OF assms] assms by (simp_all add: l_def x_def r_def)
  then show ?thesis by (simp add: ac_simps)
qed

lemma in_concat_nth: "x \<in> set (concat xss) \<longleftrightarrow> (\<exists>i < length xss. x \<in> set (xss ! i))"
  unfolding set_concat by (metis UN_iff in_set_conv_nth)

end
