(* ===== verification/Interfaces.thy ===== *)
theory Interfaces
  imports Prelude
begin

text \<open>
  The contracts between components, as locales: what a provider promises about its operations
  in terms of an abstract value, and what follows for every client. Each locale is interpreted
  in the theory of the component that provides it.
\<close>

section \<open>Sets of 64-bit integers with bounded capacity\<close>

datatype iset_op = IAdd int | IRemove int | IFind int

fun iset_op_arg :: "iset_op \<Rightarrow> int" where
  "iset_op_arg (IAdd v) = v"
| "iset_op_arg (IRemove v) = v"
| "iset_op_arg (IFind v) = v"

text \<open>A client's calls in order, with the replies; \<open>None\<close> when one of them faults.\<close>

fun iset_run :: "('s \<Rightarrow> int \<Rightarrow> ('s \<times> bool) option) \<Rightarrow> ('s \<Rightarrow> int \<Rightarrow> ('s \<times> bool) option) \<Rightarrow>
    ('s \<Rightarrow> int \<Rightarrow> bool option) \<Rightarrow> 's \<Rightarrow> iset_op list \<Rightarrow> ('s \<times> bool list) option" where
  "iset_run add remove mem s [] = Some (s, [])"
| "iset_run add remove mem s (IAdd v # ops) = do {
     (s', b) \<leftarrow> add s v; (s'', bs) \<leftarrow> iset_run add remove mem s' ops; Some (s'', b # bs) }"
| "iset_run add remove mem s (IRemove v # ops) = do {
     (s', b) \<leftarrow> remove s v; (s'', bs) \<leftarrow> iset_run add remove mem s' ops; Some (s'', b # bs) }"
| "iset_run add remove mem s (IFind v # ops) = do {
     b \<leftarrow> mem s v; (s'', bs) \<leftarrow> iset_run add remove mem s ops; Some (s'', b # bs) }"

text \<open>The same calls on a mathematical set.\<close>

fun iset_spec :: "int set \<Rightarrow> iset_op list \<Rightarrow> int set \<times> bool list" where
  "iset_spec A [] = (A, [])"
| "iset_spec A (IAdd v # ops) = (let (B, bs) = iset_spec (insert v A) ops in (B, (v \<notin> A) # bs))"
| "iset_spec A (IRemove v # ops) = (let (B, bs) = iset_spec (A - {v}) ops in (B, (v \<in> A) # bs))"
| "iset_spec A (IFind v # ops) = (let (B, bs) = iset_spec A ops in (B, (v \<in> A) # bs))"

locale int_set =
  fixes invar :: "'s \<Rightarrow> bool" and elems :: "'s \<Rightarrow> int set" and cap :: nat and new :: 's
    and add :: "'s \<Rightarrow> int \<Rightarrow> ('s \<times> bool) option" and remove :: "'s \<Rightarrow> int \<Rightarrow> ('s \<times> bool) option"
    and mem :: "'s \<Rightarrow> int \<Rightarrow> bool option" and len :: "'s \<Rightarrow> nat"
  assumes new_ok: "invar new" "elems new = {}"
    and elems_finite: "invar s \<Longrightarrow> finite (elems s)"
    and len_ok: "invar s \<Longrightarrow> len s = card (elems s)"
    and add_ok: "invar s \<Longrightarrow> int64 v \<Longrightarrow> card (elems s) < cap \<Longrightarrow>
      \<exists>s'. add s v = Some (s', v \<notin> elems s) \<and> invar s' \<and> elems s' = insert v (elems s)"
    and remove_ok: "invar s \<Longrightarrow>
      \<exists>s'. remove s v = Some (s', v \<in> elems s) \<and> invar s' \<and> elems s' = elems s - {v}"
    and mem_ok: "invar s \<Longrightarrow> mem s v = Some (v \<in> elems s)"
begin

lemma run_refines:
  assumes "invar s" "\<forall>oper \<in> set ops. int64 (iset_op_arg oper)" "card (elems s) + length ops \<le> cap"
  shows "\<exists>s'. iset_run add remove mem s ops = Some (s', snd (iset_spec (elems s) ops)) \<and>
    invar s' \<and> elems s' = fst (iset_spec (elems s) ops)"
  using assms
proof (induction ops arbitrary: s)
  case (Cons oper ops)
  show ?case
  proof (cases oper)
    case (IAdd v)
    then obtain s' where s': "add s v = Some (s', v \<notin> elems s)" "invar s'"
      "elems s' = insert v (elems s)"
      using add_ok [of s v] Cons.prems by auto
    then have "card (elems s') + length ops \<le> cap"
      using Cons.prems elems_finite [of s] by (simp add: card_insert_if)
    then show ?thesis
      using Cons.IH [of s'] Cons.prems s' IAdd by (auto split: prod.splits)
  next
    case (IRemove v)
    then obtain s' where s': "remove s v = Some (s', v \<in> elems s)" "invar s'"
      "elems s' = elems s - {v}"
      using remove_ok [of s v] Cons.prems by auto
    have "card (elems s - {v}) \<le> card (elems s)"
      using elems_finite [of s] Cons.prems by (auto intro: card_mono)
    then show ?thesis
      using Cons.IH [of s'] Cons.prems s' IRemove by (auto split: prod.splits)
  next
    case (IFind v)
    then show ?thesis
      using Cons.IH [of s] Cons.prems mem_ok [of s v] by (auto split: prod.splits)
  qed
qed simp

end

section \<open>Finite maps up to a key equivalence\<close>

text \<open>
  Keys are compared by an equivalence \<open>eqk\<close>, so an update changes the map at the whole class of the key.
  \<open>KMaint\<close> stands for a provider's housekeeping, which a client does not observe.
\<close>

definition map_upd :: "('k \<Rightarrow> 'k \<Rightarrow> bool) \<Rightarrow> ('k \<Rightarrow> 'v option) \<Rightarrow> 'k \<Rightarrow> 'v option \<Rightarrow> 'k \<Rightarrow> 'v option" where
  "map_upd eqk m k v = (\<lambda>k'. if eqk k' k then v else m k')"

datatype ('k, 'v, 'm) kv_op = KAdd 'k 'v | KReplace 'k 'v | KDelete 'k | KFetch 'k | KMaint 'm

datatype 'v kv_reply = RBool bool | RVal "'v option" | RNone

text \<open>A client's calls in order, with the replies; \<open>None\<close> when one of them faults.\<close>

fun kv_step :: "('s \<Rightarrow> 'k \<Rightarrow> 'v \<Rightarrow> ('s \<times> bool) option) \<Rightarrow> ('s \<Rightarrow> 'k \<Rightarrow> 'v \<Rightarrow> ('s \<times> bool) option) \<Rightarrow>
    ('s \<Rightarrow> 'k \<Rightarrow> ('s \<times> bool) option) \<Rightarrow> ('s \<Rightarrow> 'k \<Rightarrow> ('s \<times> 'v option) option) \<Rightarrow>
    ('m \<Rightarrow> 's \<Rightarrow> 's option) \<Rightarrow> 's \<Rightarrow> ('k, 'v, 'm) kv_op \<Rightarrow> ('s \<times> 'v kv_reply) option" where
  "kv_step add repl del fetch maint s (KAdd k v) = map_option (apsnd RBool) (add s k v)"
| "kv_step add repl del fetch maint s (KReplace k v) = map_option (apsnd RBool) (repl s k v)"
| "kv_step add repl del fetch maint s (KDelete k) = map_option (apsnd RBool) (del s k)"
| "kv_step add repl del fetch maint s (KFetch k) = map_option (apsnd RVal) (fetch s k)"
| "kv_step add repl del fetch maint s (KMaint m) = map_option (\<lambda>s'. (s', RNone)) (maint m s)"

fun run_steps :: "('s \<Rightarrow> 'o \<Rightarrow> ('s \<times> 'r) option) \<Rightarrow> 's \<Rightarrow> 'o list \<Rightarrow> ('s \<times> 'r list) option" where
  "run_steps f s [] = Some (s, [])"
| "run_steps f s (x # xs) = do { (s1, r) \<leftarrow> f s x; (s2, rs) \<leftarrow> run_steps f s1 xs; Some (s2, r # rs) }"

text \<open>The same calls on a mathematical map; \<open>stored\<close> is what the map keeps of a value it is given.\<close>

fun kv_spec_step :: "('k \<Rightarrow> 'k \<Rightarrow> bool) \<Rightarrow> ('v \<Rightarrow> 'v) \<Rightarrow> ('k \<Rightarrow> 'v option) \<Rightarrow> ('k, 'v, 'm) kv_op \<Rightarrow>
    ('k \<Rightarrow> 'v option) \<times> 'v kv_reply" where
  "kv_spec_step eqk stored m (KAdd k v) =
     (if m k = None then (map_upd eqk m k (Some (stored v)), RBool True) else (m, RBool False))"
| "kv_spec_step eqk stored m (KReplace k v) = (map_upd eqk m k (Some (stored v)), RBool (m k = None))"
| "kv_spec_step eqk stored m (KDelete k) = (map_upd eqk m k None, RBool (m k \<noteq> None))"
| "kv_spec_step eqk stored m (KFetch k) = (m, RVal (m k))"
| "kv_spec_step eqk stored m (KMaint x) = (m, RNone)"

fun kv_spec :: "('k \<Rightarrow> 'k \<Rightarrow> bool) \<Rightarrow> ('v \<Rightarrow> 'v) \<Rightarrow> ('k \<Rightarrow> 'v option) \<Rightarrow> ('k, 'v, 'm) kv_op list \<Rightarrow>
    ('k \<Rightarrow> 'v option) \<times> 'v kv_reply list" where
  "kv_spec eqk stored m [] = (m, [])"
| "kv_spec eqk stored m (x # xs) =
     (let (m1, r) = kv_spec_step eqk stored m x; (m2, rs) = kv_spec eqk stored m1 xs in (m2, r # rs))"

locale kv_map =
  fixes eqk :: "'k \<Rightarrow> 'k \<Rightarrow> bool" and stored :: "'v \<Rightarrow> 'v" and invar :: "'s \<Rightarrow> bool"
    and absm :: "'s \<Rightarrow> 'k \<Rightarrow> 'v option" and cnt :: "'s \<Rightarrow> nat" and cap :: nat
    and add :: "'s \<Rightarrow> 'k \<Rightarrow> 'v \<Rightarrow> ('s \<times> bool) option" and repl :: "'s \<Rightarrow> 'k \<Rightarrow> 'v \<Rightarrow> ('s \<times> bool) option"
    and del :: "'s \<Rightarrow> 'k \<Rightarrow> ('s \<times> bool) option" and fetch :: "'s \<Rightarrow> 'k \<Rightarrow> ('s \<times> 'v option) option"
    and maint :: "'m \<Rightarrow> 's \<Rightarrow> 's option"
  assumes add_ok: "invar s \<Longrightarrow> cnt s < cap \<Longrightarrow>
      \<exists>s'. add s k v = Some (s', absm s k = None) \<and> invar s' \<and>
        absm s' = (if absm s k = None then map_upd eqk (absm s) k (Some (stored v)) else absm s) \<and>
        cnt s' \<le> Suc (cnt s)"
    and repl_ok: "invar s \<Longrightarrow> cnt s < cap \<Longrightarrow>
      \<exists>s'. repl s k v = Some (s', absm s k = None) \<and> invar s' \<and>
        absm s' = map_upd eqk (absm s) k (Some (stored v)) \<and> cnt s' \<le> Suc (cnt s)"
    and del_ok: "invar s \<Longrightarrow>
      \<exists>s'. del s k = Some (s', absm s k \<noteq> None) \<and> invar s' \<and>
        absm s' = map_upd eqk (absm s) k None \<and> cnt s' \<le> cnt s"
    and fetch_ok: "invar s \<Longrightarrow>
      \<exists>s'. fetch s k = Some (s', absm s k) \<and> invar s' \<and> absm s' = absm s \<and> cnt s' \<le> cnt s"
    and maint_ok: "invar s \<Longrightarrow>
      \<exists>s'. maint m s = Some s' \<and> invar s' \<and> absm s' = absm s \<and> cnt s' \<le> cnt s"
begin

lemma step_refines:
  assumes "invar s" "cnt s < cap"
  shows "\<exists>s'. kv_step add repl del fetch maint s x = Some (s', snd (kv_spec_step eqk stored (absm s) x)) \<and>
    invar s' \<and> absm s' = fst (kv_spec_step eqk stored (absm s) x) \<and> cnt s' \<le> Suc (cnt s)"
proof (cases x)
  case (KAdd k v)
  then show ?thesis using add_ok [OF assms, of k v] by auto
next
  case (KReplace k v)
  then show ?thesis using repl_ok [OF assms, of k v] by auto
next
  case (KDelete k)
  then show ?thesis using del_ok [OF assms(1), of k] by fastforce
next
  case (KFetch k)
  then show ?thesis using fetch_ok [OF assms(1), of k] by fastforce
next
  case (KMaint m)
  then show ?thesis using maint_ok [OF assms(1), of m] by fastforce
qed

lemma run_refines:
  assumes "invar s" "cnt s + length xs \<le> cap"
  shows "\<exists>s'. run_steps (kv_step add repl del fetch maint) s xs =
      Some (s', snd (kv_spec eqk stored (absm s) xs)) \<and>
    invar s' \<and> absm s' = fst (kv_spec eqk stored (absm s) xs)"
  using assms
proof (induction xs arbitrary: s)
  case (Cons x xs)
  then obtain s1 where s1: "kv_step add repl del fetch maint s x =
      Some (s1, snd (kv_spec_step eqk stored (absm s) x))" "invar s1"
    "absm s1 = fst (kv_spec_step eqk stored (absm s) x)" "cnt s1 \<le> Suc (cnt s)"
    using step_refines [of s x] by auto
  then show ?case
    using Cons.IH [of s1] Cons.prems by (auto split: prod.splits)
qed simp

end

section \<open>Queues of bytes with room in front\<close>

datatype bq_op = QAppend "byte list" | QPrepend "byte list" | QRetrieve nat | QTake nat | QUnwrite nat

fun bq_appended :: "bq_op \<Rightarrow> nat" where
  "bq_appended (QAppend d) = length d"
| "bq_appended _ = 0"

text \<open>A client's call, with the bytes it returns; \<open>None\<close> when it faults.\<close>

fun bq_step :: "('s \<Rightarrow> byte list \<Rightarrow> 's option) \<Rightarrow> ('s \<Rightarrow> byte list \<Rightarrow> 's option) \<Rightarrow> ('s \<Rightarrow> nat \<Rightarrow> 's option) \<Rightarrow>
    ('s \<Rightarrow> nat \<Rightarrow> ('s \<times> byte list) option) \<Rightarrow> ('s \<Rightarrow> nat \<Rightarrow> 's option) \<Rightarrow>
    's \<Rightarrow> bq_op \<Rightarrow> ('s \<times> byte list) option" where
  "bq_step app prep retr tak unwr s (QAppend d) = map_option (\<lambda>s'. (s', [])) (app s d)"
| "bq_step app prep retr tak unwr s (QPrepend d) = map_option (\<lambda>s'. (s', [])) (prep s d)"
| "bq_step app prep retr tak unwr s (QRetrieve n) = map_option (\<lambda>s'. (s', [])) (retr s n)"
| "bq_step app prep retr tak unwr s (QTake n) = tak s n"
| "bq_step app prep retr tak unwr s (QUnwrite n) = map_option (\<lambda>s'. (s', [])) (unwr s n)"

text \<open>
  The contract on a list of bytes and the room a client may rely on in front of it: at most \<open>reserve\<close>,
  less by what is prepended and more again by what is retrieved. \<open>None\<close> when a call is not allowed.
\<close>

fun bq_spec_step :: "nat \<Rightarrow> byte list \<times> nat \<Rightarrow> bq_op \<Rightarrow> ((byte list \<times> nat) \<times> byte list) option" where
  "bq_spec_step reserve (q, m) (QAppend d) = Some ((q @ d, m), [])"
| "bq_spec_step reserve (q, m) (QPrepend d) =
     (if length d \<le> m then Some ((d @ q, m - length d), []) else None)"
| "bq_spec_step reserve (q, m) (QRetrieve n) =
     (if n \<le> length q then Some ((drop n q, min reserve (m + n)), []) else None)"
| "bq_spec_step reserve (q, m) (QTake n) =
     (if n \<le> length q then Some ((drop n q, min reserve (m + n)), take n q) else None)"
| "bq_spec_step reserve (q, m) (QUnwrite n) =
     (if n \<le> length q then Some ((take (length q - n) q, m), []) else None)"

locale byte_queue =
  fixes invar :: "'s \<Rightarrow> bool" and bytes :: "'s \<Rightarrow> byte list" and room :: "'s \<Rightarrow> nat"
    and footprint :: "'s \<Rightarrow> nat" and cap :: nat and reserve :: nat
    and app :: "'s \<Rightarrow> byte list \<Rightarrow> 's option" and prep :: "'s \<Rightarrow> byte list \<Rightarrow> 's option"
    and retr :: "'s \<Rightarrow> nat \<Rightarrow> 's option" and tak :: "'s \<Rightarrow> nat \<Rightarrow> ('s \<times> byte list) option"
    and unwr :: "'s \<Rightarrow> nat \<Rightarrow> 's option"
  assumes app_ok: "invar s \<Longrightarrow> footprint s + length d \<le> cap \<Longrightarrow>
      \<exists>s'. app s d = Some s' \<and> invar s' \<and> bytes s' = bytes s @ d \<and> min reserve (room s) \<le> room s' \<and>
        footprint s' \<le> footprint s + length d"
    and prep_ok: "invar s \<Longrightarrow> length d \<le> room s \<Longrightarrow>
      \<exists>s'. prep s d = Some s' \<and> invar s' \<and> bytes s' = d @ bytes s \<and> room s' = room s - length d \<and>
        footprint s' = footprint s"
    and retr_ok: "invar s \<Longrightarrow> n \<le> length (bytes s) \<Longrightarrow>
      \<exists>s'. retr s n = Some s' \<and> invar s' \<and> bytes s' = drop n (bytes s) \<and>
        min reserve (room s + n) \<le> room s' \<and> footprint s' = footprint s"
    and tak_ok: "invar s \<Longrightarrow> n \<le> length (bytes s) \<Longrightarrow>
      \<exists>s'. tak s n = Some (s', take n (bytes s)) \<and> retr s n = Some s'"
    and unwr_ok: "invar s \<Longrightarrow> n \<le> length (bytes s) \<Longrightarrow>
      \<exists>s'. unwr s n = Some s' \<and> invar s' \<and> bytes s' = take (length (bytes s) - n) (bytes s) \<and>
        room s' = room s \<and> footprint s' = footprint s"
begin

lemma step_refines:
  assumes "invar s" "footprint s + bq_appended x \<le> cap" "m \<le> reserve" "m \<le> room s"
    "bq_spec_step reserve (bytes s, m) x = Some ((q, m'), r)"
  shows "\<exists>s'. bq_step app prep retr tak unwr s x = Some (s', r) \<and> invar s' \<and> bytes s' = q \<and>
    m' \<le> reserve \<and> m' \<le> room s' \<and> footprint s' \<le> footprint s + bq_appended x"
proof (cases x)
  case (QAppend d)
  then show ?thesis using app_ok [of s d] assms by fastforce
next
  case (QPrepend d)
  then show ?thesis using prep_ok [of s d] assms by (fastforce split: if_splits)
next
  case (QRetrieve n)
  then show ?thesis using retr_ok [of s n] assms by (fastforce split: if_splits)
next
  case (QTake n)
  then show ?thesis using retr_ok [of s n] tak_ok [of s n] assms by (fastforce split: if_splits)
next
  case (QUnwrite n)
  then show ?thesis using unwr_ok [of s n] assms by (fastforce split: if_splits)
qed

lemma run_refines:
  assumes "invar s" "footprint s + sum_list (map bq_appended xs) \<le> cap" "m \<le> reserve" "m \<le> room s"
    "run_steps (bq_spec_step reserve) (bytes s, m) xs = Some ((q, m'), rs)"
  shows "\<exists>s'. run_steps (bq_step app prep retr tak unwr) s xs = Some (s', rs) \<and> invar s' \<and> bytes s' = q"
  using assms
proof (induction xs arbitrary: s m rs)
  case (Cons x xs)
  obtain q1 m1 r rs' where s1: "bq_spec_step reserve (bytes s, m) x = Some ((q1, m1), r)"
    "run_steps (bq_spec_step reserve) (q1, m1) xs = Some ((q, m'), rs')" "rs = r # rs'"
    using Cons.prems(5) by (auto split: bind_splits)
  obtain s' where s': "bq_step app prep retr tak unwr s x = Some (s', r)" "invar s'" "bytes s' = q1"
    "m1 \<le> reserve" "m1 \<le> room s'" "footprint s' \<le> footprint s + bq_appended x"
    using step_refines [OF Cons.prems(1) _ Cons.prems(3,4) s1(1)] Cons.prems(2) by auto
  then show ?case using Cons.IH [of s' m1 rs'] Cons.prems(2) s1 by auto
qed simp

end

end
