(* ===== verification/Intset.thy ===== *)
theory Intset
  imports Interfaces
begin

text \<open>
  The sorted integer array of \<^verbatim>\<open>redis/src/intset.c\<close>. The header fields are numbers and the
  flexible array member \<open>contents\<close> is a byte buffer; every access goes through the checked
  operations of the prelude, so a result \<open>Some\<close> also says that the access stayed inside the
  allocation. Values are stored little-endian on every host (the \<^verbatim>\<open>memrev..ifbe\<close> macros
  swap on big-endian ones). \<open>int\<close> locals are integers, \<open>uint32_t\<close> values are naturals with the
  reduction modulo \<open>2 ^ 32\<close> written out where the code can wrap.
\<close>

section \<open>Data and operations\<close>

record intset =
  encoding :: nat
  is_length :: nat
  contents :: "byte list"

definition INTSET_ENC_INT16 :: nat where "INTSET_ENC_INT16 = 2"
definition INTSET_ENC_INT32 :: nat where "INTSET_ENC_INT32 = 4"
definition INTSET_ENC_INT64 :: nat where "INTSET_ENC_INT64 = 8"

lemmas enc_defs = INTSET_ENC_INT16_def INTSET_ENC_INT32_def INTSET_ENC_INT64_def

definition intsetValueEncoding :: "int \<Rightarrow> nat" where
  "intsetValueEncoding v =
     (if v < - (2 ^ 31) \<or> v > 2 ^ 31 - 1 then INTSET_ENC_INT64
      else if v < - (2 ^ 15) \<or> v > 2 ^ 15 - 1 then INTSET_ENC_INT32
      else INTSET_ENC_INT16)"

text \<open>The element width the three-way branches on an encoding select.\<close>

definition enc_width :: "nat \<Rightarrow> nat" where
  "enc_width enc =
     (if enc = INTSET_ENC_INT64 then 8 else if enc = INTSET_ENC_INT32 then 4 else 2)"

definition intsetGetEncoded :: "intset \<Rightarrow> int \<Rightarrow> nat \<Rightarrow> int option" where
  "intsetGetEncoded s pos enc =
     (if pos < 0 then None
      else do {
        bs \<leftarrow> rd (contents s) (nat pos * enc_width enc) (enc_width enc);
        Some (le_sdec bs)
      })"

definition intsetGet' :: "intset \<Rightarrow> int \<Rightarrow> int option" where
  "intsetGet' s pos = intsetGetEncoded s pos (encoding s)"

definition intsetSet :: "intset \<Rightarrow> nat \<Rightarrow> int \<Rightarrow> intset option" where
  "intsetSet s pos value =
     (let w = enc_width (encoding s) in do {
        m \<leftarrow> wr (contents s) (pos * w) (le_enc w value);
        Some (s\<lparr>contents := m\<rparr>)
      })"

definition intsetNew :: intset where
  "intsetNew = \<lparr>encoding = INTSET_ENC_INT16, is_length = 0, contents = []\<rparr>"

definition sizeof_intset :: nat where
  "sizeof_intset = 8"

definition intsetResize :: "(nat \<Rightarrow> byte) \<Rightarrow> intset \<Rightarrow> nat \<Rightarrow> intset option" where
  "intsetResize junk s len =
     (let size = len * encoding s mod 2 ^ 64 in
      if size \<le> 2 ^ 64 - 1 - sizeof_intset
      then Some (s\<lparr>contents := zrealloc junk (contents s) size\<rparr>)
      else None)"

text \<open>
  The \<open>while (max >= min)\<close> loop of the binary search; it returns the final values of
  \<open>min\<close>, \<open>mid\<close> and \<open>cur\<close> (here \<open>mn\<close> and \<open>mx\<close> for the bounds).
\<close>

partial_function (option) intsetSearch_loop ::
    "intset \<Rightarrow> int \<Rightarrow> int \<Rightarrow> int \<Rightarrow> int \<Rightarrow> int \<Rightarrow> (int \<times> int \<times> int) option" where
  "intsetSearch_loop s value mn mx mid cur =
     (if mx \<ge> mn then
        (let mid = u32 (u32 mn + u32 mx) div 2 in
         Option.bind (intsetGet' s mid) (\<lambda>cur.
           if value > cur then intsetSearch_loop s value (mid + 1) mx mid cur
           else if value < cur then intsetSearch_loop s value mn (mid - 1) mid cur
           else Some (mn, mid, cur)))
      else Some (mn, mid, cur))"

definition intsetSearch :: "intset \<Rightarrow> int \<Rightarrow> (bool \<times> nat) option" where
  "intsetSearch s value =
     (let mx = int (is_length s) - 1 in
      if is_length s = 0 then Some (False, 0)
      else do {
        hi \<leftarrow> intsetGet' s mx;
        if value > hi then Some (False, is_length s)
        else do {
          lo \<leftarrow> intsetGet' s 0;
          if value < lo then Some (False, 0)
          else do {
            (mn, mid, cur) \<leftarrow> intsetSearch_loop s value 0 mx (-1) (-1);
            if value = cur then Some (True, nat mid) else Some (False, nat mn)
          }
        }
      })"

text \<open>\<open>while (length--) _intsetSet(is, length+prepend, _intsetGetEncoded(is, length, curenc))\<close>\<close>

fun intsetUpgrade_loop :: "intset \<Rightarrow> nat \<Rightarrow> nat \<Rightarrow> nat \<Rightarrow> intset option" where
  "intsetUpgrade_loop s curenc prepend 0 = Some s"
| "intsetUpgrade_loop s curenc prepend (Suc n) = do {
     v \<leftarrow> intsetGetEncoded s (int n) curenc;
     s' \<leftarrow> intsetSet s (n + prepend) v;
     intsetUpgrade_loop s' curenc prepend n
   }"

definition intsetUpgradeAndAdd :: "(nat \<Rightarrow> byte) \<Rightarrow> intset \<Rightarrow> int \<Rightarrow> intset option" where
  "intsetUpgradeAndAdd junk s value =
     (let curenc = encoding s;
          newenc = intsetValueEncoding value;
          len = is_length s;
          prepend = (if value < 0 then 1 else 0)
      in do {
        s1 \<leftarrow> intsetResize junk (s\<lparr>encoding := newenc\<rparr>) ((len + 1) mod 2 ^ 32);
        s2 \<leftarrow> intsetUpgrade_loop s1 curenc prepend len;
        s3 \<leftarrow> (if prepend \<noteq> 0 then intsetSet s2 0 value else intsetSet s2 (is_length s2) value);
        Some (s3\<lparr>is_length := (is_length s3 + 1) mod 2 ^ 32\<rparr>)
      })"

text \<open>\<open>bytes\<close> is a \<open>uint32_t\<close>: the subtraction and the product are both reduced.\<close>

definition intsetMoveTail :: "intset \<Rightarrow> nat \<Rightarrow> nat \<Rightarrow> intset option" where
  "intsetMoveTail s from to =
     (let w = enc_width (encoding s);
          bytes = nat ((int (is_length s) - int from) mod 2 ^ 32);
          bytes = bytes * w mod 2 ^ 32
      in do {
        m \<leftarrow> memmove (contents s) (to * w) (from * w) bytes;
        Some (s\<lparr>contents := m\<rparr>)
      })"

definition intsetAdd :: "(nat \<Rightarrow> byte) \<Rightarrow> intset \<Rightarrow> int \<Rightarrow> (intset \<times> bool) option" where
  "intsetAdd junk s value =
     (if intsetValueEncoding value > encoding s then do {
        s' \<leftarrow> intsetUpgradeAndAdd junk s value;
        Some (s', True)
      } else do {
        (found, pos) \<leftarrow> intsetSearch s value;
        if found then Some (s, False)
        else do {
          s1 \<leftarrow> intsetResize junk s ((is_length s + 1) mod 2 ^ 32);
          s2 \<leftarrow> (if pos < is_length s1 then intsetMoveTail s1 pos (pos + 1) else Some s1);
          s3 \<leftarrow> intsetSet s2 pos value;
          Some (s3\<lparr>is_length := (is_length s3 + 1) mod 2 ^ 32\<rparr>, True)
        }
      })"

definition intsetRemove :: "(nat \<Rightarrow> byte) \<Rightarrow> intset \<Rightarrow> int \<Rightarrow> (intset \<times> bool) option" where
  "intsetRemove junk s value =
     (if intsetValueEncoding value \<le> encoding s then do {
        (found, pos) \<leftarrow> intsetSearch s value;
        if found then
          (let len = is_length s in do {
             s1 \<leftarrow> (if pos < len - 1 then intsetMoveTail s (pos + 1) pos else Some s);
             s2 \<leftarrow> intsetResize junk s1 (len - 1);
             Some (s2\<lparr>is_length := len - 1\<rparr>, True)
           })
        else Some (s, False)
      } else Some (s, False))"

definition intsetFind :: "intset \<Rightarrow> int \<Rightarrow> bool option" where
  "intsetFind s value =
     (if intsetValueEncoding value \<le> encoding s
      then do { (found, pos) \<leftarrow> intsetSearch s value; Some found }
      else Some False)"

text \<open>\<open>rnd\<close> is the value \<open>rand()\<close> returns; the assertion on an empty set is the failure.\<close>

definition intsetRandom :: "intset \<Rightarrow> nat \<Rightarrow> int option" where
  "intsetRandom s rnd =
     (if is_length s = 0 then None else intsetGet' s (int (rnd mod is_length s)))"

text \<open>The outer \<open>option\<close> is the access, the inner one the return value 0 or 1.\<close>

definition intsetGet :: "intset \<Rightarrow> nat \<Rightarrow> int option option" where
  "intsetGet s pos =
     (if pos < is_length s then do { v \<leftarrow> intsetGet' s (int pos); Some (Some v) }
      else Some None)"

definition intsetLen :: "intset \<Rightarrow> nat" where
  "intsetLen s = is_length s"

definition intsetBlobLen :: "intset \<Rightarrow> nat" where
  "intsetBlobLen s = sizeof_intset + is_length s * encoding s"

text \<open>The deep scan of the integrity check, from index \<open>i\<close> with the previous value.\<close>

function intsetValidate_loop :: "intset \<Rightarrow> nat \<Rightarrow> int \<Rightarrow> bool option" where
  "intsetValidate_loop s i prev =
     (if i < is_length s then do {
        cur \<leftarrow> intsetGet' s (int i);
        if cur \<le> prev then Some False else intsetValidate_loop s (i + 1) cur
      } else Some True)"
  by pat_completeness auto
termination
  by (relation "measure (\<lambda>(s, i, prev). is_length s - i)") auto

text \<open>The payload \<open>p\<close> is its header and the bytes after it; \<open>sz\<close> is the size of the payload.\<close>

definition intsetValidateIntegrity :: "intset \<Rightarrow> nat \<Rightarrow> bool \<Rightarrow> bool option" where
  "intsetValidateIntegrity s sz deep =
     (if sz < sizeof_intset then Some False
      else if encoding s \<noteq> INTSET_ENC_INT64 \<and> encoding s \<noteq> INTSET_ENC_INT32 \<and>
              encoding s \<noteq> INTSET_ENC_INT16 then Some False
      else let record_size = enc_width (encoding s); count = is_length s in
        if sizeof_intset + count * record_size \<noteq> sz then Some False
        else if count = 0 then Some False
        else if \<not> deep then Some True
        else do {
          prev \<leftarrow> intsetGet' s 0;
          intsetValidate_loop s 1 prev
        })"

declare intsetValidate_loop.simps [simp del]

section \<open>Abstraction and invariant\<close>

text \<open>The value in slot \<open>i\<close> of a buffer of \<open>w\<close>-byte slots.\<close>

definition slot :: "nat \<Rightarrow> byte list \<Rightarrow> nat \<Rightarrow> int" where
  "slot w m i = le_sdec (take w (drop (i * w) m))"

definition intset_vals :: "intset \<Rightarrow> int list" where
  "intset_vals s = map (slot (encoding s) (contents s)) [0..<is_length s]"

definition enc_ok :: "nat \<Rightarrow> bool" where
  "enc_ok enc \<longleftrightarrow> enc \<in> {INTSET_ENC_INT16, INTSET_ENC_INT32, INTSET_ENC_INT64}"

definition intset_shape :: "intset \<Rightarrow> bool" where
  "intset_shape s \<longleftrightarrow>
     enc_ok (encoding s) \<and>
     length (contents s) = is_length s * encoding s \<and>
     is_length s * encoding s < 2 ^ 32"

definition intset_wf :: "intset \<Rightarrow> bool" where
  "intset_wf s \<longleftrightarrow> intset_shape s \<and> sorted_wrt (<) (intset_vals s)"

text \<open>
  Room for one more element: the byte count of the enlarged array still fits \<open>uint32_t\<close>, in
  which \<open>intsetMoveTail\<close> computes it, whatever encoding the addition needs.
\<close>

definition intset_room :: "intset \<Rightarrow> bool" where
  "intset_room s \<longleftrightarrow> (is_length s + 1) * 8 < 2 ^ 32"

lemma length_intset_vals [simp]: "length (intset_vals s) = is_length s"
  by (simp add: intset_vals_def)

lemma enc_width_id: "enc_ok enc \<Longrightarrow> enc_width enc = enc"
  by (auto simp: enc_width_def enc_ok_def enc_defs)

lemma enc_ok_pos: "enc_ok enc \<Longrightarrow> 0 < enc \<and> enc \<le> 8"
  by (auto simp: enc_ok_def enc_defs)

lemma intset_shapeD:
  assumes "intset_shape s"
  shows "enc_width (encoding s) = encoding s" "encoding s > 0" "encoding s \<le> 8"
    "length (contents s) = is_length s * encoding s" "is_length s * encoding s < 2 ^ 32"
    "is_length s < 2 ^ 31" "is_length s * 2 \<le> is_length s * encoding s"
  using assms unfolding intset_shape_def enc_ok_def by (auto simp: enc_width_def enc_defs)

lemma slot_frame:
  assumes "p + length bs \<le> length m" "i * w + w \<le> p \<or> p + length bs \<le> i * w"
  shows "slot w (take p m @ bs @ drop (p + length bs) m) i = slot w m i"
  using assms by (auto simp: slot_def min_def drop_take)

lemma slot_hit:
  assumes "length bs = w" "i * w \<le> length m"
  shows "slot w (take (i * w) m @ bs @ m') i = le_sdec bs"
  using assms by (simp add: slot_def)

lemma slot_take: "i * w + w \<le> n \<Longrightarrow> slot w (take n m) i = slot w m i"
  by (simp add: slot_def drop_take min_def)

lemma mult_slot_le: "i < n \<Longrightarrow> i * w + w \<le> n * (w::nat)"
  using mult_le_mono1 [of "Suc i" n w] by simp

lemma intsetGet'_ok:
  assumes "intset_shape s" "i < is_length s"
  shows "intsetGet' s (int i) = Some (intset_vals s ! i)"
  using assms mult_slot_le [of i "is_length s" "encoding s"]
  by (simp add: intsetGet'_def intsetGetEncoded_def intset_shapeD rd_Some slot_def intset_vals_def)

section \<open>Binary search\<close>

text \<open>What the search establishes about the values and the position it returns.\<close>

definition insert_pos :: "int list \<Rightarrow> int \<Rightarrow> nat \<Rightarrow> bool" where
  "insert_pos xs v p \<longleftrightarrow>
     p \<le> length xs \<and> (\<forall>i < p. xs ! i < v) \<and> (\<forall>i. p \<le> i \<and> i < length xs \<longrightarrow> v < xs ! i)"

lemma insert_pos_notin: "insert_pos xs v p \<Longrightarrow> v \<notin> set xs"
  unfolding insert_pos_def in_set_conv_nth by (metis linorder_not_le order_less_irrefl)

lemma midpoint:
  assumes "0 \<le> mn" "mn \<le> mx" "mx < 2 ^ 31"
  shows "mn \<le> u32 (u32 mn + u32 mx) div 2 \<and> u32 (u32 mn + u32 mx) div 2 \<le> mx"
  using assms by simp linarith

lemma intsetSearch_loop_ok:
  assumes "intset_wf s" "0 \<le> mn" "mx < int (is_length s)" "mn \<le> mx + 1"
    "\<forall>i < nat mn. intset_vals s ! i < v"
    "\<forall>i. mx < int i \<and> i < is_length s \<longrightarrow> v < intset_vals s ! i"
    "mx < mn \<longrightarrow> cur \<noteq> v"
  shows "\<exists>mn' mid' cur'. intsetSearch_loop s v mn mx mid cur = Some (mn', mid', cur') \<and>
     (if cur' = v then 0 \<le> mid' \<and> nat mid' < is_length s \<and> intset_vals s ! nat mid' = v
      else 0 \<le> mn' \<and> insert_pos (intset_vals s) v (nat mn'))"
  using assms(2-)
proof (induction "nat (mx - mn + 1)" arbitrary: mn mx mid cur rule: less_induct)
  case less
  let ?xs = "intset_vals s"
  show ?case
  proof (cases "mn \<le> mx")
    case False
    with less.prems have "insert_pos ?xs v (nat mn)"
      by (auto simp: insert_pos_def)
    with False less.prems show ?thesis
      by (subst intsetSearch_loop.simps) auto
  next
    case True
    define m where "m = u32 (u32 mn + u32 mx) div 2"
    have len: "int (is_length s) < 2 ^ 31"
      using assms(1) intset_shapeD(6) by (fastforce simp: intset_wf_def)
    have m: "mn \<le> m" "m \<le> mx" "0 \<le> m" "nat m < is_length s"
      using midpoint [of mn mx] True less.prems len by (auto simp: m_def)
    then have get: "intsetGet' s m = Some (?xs ! nat m)"
      using intsetGet'_ok [of s "nat m"] assms(1) by (simp add: intset_wf_def)
    have mono: "?xs ! i < ?xs ! j" if "i < j" "j < is_length s" for i j
      using assms(1) that by (auto simp: intset_wf_def sorted_wrt_iff_nth_less)
    note unfold = intsetSearch_loop.simps [of s v mn mx mid cur] Let_def m_def [symmetric]
    consider "?xs ! nat m < v" | "v < ?xs ! nat m" | "v = ?xs ! nat m" by linarith
    then show ?thesis
    proof cases
      case 1
      have "?xs ! i < v" if "i < nat (m + 1)" for i
        using mono [of i "nat m"] 1 m that by (cases "i = nat m") fastforce+
      moreover have "intsetSearch_loop s v mn mx mid cur =
          intsetSearch_loop s v (m + 1) mx m (?xs ! nat m)"
        using 1 get True by (simp add: unfold)
      ultimately show ?thesis
        using less.hyps [of mx "m + 1" "?xs ! nat m" m] less.prems 1 m by simp
    next
      case 2
      have "v < ?xs ! i" if "m - 1 < int i" "i < is_length s" for i
        using mono [of "nat m" i] 2 m that by (cases "i = nat m") fastforce+
      moreover have "intsetSearch_loop s v mn mx mid cur =
          intsetSearch_loop s v mn (m - 1) m (?xs ! nat m)"
        using 2 get True by (simp add: unfold)
      ultimately show ?thesis
        using less.hyps [of "m - 1" mn "?xs ! nat m" m] less.prems 2 m by simp
    next
      case 3
      then have "intsetSearch_loop s v mn mx mid cur = Some (mn, m, v)"
        using get True by (subst unfold(1)) (simp add: Let_def flip: m_def)
      with 3 m show ?thesis by simp
    qed
  qed
qed

lemma intsetSearch_ok:
  assumes "intset_wf s"
  shows "\<exists>p. intsetSearch s v = Some (v \<in> set (intset_vals s), p) \<and>
    (if v \<in> set (intset_vals s) then p < is_length s \<and> intset_vals s ! p = v
     else insert_pos (intset_vals s) v p)"
proof (cases "is_length s = 0")
  case True
  then show ?thesis by (simp add: intsetSearch_def intset_vals_def insert_pos_def)
next
  case False
  let ?xs = "intset_vals s"
  have shape: "intset_shape s" and mono: "\<And>i j. i < j \<Longrightarrow> j < is_length s \<Longrightarrow> ?xs ! i < ?xs ! j"
    using assms by (auto simp: intset_wf_def sorted_wrt_iff_nth_less)
  have hi: "intsetGet' s (int (is_length s) - 1) = Some (?xs ! (is_length s - 1))"
    using intsetGet'_ok [OF shape, of "is_length s - 1"] False by (simp add: of_nat_diff)
  have lo: "intsetGet' s 0 = Some (?xs ! 0)"
    using intsetGet'_ok [OF shape, of 0] False by simp
  consider "?xs ! (is_length s - 1) < v" | "v \<le> ?xs ! (is_length s - 1)" "v < ?xs ! 0"
    | "v \<le> ?xs ! (is_length s - 1)" "?xs ! 0 \<le> v" by linarith
  then show ?thesis
  proof cases
    case 1
    have "?xs ! i < v" if "i < is_length s" for i
      using 1 mono [of i "is_length s - 1"] that by (cases "i = is_length s - 1") fastforce+
    then have "insert_pos ?xs v (is_length s)" by (auto simp: insert_pos_def)
    with insert_pos_notin [OF this] show ?thesis
      using 1 False hi by (simp add: intsetSearch_def)
  next
    case 2
    have "v < ?xs ! i" if "i < is_length s" for i
      using 2 mono [of 0 i] that by (cases "i = 0") auto
    then have "insert_pos ?xs v 0" by (auto simp: insert_pos_def)
    with insert_pos_notin [OF this] show ?thesis
      using 2 False hi lo by (simp add: intsetSearch_def)
  next
    case 3
    obtain mn mid cur where
      loop: "intsetSearch_loop s v 0 (int (is_length s) - 1) (-1) (-1) = Some (mn, mid, cur)" and
      res: "if cur = v then 0 \<le> mid \<and> nat mid < is_length s \<and> ?xs ! nat mid = v
            else 0 \<le> mn \<and> insert_pos ?xs v (nat mn)"
      using intsetSearch_loop_ok [OF assms, of 0 "int (is_length s) - 1" v "-1" "-1"] False
      by auto
    show ?thesis
    proof (cases "cur = v")
      case True
      then have "v \<in> set ?xs" using res by (auto simp: in_set_conv_nth)
      then show ?thesis using 3 False hi lo loop res True by (simp add: intsetSearch_def)
    next
      case cur: False
      then have "v \<notin> set ?xs" using res insert_pos_notin by auto
      then show ?thesis using 3 False hi lo loop res cur by (simp add: intsetSearch_def)
    qed
  qed
qed

section \<open>Slots of the buffer under writes and moves\<close>

lemma wr_slot:
  assumes "length m = n * w" "p < n" "length bs = w"
  shows "\<exists>m'. wr m (p * w) bs = Some m' \<and> length m' = length m \<and>
    take (p * w) m' = take (p * w) m \<and> slot w m' p = le_sdec bs \<and>
    (\<forall>i. i \<noteq> p \<longrightarrow> slot w m' i = slot w m i)"
proof -
  have le: "p * w + w \<le> length m"
    using mult_slot_le [OF assms(2)] assms(1) by simp
  let ?m = "take (p * w) m @ bs @ drop (p * w + length bs) m"
  have "slot w ?m i = slot w m i" if "i \<noteq> p" for i
    using that le assms(3) mult_slot_le [of i p w] mult_slot_le [of p i w]
    by (intro slot_frame) (auto simp: nat_neq_iff add.commute)
  moreover have "slot w ?m p = le_sdec bs"
    using assms(3) le by (intro slot_hit) auto
  ultimately show ?thesis
    using le assms(3) by (auto simp: wr_Some)
qed

lemma memmove_slots:
  assumes "length m = n * w" "from + k \<le> n" "to + k \<le> n"
  shows "\<exists>m'. memmove m (to * w) (from * w) (k * w) = Some m' \<and> length m' = length m \<and>
    (\<forall>i. slot w m' i = (if to \<le> i \<and> i < to + k then slot w m (i - to + from) else slot w m i))"
proof -
  have src: "from * w + k * w \<le> length m" and dst: "to * w + k * w \<le> length m"
    using mult_le_mono1 [OF assms(2), of w] mult_le_mono1 [OF assms(3), of w] assms(1)
    by (simp_all add: add_mult_distrib)
  define bs where "bs = take (k * w) (drop (from * w) m)"
  have bs: "length bs = k * w" using src by (simp add: bs_def)
  let ?m = "take (to * w) m @ bs @ drop (to * w + length bs) m"
  have inside: "slot w ?m i = slot w m (i - to + from)" if "to \<le> i" "i < to + k" for i
  proof -
    obtain j where j: "i = to + j" "j < k" using \<open>to \<le> i\<close> \<open>i < to + k\<close>
      by (metis add_less_cancel_left le_Suc_ex)
    have jk: "j * w + w \<le> k * w" using mult_slot_le [OF j(2)] .
    have "take w (drop (i * w) ?m) = take w (drop (j * w) bs)"
      using j jk bs dst by (simp add: add_mult_distrib)
    also have "\<dots> = take w (drop ((j + from) * w) m)"
      using jk by (simp add: bs_def drop_take add_mult_distrib min_def add.commute)
    finally show ?thesis using j by (simp add: slot_def)
  qed
  have outside: "slot w ?m i = slot w m i" if "\<not> (to \<le> i \<and> i < to + k)" for i
  proof (rule slot_frame)
    show "to * w + length bs \<le> length m" using dst bs by simp
    show "i * w + w \<le> to * w \<or> to * w + length bs \<le> i * w"
      using that mult_slot_le [of i to w] mult_le_mono1 [of "to + k" i w] bs
      by (auto simp: add_mult_distrib not_less)
  qed
  show ?thesis
    using src dst bs inside outside
    by (auto simp: memmove_def rd_Some wr_Some simp flip: bs_def)
qed

section \<open>Encodings and stores\<close>

text \<open>A value that a signed integer of \<open>w\<close> bytes can hold.\<close>

definition fits :: "nat \<Rightarrow> int \<Rightarrow> bool" where
  "fits w v \<longleftrightarrow> - (256 ^ w) \<le> 2 * v \<and> 2 * v < 256 ^ w"

lemma fits_valenc:
  assumes "int64 v"
  shows "fits (intsetValueEncoding v) v"
  using assms by (auto simp: fits_def intsetValueEncoding_def enc_defs int64_def)

lemma fits_mono:
  assumes "fits w v" "w \<le> w'"
  shows "fits w' v"
proof -
  have "(256 :: int) ^ w \<le> 256 ^ w'" using assms(2) by (rule power_increasing) simp
  with assms(1) show ?thesis unfolding fits_def by linarith
qed

lemma fits_slot:
  assumes "w > 0" "i * w + w \<le> length m"
  shows "fits w (slot w m i)"
proof -
  have "length (take w (drop (i * w) m)) = w" using assms by simp
  with assms(1) show ?thesis
    using le_sdec_bounds [of "take w (drop (i * w) m)"] by (force simp: fits_def slot_def)
qed

lemma valenc_least:
  assumes "enc_ok w" "fits w v"
  shows "intsetValueEncoding v \<le> w"
  using assms by (auto simp: fits_def intsetValueEncoding_def enc_ok_def enc_defs)

lemma valenc_range [simp]: "enc_ok (intsetValueEncoding v)"
  by (auto simp: intsetValueEncoding_def enc_ok_def)

lemma intsetSet_ok:
  assumes "enc_ok (encoding s)"
    "length (contents s) = n * encoding s" "p < n" "fits (encoding s) v"
  obtains m where "intsetSet s p v = Some (s\<lparr>contents := m\<rparr>)" "length m = length (contents s)"
    "take (p * encoding s) m = take (p * encoding s) (contents s)" "slot (encoding s) m p = v"
    "\<And>i. i \<noteq> p \<Longrightarrow> slot (encoding s) m i = slot (encoding s) (contents s) i"
proof -
  have "encoding s > 0" using enc_ok_pos [OF assms(1)] by simp
  then have v: "le_sdec (le_enc (encoding s) v) = v"
    using assms(4) by (intro le_sdec_enc) (auto simp: fits_def)
  obtain m where m: "wr (contents s) (p * encoding s) (le_enc (encoding s) v) = Some m"
    "length m = length (contents s)" "take (p * encoding s) m = take (p * encoding s) (contents s)"
    "slot (encoding s) m p = v"
    "\<And>i. i \<noteq> p \<Longrightarrow> slot (encoding s) m i = slot (encoding s) (contents s) i"
    using wr_slot [OF assms(2,3), of "le_enc (encoding s) v"] v by auto
  show ?thesis
    by (rule that [of m]) (use m in \<open>simp_all add: intsetSet_def enc_width_id [OF assms(1)] Let_def\<close>)
qed

section \<open>Upgrading the encoding in place\<close>

lemma intsetUpgrade_loop_ok:
  assumes "enc_ok (encoding s)"
    "enc_ok cur" "cur \<le> encoding s"
    "length (contents s) = (L + 1) * encoding s" "n \<le> L" "prepend \<le> 1"
  shows "\<exists>m. intsetUpgrade_loop s cur prepend n = Some (s\<lparr>contents := m\<rparr>) \<and>
    length m = length (contents s) \<and>
    (\<forall>i < n. slot (encoding s) m (i + prepend) = slot cur (contents s) i) \<and>
    (\<forall>j \<ge> n + prepend. slot (encoding s) m j = slot (encoding s) (contents s) j)"
  using assms
proof (induction n arbitrary: s)
  case 0
  then show ?case by (auto intro: exI [of _ "contents s"])
next
  case (Suc n)
  let ?w = "encoding s"
  let ?v = "slot cur (contents s) n"
  have cur: "cur > 0" using enc_ok_pos [OF Suc.prems(2)] by simp
  have "n * cur + cur \<le> (L + 1) * ?w"
    using mult_slot_le [of n "L + 1" cur] mult_le_mono2 [of cur ?w "L + 1"] Suc.prems
    by linarith
  then have rd: "n * cur + cur \<le> length (contents s)" using Suc.prems(4) by simp
  then have get: "intsetGetEncoded s (int n) cur = Some ?v"
    by (simp add: intsetGetEncoded_def enc_width_id [OF Suc.prems(2)] rd_Some slot_def)
  have "fits ?w ?v" using fits_slot [OF cur rd] fits_mono Suc.prems(3) by blast
  then obtain m where m: "intsetSet s (n + prepend) ?v = Some (s\<lparr>contents := m\<rparr>)"
    "length m = length (contents s)"
    "take ((n + prepend) * ?w) m = take ((n + prepend) * ?w) (contents s)"
    "slot ?w m (n + prepend) = ?v" "\<And>j. j \<noteq> n + prepend \<Longrightarrow> slot ?w m j = slot ?w (contents s) j"
    using intsetSet_ok [OF Suc.prems(1,4), of "n + prepend" ?v] Suc.prems(5,6) by auto
  have old: "slot cur m i = slot cur (contents s) i" if "i < n" for i
  proof -
    have "i * cur + cur \<le> (n + prepend) * ?w"
      using mult_slot_le [OF that, of cur] mult_le_mono [of n "n + prepend" cur ?w] Suc.prems(3)
      by simp
    then show ?thesis using m(3) by (metis slot_take)
  qed
  obtain m' where m': "intsetUpgrade_loop (s\<lparr>contents := m\<rparr>) cur prepend n = Some (s\<lparr>contents := m'\<rparr>)"
    "length m' = length m" "\<forall>i < n. slot ?w m' (i + prepend) = slot cur m i"
    "\<forall>j \<ge> n + prepend. slot ?w m' j = slot ?w m j"
    using Suc.IH [of "s\<lparr>contents := m\<rparr>"] Suc.prems m(2) by auto
  have "slot ?w m' (i + prepend) = slot cur (contents s) i" if "i < Suc n" for i
    using that m m' old by (cases "i = n") auto
  moreover have "slot ?w m' j = slot ?w (contents s) j" if "j \<ge> Suc n + prepend" for j
    using that m m' by simp
  ultimately show ?case using get m m' by (intro exI [of _ m']) simp
qed

lemma intset_vals_nth [simp]:
  "i < is_length s \<Longrightarrow> intset_vals s ! i = slot (encoding s) (contents s) i"
  by (simp add: intset_vals_def)

lemma intset_vals_eqI:
  assumes "is_length s = length xs" "\<And>i. i < length xs \<Longrightarrow> slot (encoding s) (contents s) i = xs ! i"
  shows "intset_vals s = xs"
  using assms by (intro nth_equalityI) auto

lemma intsetResize_ok:
  assumes "len * encoding s < 2 ^ 32"
  shows "intsetResize junk s len = Some (s\<lparr>contents := zrealloc junk (contents s) (len * encoding s)\<rparr>)"
  using assms by (simp add: intsetResize_def sizeof_intset_def Let_def)

lemma slot_zrealloc:
  "i * w + w \<le> n \<Longrightarrow> i * w + w \<le> length m \<Longrightarrow> slot w (zrealloc junk m n) i = slot w m i"
  using slot_take [of i w "i * w + w" "zrealloc junk m n"] slot_take [of i w "i * w + w" m]
  by simp

text \<open>Every value of a set fits its encoding, so a value that needs a wider one is extreme.\<close>

lemma wider_value_extreme:
  assumes "intset_shape s" "intsetValueEncoding v > encoding s" "x \<in> set (intset_vals s)"
  shows "if v < 0 then v < x else x < v"
proof -
  obtain i where i: "i < is_length s" "x = slot (encoding s) (contents s) i"
    using assms(3) by (auto simp: in_set_conv_nth)
  have x: "fits (encoding s) x"
    using fits_slot [of "encoding s" i "contents s"] intset_shapeD [OF assms(1)]
      mult_slot_le [OF i(1), of "encoding s"] i by simp
  have "\<not> fits (encoding s) v"
    using valenc_least [of "encoding s" v] assms(1,2) by (auto simp: intset_shape_def)
  with x show ?thesis by (auto simp: fits_def)
qed

lemma intsetUpgradeAndAdd_ok:
  assumes wf: "intset_wf s" and room: "intset_room s" and v: "int64 v"
    and wider: "intsetValueEncoding v > encoding s"
  shows "\<exists>s'. intsetUpgradeAndAdd junk s v = Some s' \<and> intset_wf s' \<and>
    encoding s' = intsetValueEncoding v \<and>
    intset_vals s' = (if v < 0 then v # intset_vals s else intset_vals s @ [v])"
proof -
  let ?n = "is_length s" and ?w = "intsetValueEncoding v"
  define pre where "pre = (if v < 0 then 1 else 0 :: nat)"
  then have pre: "pre \<le> 1" by simp
  have shape: "intset_shape s" using wf by (simp add: intset_wf_def)
  have w: "?w \<le> 8" "?w > 0" using enc_ok_pos [OF valenc_range] by auto
  have small: "(?n + 1) * ?w < 2 ^ 32"
    using mult_le_mono2 [OF w(1), of "?n + 1"] room by (simp add: intset_room_def)
  then have n: "(?n + 1) mod 2 ^ 32 = ?n + 1"
    using mult_le_mono2 [of 1 ?w "?n + 1"] w by simp
  let ?s1 = "s\<lparr>encoding := ?w, contents := zrealloc junk (contents s) ((?n + 1) * ?w)\<rparr>"
  have res: "intsetResize junk (s\<lparr>encoding := ?w\<rparr>) ((?n + 1) mod 2 ^ 32) = Some ?s1"
    using intsetResize_ok [of "?n + 1" "s\<lparr>encoding := ?w\<rparr>" junk] small by (simp only: n) simp
  have keep: "slot (encoding s) (contents ?s1) i = slot (encoding s) (contents s) i" if "i < ?n" for i
    using mult_slot_le [OF that, of "encoding s"] intset_shapeD [OF shape] wider
      mult_le_mono [of ?n "?n + 1" "encoding s" ?w] that
    by (simp add: slot_zrealloc)
  obtain m where m: "intsetUpgrade_loop ?s1 (encoding s) pre ?n = Some (?s1\<lparr>contents := m\<rparr>)"
    "length m = (?n + 1) * ?w"
    "\<And>i. i < ?n \<Longrightarrow> slot ?w m (i + pre) = slot (encoding s) (contents s) i"
    using intsetUpgrade_loop_ok [of ?s1 "encoding s" ?n ?n pre] pre shape wider keep
    by (auto simp: intset_shape_def)
  let ?p = "if v < 0 then 0 else ?n"
  have p: "?p < ?n + 1" by simp
  obtain m' where m': "intsetSet (?s1\<lparr>contents := m\<rparr>) ?p v = Some (?s1\<lparr>contents := m'\<rparr>)"
    "length m' = (?n + 1) * ?w" "slot ?w m' ?p = v" "\<And>i. i \<noteq> ?p \<Longrightarrow> slot ?w m' i = slot ?w m i"
    using intsetSet_ok [of "?s1\<lparr>contents := m\<rparr>" "?n + 1" ?p v] valenc_range [of v] m(2) p
      fits_valenc [OF v] by auto
  let ?s' = "?s1\<lparr>contents := m', is_length := ?n + 1\<rparr>"
  have run: "intsetUpgradeAndAdd junk s v = Some ?s'"
    using res m(1) m'(1) n by (auto simp: intsetUpgradeAndAdd_def pre_def Let_def)
  have vals: "intset_vals ?s' = (if v < 0 then v # intset_vals s else intset_vals s @ [v])"
  proof (cases "v < 0")
    case True
    then have "slot ?w m' i = (v # intset_vals s) ! i" if "i < ?n + 1" for i
      using that m(3) [of "i - 1"] m'(3) m'(4) [of i] by (cases i) (auto simp: pre_def)
    then show ?thesis using True by (intro intset_vals_eqI) simp_all
  next
    case False
    then have "slot ?w m' i = (intset_vals s @ [v]) ! i" if "i < ?n + 1" for i
      using that m(3) [of i] m'(3) m'(4) [of i]
      by (cases "i = ?n") (auto simp: pre_def nth_append)
    then show ?thesis using False by (intro intset_vals_eqI) simp_all
  qed
  have "intset_wf ?s'"
    using wf vals wider_value_extreme [OF shape wider] valenc_range [of v] small m'(2)
    by (auto simp: intset_wf_def intset_shape_def sorted_wrt_append)
  with run vals show ?thesis by (intro exI [of _ ?s']) simp
qed

section \<open>Insertion and removal inside the encoding\<close>

lemma sorted_insert_pos:
  assumes "sorted_wrt (<) xs" "insert_pos xs v p"
  shows "sorted_wrt (<) (take p xs @ v # drop p xs)"
proof -
  have "\<forall>x \<in> set (take p xs). x < v" "\<forall>x \<in> set (drop p xs). v < x"
    using assms(2) by (auto simp: insert_pos_def in_set_conv_nth)
  then show ?thesis
    using assms(1) by (fastforce simp: sorted_wrt_append sorted_wrt_take sorted_wrt_drop)
qed

lemma set_insert_pos: "set (take p xs @ v # drop p xs) = insert v (set xs)"
proof -
  have "set (take p xs) \<union> set (drop p xs) = set xs"
    by (metis append_take_drop_id set_append)
  then show ?thesis by auto
qed

lemma nth_insert_pos:
  assumes "p \<le> length xs" "i \<le> length xs"
  shows "(take p xs @ v # drop p xs) ! i = (if i < p then xs ! i else if i = p then v else xs ! (i - 1))"
  using assms by (auto simp: nth_append nth_Cons' min_def)

lemma memmove_tail:
  assumes "length (contents s) = n * encoding s" "enc_ok (encoding s)" "n * encoding s < 2 ^ 32"
    "from \<le> is_length s" "is_length s \<le> n" "to + (is_length s - from) \<le> n"
  obtains m where "intsetMoveTail s from to = Some (s\<lparr>contents := m\<rparr>)"
    "length m = length (contents s)"
    "\<And>i. slot (encoding s) m i =
       (if to \<le> i \<and> i < to + (is_length s - from) then slot (encoding s) (contents s) (i - to + from)
        else slot (encoding s) (contents s) i)"
proof -
  let ?k = "is_length s - from" and ?w = "encoding s"
  have kw: "?k * ?w \<le> n * ?w" using assms(5) by (intro mult_le_mono1) simp
  have "?k \<le> ?k * ?w" using enc_ok_pos [OF assms(2)] by simp
  then have k: "?k < 2 ^ 32" using kw assms(3) by linarith
  have "nat ((int (is_length s) - int from) mod 2 ^ 32) = ?k"
    using k assms(4) by (simp add: of_nat_diff [symmetric] del: of_nat_diff)
  moreover have "?k * ?w mod 2 ^ 32 = ?k * ?w"
    using le_less_trans [OF kw assms(3)] by (rule mod_less)
  moreover obtain m where "memmove (contents s) (to * ?w) (from * ?w) (?k * ?w) = Some m"
    "length m = length (contents s)"
    "\<And>i. slot ?w m i = (if to \<le> i \<and> i < to + ?k then slot ?w (contents s) (i - to + from)
       else slot ?w (contents s) i)"
    using memmove_slots [OF assms(1), of "from" ?k to] assms(4-6) by auto
  ultimately show ?thesis
    by (intro that [of m]) (simp_all add: intsetMoveTail_def enc_width_id [OF assms(2)] Let_def)
qed

text \<open>Enlarging the array and shifting its tail opens a slot at the insert position.\<close>

lemma intset_open_gap:
  assumes shape: "intset_shape s" and room: "intset_room s" and pn: "p \<le> is_length s"
  obtains m1 m2 where
    "intsetResize junk s ((is_length s + 1) mod 2 ^ 32) = Some (s\<lparr>contents := m1\<rparr>)"
    "(if p < is_length s then intsetMoveTail (s\<lparr>contents := m1\<rparr>) p (p + 1)
      else Some (s\<lparr>contents := m1\<rparr>)) = Some (s\<lparr>contents := m2\<rparr>)"
    "length m2 = (is_length s + 1) * encoding s"
    "\<And>i. i < p \<Longrightarrow> slot (encoding s) m2 i = intset_vals s ! i"
    "\<And>i. p < i \<Longrightarrow> i \<le> is_length s \<Longrightarrow> slot (encoding s) m2 i = intset_vals s ! (i - 1)"
proof -
  let ?xs = "intset_vals s" and ?n = "is_length s" and ?w = "encoding s"
  note sh = intset_shapeD [OF shape]
  define N where "N = ?n + 1"
  have small: "N * ?w < 2 ^ 32"
    using mult_le_mono2 [OF sh(3), of N] room by (simp add: intset_room_def N_def)
  then have N: "(?n + 1) mod 2 ^ 32 = N"
    using mult_le_mono2 [of 1 ?w N] sh(2) by (simp add: N_def)
  define m1 where "m1 = zrealloc junk (contents s) (N * ?w)"
  have res: "intsetResize junk s N = Some (s\<lparr>contents := m1\<rparr>)"
    using intsetResize_ok [OF small] by (simp add: m1_def)
  have len1: "length m1 = N * ?w" by (simp add: m1_def)
  have keep: "slot ?w m1 i = ?xs ! i" if "i < ?n" for i
    using that mult_slot_le [OF that, of ?w] mult_slot_le [of i N ?w] sh(4)
    by (simp add: slot_zrealloc m1_def N_def)
  show ?thesis
  proof (cases "p < ?n")
    case True
    obtain m where m: "intsetMoveTail (s\<lparr>contents := m1\<rparr>) p (p + 1) = Some (s\<lparr>contents := m\<rparr>)"
      "length m = N * ?w"
      "\<And>i. slot ?w m i = (if p + 1 \<le> i \<and> i < p + 1 + (?n - p) then slot ?w m1 (i - (p + 1) + p)
         else slot ?w m1 i)"
      by (rule memmove_tail [of "s\<lparr>contents := m1\<rparr>" N p "p + 1"])
        (use shape small pn len1 in \<open>simp_all add: N_def intset_shape_def\<close>)
    show ?thesis
      by (rule that [of m1 m]) (use m True keep pn res N in \<open>auto simp: N_def\<close>)
  next
    case False
    then show ?thesis
      using pn keep len1 res N by (intro that [of m1 m1]) (auto simp: N_def)
  qed
qed

lemma intsetAdd_narrow:
  assumes wf: "intset_wf s" and room: "intset_room s" and v: "int64 v"
    and enc: "intsetValueEncoding v \<le> encoding s" and new: "v \<notin> set (intset_vals s)"
  shows "\<exists>s' p. intsetAdd junk s v = Some (s', True) \<and> intset_shape s' \<and>
    insert_pos (intset_vals s) v p \<and>
    intset_vals s' = take p (intset_vals s) @ v # drop p (intset_vals s)"
proof -
  let ?xs = "intset_vals s" and ?n = "is_length s" and ?w = "encoding s"
  have shape: "intset_shape s" and ok: "enc_ok ?w"
    using wf by (simp_all add: intset_wf_def intset_shape_def)
  obtain p where p: "intsetSearch s v = Some (False, p)" "insert_pos ?xs v p"
    using intsetSearch_ok [OF wf, of v] new by auto
  then have pn: "p \<le> ?n" by (simp add: insert_pos_def)
  obtain m1 m2 where m12: "intsetResize junk s ((?n + 1) mod 2 ^ 32) = Some (s\<lparr>contents := m1\<rparr>)"
    "(if p < ?n then intsetMoveTail (s\<lparr>contents := m1\<rparr>) p (p + 1)
      else Some (s\<lparr>contents := m1\<rparr>)) = Some (s\<lparr>contents := m2\<rparr>)"
    and m2: "length m2 = (?n + 1) * ?w" "\<And>i. i < p \<Longrightarrow> slot ?w m2 i = ?xs ! i"
    "\<And>i. p < i \<Longrightarrow> i \<le> ?n \<Longrightarrow> slot ?w m2 i = ?xs ! (i - 1)"
    using intset_open_gap [OF shape room pn] by blast
  have "fits ?w v" using fits_valenc [OF v] fits_mono enc by blast
  then obtain m3 where m3: "intsetSet (s\<lparr>contents := m2\<rparr>) p v = Some (s\<lparr>contents := m3\<rparr>)"
    "length m3 = (?n + 1) * ?w" "slot ?w m3 p = v" "\<And>i. i \<noteq> p \<Longrightarrow> slot ?w m3 i = slot ?w m2 i"
    using intsetSet_ok [of "s\<lparr>contents := m2\<rparr>" "?n + 1" p v] ok m2(1) pn by auto
  let ?s' = "s\<lparr>contents := m3, is_length := ?n + 1\<rparr>"
  have small: "(?n + 1) * ?w < 2 ^ 32"
    using mult_le_mono2 [OF intset_shapeD(3) [OF shape], of "?n + 1"] room
    by (simp add: intset_room_def)
  then have n: "(?n + 1) mod 2 ^ 32 = ?n + 1"
    using mult_le_mono2 [of 1 ?w "?n + 1"] intset_shapeD(2) [OF shape] by simp
  have "intsetAdd junk s v = Some (?s', True)"
    using enc p(1) m12 m3(1) n by (simp add: intsetAdd_def del: One_nat_def)
  moreover have "intset_vals ?s' = take p ?xs @ v # drop p ?xs"
  proof (rule intset_vals_eqI)
    fix i assume "i < length (take p ?xs @ v # drop p ?xs)"
    then have "i \<le> ?n" using pn by simp
    then show "slot (encoding ?s') (contents ?s') i = (take p ?xs @ v # drop p ?xs) ! i"
      using nth_insert_pos [of p ?xs i v] m2(2,3) m3(3,4) pn
      by (cases i p rule: linorder_cases) auto
  qed (use pn in simp)
  moreover have "intset_shape ?s'"
    using ok small m3(2) by (simp add: intset_shape_def)
  ultimately show ?thesis using p(2) by blast
qed

lemma intsetAdd_ok:
  assumes wf: "intset_wf s" and room: "intset_room s" and v: "int64 v"
  shows "\<exists>s'. intsetAdd junk s v = Some (s', v \<notin> set (intset_vals s)) \<and> intset_wf s' \<and>
    set (intset_vals s') = insert v (set (intset_vals s))"
proof -
  consider (wider) "intsetValueEncoding v > encoding s"
    | (present) "intsetValueEncoding v \<le> encoding s" "v \<in> set (intset_vals s)"
    | (new) "intsetValueEncoding v \<le> encoding s" "v \<notin> set (intset_vals s)" by linarith
  then show ?thesis
  proof cases
    case wider
    have "v \<notin> set (intset_vals s)"
      using wider_value_extreme [of s v v] wf wider by (auto simp: intset_wf_def split: if_splits)
    then show ?thesis
      using intsetUpgradeAndAdd_ok [OF wf room v wider, of junk] wider
      by (auto simp: intsetAdd_def)
  next
    case present
    obtain p where "intsetSearch s v = Some (True, p)"
      using intsetSearch_ok [OF wf, of v] present by auto
    then show ?thesis using present wf by (auto simp: intsetAdd_def)
  next
    case new
    obtain s' p where "intsetAdd junk s v = Some (s', True)" "intset_shape s'"
      "insert_pos (intset_vals s) v p"
      "intset_vals s' = take p (intset_vals s) @ v # drop p (intset_vals s)"
      using intsetAdd_narrow [OF wf room v new] by blast
    then show ?thesis
      using sorted_insert_pos [of "intset_vals s" v p] set_insert_pos [of p "intset_vals s" v] wf new
      by (simp add: intset_wf_def)
  qed
qed

lemma sorted_remove_nth:
  assumes "sorted_wrt (<) xs" "p < length xs"
  shows "sorted_wrt (<) (take p xs @ drop (Suc p) xs)"
    "set (take p xs @ drop (Suc p) xs) = set xs - {xs ! p :: int}"
proof -
  let ?l = "take p xs" and ?r = "drop (Suc p) xs"
  have "sorted_wrt (<) (?l @ xs ! p # ?r)" "set (?l @ xs ! p # ?r) = set xs"
    using assms by (simp_all add: id_take_nth_drop [symmetric])
  then show "sorted_wrt (<) (?l @ ?r)" "set (?l @ ?r) = set xs - {xs ! p}"
    by (fastforce simp: sorted_wrt_append)+
qed

lemma intsetRemove_ok:
  assumes wf: "intset_wf s"
  shows "\<exists>s'. intsetRemove junk s v = Some (s', v \<in> set (intset_vals s)) \<and> intset_wf s' \<and>
    set (intset_vals s') = set (intset_vals s) - {v}"
proof (cases "intsetValueEncoding v \<le> encoding s \<and> v \<in> set (intset_vals s)")
  case False
  show ?thesis
  proof (cases "intsetValueEncoding v \<le> encoding s")
    case True
    then show ?thesis
      using False intsetSearch_ok [OF wf, of v] wf by (auto simp: intsetRemove_def)
  next
    case wider: False
    then have "v \<notin> set (intset_vals s)"
      using wider_value_extreme [of s v v] wf by (auto simp: intset_wf_def split: if_splits)
    then show ?thesis using wider wf by (auto simp: intsetRemove_def)
  qed
next
  case True
  let ?xs = "intset_vals s" and ?n = "is_length s" and ?w = "encoding s"
  have shape: "intset_shape s" and ok: "enc_ok ?w" and sorted: "sorted_wrt (<) ?xs"
    using wf by (simp_all add: intset_wf_def intset_shape_def)
  note sh = intset_shapeD [OF shape]
  obtain p where p: "intsetSearch s v = Some (True, p)" "p < ?n" "?xs ! p = v"
    using intsetSearch_ok [OF wf, of v] True by auto
  obtain m where m: "(if p < ?n - 1 then intsetMoveTail s (p + 1) p else Some s) = Some (s\<lparr>contents := m\<rparr>)"
    "length m = ?n * ?w" "\<And>i. i < p \<Longrightarrow> slot ?w m i = ?xs ! i"
    "\<And>i. p \<le> i \<Longrightarrow> i < ?n - 1 \<Longrightarrow> slot ?w m i = ?xs ! (i + 1)"
  proof (cases "p < ?n - 1")
    case True
    obtain m where "intsetMoveTail s (p + 1) p = Some (s\<lparr>contents := m\<rparr>)" "length m = length (contents s)"
      "\<And>i. slot ?w m i = (if p \<le> i \<and> i < p + (?n - (p + 1)) then slot ?w (contents s) (i - p + (p + 1))
         else slot ?w (contents s) i)"
      by (rule memmove_tail [of s ?n "p + 1" p]) (use ok sh True in auto)
    then show ?thesis using that [of m] True p(2) sh(4) by auto
  next
    case False
    then show ?thesis using that [of "contents s"] p(2) sh(4) by auto
  qed
  have le: "(?n - 1) * ?w \<le> ?n * ?w" by (simp add: mult_le_mono1)
  have small: "(?n - 1) * ?w < 2 ^ 32" using le sh(5) by linarith
  let ?s' = "s\<lparr>contents := take ((?n - 1) * ?w) m, is_length := ?n - 1\<rparr>"
  have "intsetRemove junk s v = Some (?s', True)"
    using True p(1) m(1) intsetResize_ok [OF small, of junk] intsetResize_ok [of "?n - 1" "s\<lparr>contents := m\<rparr>" junk]
      small le m(2) by (simp add: intsetRemove_def Let_def zrealloc_shrink del: One_nat_def)
  moreover have "intset_vals ?s' = take p ?xs @ drop (Suc p) ?xs"
  proof (rule intset_vals_eqI)
    fix i assume "i < length (take p ?xs @ drop (Suc p) ?xs)"
    then have i: "i < ?n - 1" using p(2) by simp
    have "slot ?w (take ((?n - 1) * ?w) m) i = slot ?w m i"
      using mult_slot_le [OF i, of ?w] by (rule slot_take)
    also have "\<dots> = (take p ?xs @ drop (Suc p) ?xs) ! i"
      using m(3,4) [of i] i p(2) by (auto simp: nth_append min_def)
    finally show "slot (encoding ?s') (contents ?s') i = (take p ?xs @ drop (Suc p) ?xs) ! i"
      by simp
  qed (use p(2) in simp)
  moreover have "intset_shape ?s'"
    using ok small min_absorb2 [OF le] m(2) by (simp add: intset_shape_def del: One_nat_def)
  ultimately show ?thesis
    using sorted_remove_nth [OF sorted, of p] p True by (simp add: intset_wf_def)
qed

lemma intsetFind_ok:
  assumes wf: "intset_wf s"
  shows "intsetFind s v = Some (v \<in> set (intset_vals s))"
  using intsetSearch_ok [OF wf, of v] wider_value_extreme [of s v v] wf
  by (cases "intsetValueEncoding v \<le> encoding s") (auto simp: intsetFind_def intset_wf_def split: if_splits)

lemma intset_wf_new: "intset_wf intsetNew" "intset_vals intsetNew = []"
  by (simp_all add: intset_wf_def intset_shape_def intsetNew_def intset_vals_def enc_ok_def enc_defs)

section \<open>Integrity check of a payload\<close>

lemma intsetValidate_loop_ok:
  assumes "intset_shape s" "i \<le> is_length s"
  shows "intsetValidate_loop s i prev = Some (sorted_wrt (<) (prev # drop i (intset_vals s)))"
  using assms
proof (induction s i prev rule: intsetValidate_loop.induct)
  case (1 s i prev)
  show ?case
  proof (cases "i < is_length s")
    case True
    let ?c = "intset_vals s ! i"
    have get: "intsetGet' s (int i) = Some ?c" using intsetGet'_ok [OF "1.prems"(1) True] .
    have drop: "drop i (intset_vals s) = ?c # drop (i + 1) (intset_vals s)"
      using True Cons_nth_drop_Suc [of i "intset_vals s"] by simp
    show ?thesis
    proof (cases "?c \<le> prev")
      case True
      then show ?thesis
        using \<open>i < is_length s\<close> get drop by (subst intsetValidate_loop.simps) simp
    next
      case False
      then show ?thesis
        using \<open>i < is_length s\<close> get drop "1.IH" [OF _ get] "1.prems"
        by (subst intsetValidate_loop.simps) (auto simp del: intset_vals_nth)
    qed
  next
    case False
    then show ?thesis using "1.prems" by (subst intsetValidate_loop.simps) simp
  qed
qed

lemma intsetValidateIntegrity_ok:
  assumes "sz = sizeof_intset + length (contents s)" "length (contents s) < 2 ^ 32"
  shows "intsetValidateIntegrity s sz True = Some (intset_wf s \<and> is_length s \<noteq> 0)"
proof (cases "enc_ok (encoding s) \<and> length (contents s) = is_length s * encoding s \<and> is_length s \<noteq> 0")
  case True
  then have shape: "intset_shape s" using assms by (simp add: intset_shape_def)
  have get: "intsetGet' s 0 = Some (intset_vals s ! 0)"
    using intsetGet'_ok [OF shape, of 0] True by simp
  have "intset_vals s ! 0 # drop 1 (intset_vals s) = intset_vals s"
    using True Cons_nth_drop_Suc [of 0 "intset_vals s"] by simp
  moreover have "1 \<le> is_length s" using True by simp
  ultimately have "intsetValidate_loop s 1 (intset_vals s ! 0) = Some (sorted_wrt (<) (intset_vals s))"
    using intsetValidate_loop_ok [OF shape, of 1 "intset_vals s ! 0"] by (simp only:)
  then show ?thesis
    using True shape assms get enc_width_id [of "encoding s"]
    by (auto simp: intsetValidateIntegrity_def enc_ok_def Let_def intset_wf_def)
next
  case False
  then have "\<not> (intset_wf s \<and> is_length s \<noteq> 0)"
    by (auto simp: intset_wf_def intset_shape_def)
  moreover have "intsetValidateIntegrity s sz True = Some False"
    using False assms enc_width_id [of "encoding s"]
    by (auto simp: intsetValidateIntegrity_def enc_ok_def Let_def)
  ultimately show ?thesis by simp
qed

section \<open>The set interface\<close>

definition intset_cap :: nat where
  "intset_cap = 2 ^ 29 - 1"

lemma card_intset_vals: "intset_wf s \<Longrightarrow> card (set (intset_vals s)) = is_length s"
  by (simp add: intset_wf_def distinct_card strict_sorted_iff)

interpretation intset: int_set intset_wf "\<lambda>s. set (intset_vals s)" intset_cap intsetNew
  "intsetAdd junk" "intsetRemove junk" intsetFind intsetLen for junk
proof unfold_locales
  fix s v
  assume "intset_wf s" "int64 v" "card (set (intset_vals s)) < intset_cap"
  then show "\<exists>s'. intsetAdd junk s v = Some (s', v \<notin> set (intset_vals s)) \<and> intset_wf s' \<and>
      set (intset_vals s') = insert v (set (intset_vals s))"
    by (intro intsetAdd_ok) (simp_all add: card_intset_vals intset_room_def intset_cap_def)
qed (simp_all add: intset_wf_new card_intset_vals intsetLen_def intsetRemove_ok intsetFind_ok)

section \<open>Properties\<close>

text \<open>
  C8. Starting from \<open>intsetNew\<close>, any sequence of insertions, removals and lookups of 64-bit values
  whose number stays below the capacity runs without an out-of-bounds access and without a failed
  assertion, whatever the bytes \<open>zrealloc\<close> leaves uninitialised; it keeps the sorted-array invariant
  and gives the replies and the final elements of the same calls on a mathematical set.
\<close>

theorem intset_run_refines_set:
  assumes "\<forall>oper \<in> set ops. int64 (iset_op_arg oper)" "length ops \<le> intset_cap"
  shows "\<exists>s. iset_run (intsetAdd junk) (intsetRemove junk) intsetFind intsetNew ops =
      Some (s, snd (iset_spec {} ops)) \<and>
    intset_wf s \<and> set (intset_vals s) = fst (iset_spec {} ops)"
  using intset.run_refines [of intsetNew ops junk] assms by (simp add: intset_wf_new)

theorem intset_run_refines_set_witness:
  "\<exists>s. iset_run (intsetAdd (\<lambda>_. 7)) (intsetRemove (\<lambda>_. 7)) intsetFind intsetNew
      [IAdd 5, IAdd 70000, IAdd (-5000000000), IRemove 5, IFind 70000] =
      Some (s, [True, True, True, True, True]) \<and>
    intset_wf s \<and> set (intset_vals s) = {70000, -5000000000}"
proof -
  have "\<forall>oper \<in> set [IAdd 5, IAdd 70000, IAdd (-5000000000), IRemove 5, IFind 70000].
      int64 (iset_op_arg oper)"
    by (simp add: int64_def)
  then show ?thesis
    using intset_run_refines_set
      [of "[IAdd 5, IAdd 70000, IAdd (-5000000000), IRemove 5, IFind 70000]" "\<lambda>_. 7"]
    by (simp add: intset_cap_def insert_Diff_if insert_commute)
qed

text \<open>
  C29. Upgrading the encoding rewrites the array in place, from the last element to the first,
  without losing a value: a value that needs a wider encoding ends up before all old elements when it
  is negative and after them otherwise, and the old elements keep their values and their order.
\<close>

theorem intsetUpgradeAndAdd_keeps_elements:
  assumes "intset_wf s" "intset_room s" "int64 v" "intsetValueEncoding v > encoding s"
  shows "\<exists>s'. intsetUpgradeAndAdd junk s v = Some s' \<and> intset_wf s' \<and>
    encoding s' = intsetValueEncoding v \<and>
    intset_vals s' = (if v < 0 then v # intset_vals s else intset_vals s @ [v])"
  using intsetUpgradeAndAdd_ok [OF assms] by blast

theorem intsetUpgradeAndAdd_keeps_elements_witness:
  "\<exists>s'. intsetUpgradeAndAdd (\<lambda>_. 255)
      \<lparr>encoding = 2, is_length = 2, contents = [254, 255, 3, 0]\<rparr> (-70000) = Some s' \<and>
    intset_wf s' \<and> encoding s' = 4 \<and> intset_vals s' = [-70000, -2, 3]"
proof -
  let ?s = "\<lparr>encoding = 2, is_length = 2, contents = [254, 255, 3, 0]\<rparr>"
  have vals: "intset_vals ?s = [-2, 3]"
    by (simp add: intset_vals_def slot_def le_sdec_def upt_rec)
  then have "intset_wf ?s"
    by (simp add: intset_wf_def intset_shape_def enc_ok_def enc_defs)
  then show ?thesis
    using intsetUpgradeAndAdd_keeps_elements [of ?s "-70000" "\<lambda>_. 255"] vals
    by (simp add: intset_room_def int64_def intsetValueEncoding_def enc_defs)
qed

text \<open>
  C22. The deep integrity check, run on a payload of any header and any content, never reads outside
  the payload and accepts it exactly when it is a well-formed, non-empty set.
\<close>

theorem intsetValidateIntegrity_exact:
  assumes "sz = sizeof_intset + length (contents s)" "length (contents s) < 2 ^ 32"
  shows "intsetValidateIntegrity s sz True = Some (intset_wf s \<and> is_length s \<noteq> 0)"
  using intsetValidateIntegrity_ok [OF assms] .

theorem intsetValidateIntegrity_exact_witness:
  "intsetValidateIntegrity \<lparr>encoding = 2, is_length = 2, contents = [3, 0, 3, 0]\<rparr> 12 True = Some False"
proof -
  let ?s = "\<lparr>encoding = 2, is_length = 2, contents = [3, 0, 3, 0]\<rparr>"
  have "intset_vals ?s = [3, 3]"
    by (simp add: intset_vals_def slot_def le_sdec_def upt_rec)
  then have "\<not> intset_wf ?s" by (simp add: intset_wf_def)
  then show ?thesis
    using intsetValidateIntegrity_exact [of 12 ?s] by (simp add: sizeof_intset_def)
qed

end
