(* ===== verification/Dict.thy ===== *)
theory Dict
  imports Interfaces
begin

text \<open>
  The hash table of \<^verbatim>\<open>redis/src/dict.c\<close> with its incremental rehashing between two tables. A table
  is a list of buckets and a bucket is the list of its chained entries, head first; the \<open>NULL\<close> table
  is the empty list. Bucket accesses are checked, so \<open>None\<close> is an index outside the table or a failed
  assertion. The user's callbacks (\<open>dictType\<close>) are parameters. \<open>unsigned long\<close> counters are naturals;
  sizes are reduced modulo \<open>2 ^ 64\<close> where the code tests for overflow. A pointer to an entry is its place:
  table, bucket and position in the chain.
\<close>

section \<open>Data\<close>

record ('k, 'v) dictType =
  hashFunction :: "'k \<Rightarrow> 64 word"
  keyDup :: "('k \<Rightarrow> 'k) option"
  valDup :: "('v \<Rightarrow> 'v) option"
  keyCompare :: "('k \<Rightarrow> 'k \<Rightarrow> bool) option"
  expandAllowed :: "(nat \<Rightarrow> nat \<times> nat \<Rightarrow> bool) option"

record ('k, 'v) dictEntry =
  de_key :: 'k
  de_val :: 'v

type_synonym ('k, 'v) bucket = "('k, 'v) dictEntry list"

record ('k, 'v) dict =
  ht_table :: "nat \<Rightarrow> ('k, 'v) bucket list"
  ht_used :: "nat \<Rightarrow> nat"
  rehashidx :: int
  pauserehash :: int
  ht_size_exp :: "nat \<Rightarrow> int"

type_synonym entry_ref = "nat \<times> nat \<times> nat"

definition DICTHT_SIZE :: "int \<Rightarrow> nat" where
  "DICTHT_SIZE e = (if e = -1 then 0 else 2 ^ nat e)"

definition DICTHT_SIZE_MASK :: "int \<Rightarrow> 64 word" where
  "DICTHT_SIZE_MASK e = (if e = -1 then 0 else of_nat (DICTHT_SIZE e) - 1)"

definition DICT_HT_INITIAL_EXP :: nat where "DICT_HT_INITIAL_EXP = 2"

definition DICT_HT_INITIAL_SIZE :: nat where "DICT_HT_INITIAL_SIZE = 2 ^ DICT_HT_INITIAL_EXP"

definition sizeof_ptr :: nat where "sizeof_ptr = 8"

definition dictSize :: "('k, 'v) dict \<Rightarrow> nat" where
  "dictSize d = ht_used d 0 + ht_used d 1"

definition dictSlots :: "('k, 'v) dict \<Rightarrow> nat" where
  "dictSlots d = DICTHT_SIZE (ht_size_exp d 0) + DICTHT_SIZE (ht_size_exp d 1)"

definition dictIsRehashing :: "('k, 'v) dict \<Rightarrow> bool" where
  "dictIsRehashing d \<longleftrightarrow> rehashidx d \<noteq> -1"

definition dictPauseRehashing :: "('k, 'v) dict \<Rightarrow> ('k, 'v) dict" where
  "dictPauseRehashing d = d\<lparr>pauserehash := pauserehash d + 1\<rparr>"

definition dictResumeRehashing :: "('k, 'v) dict \<Rightarrow> ('k, 'v) dict" where
  "dictResumeRehashing d = d\<lparr>pauserehash := pauserehash d - 1\<rparr>"

text \<open>\<open>key == he->key || dictCompareKeys(d, key, he->key)\<close>, the test of every lookup.\<close>

definition same_key :: "('k, 'v) dictType \<Rightarrow> 'k \<Rightarrow> 'k \<Rightarrow> bool" where
  "same_key t k1 k2 \<longleftrightarrow>
     k1 = k2 \<or> (case keyCompare t of Some cmp \<Rightarrow> cmp k1 k2 | None \<Rightarrow> k1 = k2)"

definition dictSetKey :: "('k, 'v) dictType \<Rightarrow> 'k \<Rightarrow> 'k" where
  "dictSetKey t k = (case keyDup t of Some f \<Rightarrow> f k | None \<Rightarrow> k)"

definition dictSetVal :: "('k, 'v) dictType \<Rightarrow> 'v \<Rightarrow> 'v" where
  "dictSetVal t v = (case valDup t of Some f \<Rightarrow> f v | None \<Rightarrow> v)"

text \<open>The bucket a key belongs to in a table of the given size exponent.\<close>

definition bucket_index :: "('k, 'v) dictType \<Rightarrow> int \<Rightarrow> 'k \<Rightarrow> nat" where
  "bucket_index t e k = unat (hashFunction t k AND DICTHT_SIZE_MASK e)"

definition get_bucket :: "('k, 'v) dict \<Rightarrow> nat \<Rightarrow> nat \<Rightarrow> ('k, 'v) bucket option" where
  "get_bucket d htidx i =
     (if i < length (ht_table d htidx) then Some (ht_table d htidx ! i) else None)"

definition set_bucket :: "('k, 'v) dict \<Rightarrow> nat \<Rightarrow> nat \<Rightarrow> ('k, 'v) bucket \<Rightarrow> ('k, 'v) dict option" where
  "set_bucket d htidx i b =
     (if i < length (ht_table d htidx)
      then Some (d\<lparr>ht_table := (ht_table d)(htidx := (ht_table d htidx)[i := b])\<rparr>) else None)"

section \<open>Creation and resizing\<close>

definition dictReset :: "('k, 'v) dict \<Rightarrow> nat \<Rightarrow> ('k, 'v) dict" where
  "dictReset d htidx =
     d\<lparr>ht_table := (ht_table d)(htidx := []),
       ht_size_exp := (ht_size_exp d)(htidx := -1),
       ht_used := (ht_used d)(htidx := 0)\<rparr>"

text \<open>\<open>dictCreate\<close> and \<open>_dictInit\<close>: the freshly allocated structure \<open>d\<close> has arbitrary fields.\<close>

definition dictInit :: "('k, 'v) dict \<Rightarrow> ('k, 'v) dict" where
  "dictInit d = (dictReset (dictReset d 0) 1)\<lparr>rehashidx := -1, pauserehash := 0\<rparr>"

function dictNextExp_loop :: "nat \<Rightarrow> nat \<Rightarrow> nat" where
  "dictNextExp_loop sz e = (if 2 ^ e \<ge> sz then e else dictNextExp_loop sz (e + 1))"
  by pat_completeness auto
termination
proof (relation "measure (\<lambda>(sz, e). sz - e)")
  fix sz e :: nat
  assume "\<not> sz \<le> 2 ^ e"
  then have "e < sz" using less_exp [of e] by (meson less_trans not_le)
  then show "((sz, e + 1), sz, e) \<in> measure (\<lambda>(sz, e). sz - e)" by simp
qed simp

definition LONG_MAX :: nat where "LONG_MAX = 2 ^ 63 - 1"

definition dictNextExp :: "nat \<Rightarrow> int" where
  "dictNextExp sz =
     (if sz \<ge> LONG_MAX then 8 * 8 - 1 else int (dictNextExp_loop sz DICT_HT_INITIAL_EXP))"

datatype dict_status = DICT_OK | DICT_ERR

text \<open>
  \<open>_dictExpand\<close>: \<open>try\<close> says that \<open>malloc_failed\<close> is not \<open>NULL\<close>, \<open>fails\<close> that \<open>ztrycalloc\<close> returns
  \<open>NULL\<close> (\<open>zcalloc\<close> does not return then). The third component is \<open>*malloc_failed\<close>.
\<close>

definition dictExpand' ::
    "bool \<Rightarrow> bool \<Rightarrow> ('k, 'v) dict \<Rightarrow> nat \<Rightarrow> ('k, 'v) dict \<times> dict_status \<times> bool" where
  "dictExpand' try fails d sz =
     (if dictIsRehashing d \<or> ht_used d 0 > sz then (d, DICT_ERR, False)
      else
        let new_exp = dictNextExp sz;
            newsize = 2 ^ nat new_exp
        in if newsize < sz \<or> newsize * sizeof_ptr mod 2 ^ 64 < newsize then (d, DICT_ERR, False)
        else if new_exp = ht_size_exp d 0 then (d, DICT_ERR, False)
        else if try \<and> fails then (d, DICT_ERR, True)
        else
          let new_table = replicate newsize [] in
          if ht_table d 0 = [] then
            (d\<lparr>ht_size_exp := (ht_size_exp d)(0 := new_exp), ht_used := (ht_used d)(0 := 0),
               ht_table := (ht_table d)(0 := new_table)\<rparr>, DICT_OK, False)
          else
            (d\<lparr>ht_size_exp := (ht_size_exp d)(1 := new_exp), ht_used := (ht_used d)(1 := 0),
               ht_table := (ht_table d)(1 := new_table), rehashidx := 0\<rparr>, DICT_OK, False))"

definition dictExpand :: "('k, 'v) dict \<Rightarrow> nat \<Rightarrow> ('k, 'v) dict \<times> dict_status" where
  "dictExpand d sz = (let (d', r, _) = dictExpand' False False d sz in (d', r))"

definition dictTryExpand :: "bool \<Rightarrow> ('k, 'v) dict \<Rightarrow> nat \<Rightarrow> ('k, 'v) dict \<times> dict_status" where
  "dictTryExpand fails d sz =
     (let (d', _, malloc_failed) = dictExpand' True fails d sz
      in (d', if malloc_failed then DICT_ERR else DICT_OK))"

definition dictResize :: "bool \<Rightarrow> ('k, 'v) dict \<Rightarrow> ('k, 'v) dict \<times> dict_status" where
  "dictResize dict_can_resize d =
     (if \<not> dict_can_resize \<or> dictIsRehashing d then (d, DICT_ERR)
      else
        let minimal = ht_used d 0;
            minimal = (if minimal < DICT_HT_INITIAL_SIZE then DICT_HT_INITIAL_SIZE else minimal)
        in dictExpand d minimal)"

section \<open>Incremental rehashing\<close>

text \<open>
  The inner \<open>while(d->ht_table[0][d->rehashidx] == NULL)\<close>; the flag says that it returned from the
  function because \<open>empty_visits\<close> ran out.
\<close>

function dictRehash_skip :: "('k, 'v) dict \<Rightarrow> int \<Rightarrow> (('k, 'v) dict \<times> int \<times> bool) option" where
  "dictRehash_skip d empty_visits =
     (if rehashidx d < 0 then None
      else case get_bucket d 0 (nat (rehashidx d)) of
        None \<Rightarrow> None
      | Some [] \<Rightarrow>
          let d = d\<lparr>rehashidx := rehashidx d + 1\<rparr>; empty_visits = empty_visits - 1
          in if empty_visits = 0 then Some (d, empty_visits, True)
             else dictRehash_skip d empty_visits
      | Some (de # b) \<Rightarrow> Some (d, empty_visits, False))"
  by pat_completeness auto
termination
  by (relation "measure (\<lambda>(d, ev). length (ht_table d 0) - nat (rehashidx d))")
    (auto simp: get_bucket_def split: if_splits)

fun dictRehash_move :: "('k, 'v) dictType \<Rightarrow> ('k, 'v) dict \<Rightarrow> ('k, 'v) bucket \<Rightarrow> ('k, 'v) dict option" where
  "dictRehash_move t d [] = Some d"
| "dictRehash_move t d (de # nextde) =
     (let h = bucket_index t (ht_size_exp d 1) (de_key de) in do {
        b \<leftarrow> get_bucket d 1 h;
        d1 \<leftarrow> set_bucket d 1 h (de # b);
        dictRehash_move t
          (d1\<lparr>ht_used := (ht_used d1)(0 := ht_used d1 0 - 1, 1 := ht_used d1 1 + 1)\<rparr>) nextde
      })"

text \<open>The outer loop; the flag says that the function returned 1 from inside it.\<close>

fun dictRehash_loop ::
    "('k, 'v) dictType \<Rightarrow> ('k, 'v) dict \<Rightarrow> int \<Rightarrow> nat \<Rightarrow> (('k, 'v) dict \<times> bool) option" where
  "dictRehash_loop t d empty_visits 0 = Some (d, False)"
| "dictRehash_loop t d empty_visits (Suc n) =
     (if ht_used d 0 = 0 then Some (d, False)
      else if \<not> int (DICTHT_SIZE (ht_size_exp d 0)) > rehashidx d then None
      else do {
        (d1, empty_visits, returned) \<leftarrow> dictRehash_skip d empty_visits;
        if returned then Some (d1, True)
        else do {
          de \<leftarrow> get_bucket d1 0 (nat (rehashidx d1));
          d2 \<leftarrow> dictRehash_move t d1 de;
          d3 \<leftarrow> set_bucket d2 0 (nat (rehashidx d2)) [];
          dictRehash_loop t (d3\<lparr>rehashidx := rehashidx d3 + 1\<rparr>) empty_visits n
        }
      })"

definition dictRehash :: "('k, 'v) dictType \<Rightarrow> ('k, 'v) dict \<Rightarrow> nat \<Rightarrow> (('k, 'v) dict \<times> bool) option" where
  "dictRehash t d n =
     (if \<not> dictIsRehashing d then Some (d, False)
      else do {
        (d1, returned) \<leftarrow> dictRehash_loop t d (int n * 10) n;
        if returned then Some (d1, True)
        else if ht_used d1 0 = 0 then
          Some ((dictReset (d1\<lparr>ht_table := (ht_table d1)(0 := ht_table d1 1),
                  ht_used := (ht_used d1)(0 := ht_used d1 1),
                  ht_size_exp := (ht_size_exp d1)(0 := ht_size_exp d1 1)\<rparr>) 1)
                  \<lparr>rehashidx := -1\<rparr>, False)
        else Some (d1, True)
      })"

definition dictRehashStep :: "('k, 'v) dictType \<Rightarrow> ('k, 'v) dict \<Rightarrow> ('k, 'v) dict option" where
  "dictRehashStep t d =
     (if pauserehash d = 0 then do { (d', _) \<leftarrow> dictRehash t d 1; Some d' } else Some d)"

text \<open>
  \<open>dictRehashMilliseconds\<close>: \<open>clock\<close> lists the elapsed milliseconds the successive calls of
  \<open>timeInMilliseconds()-start\<close> give; \<open>None\<close> when a run takes more readings than listed.
\<close>

fun dictRehashMilliseconds_loop ::
    "('k, 'v) dictType \<Rightarrow> ('k, 'v) dict \<Rightarrow> int \<Rightarrow> int list \<Rightarrow> int \<Rightarrow> (('k, 'v) dict \<times> int) option" where
  "dictRehashMilliseconds_loop t d ms clock rehashes = do {
     (d', more) \<leftarrow> dictRehash t d 100;
     if \<not> more then Some (d', rehashes)
     else (case clock of
       [] \<Rightarrow> None
     | e # clock' \<Rightarrow>
         if e > ms then Some (d', rehashes + 100)
         else dictRehashMilliseconds_loop t d' ms clock' (rehashes + 100))
   }"

definition dictRehashMilliseconds ::
    "('k, 'v) dictType \<Rightarrow> ('k, 'v) dict \<Rightarrow> int \<Rightarrow> int list \<Rightarrow> (('k, 'v) dict \<times> int) option" where
  "dictRehashMilliseconds t d ms clock =
     (if pauserehash d > 0 then Some (d, 0) else dictRehashMilliseconds_loop t d ms clock 0)"

section \<open>Lookup, insertion, removal\<close>

definition dictTypeExpandAllowed :: "('k, 'v) dictType \<Rightarrow> ('k, 'v) dict \<Rightarrow> bool" where
  "dictTypeExpandAllowed t d =
     (case expandAllowed t of None \<Rightarrow> True
      | Some f \<Rightarrow> f (DICTHT_SIZE (dictNextExp (ht_used d 0 + 1)) * sizeof_ptr mod 2 ^ 64)
                   (ht_used d 0, DICTHT_SIZE (ht_size_exp d 0)))"

definition dict_force_resize_ratio :: nat where "dict_force_resize_ratio = 5"

definition dictExpandIfNeeded ::
    "('k, 'v) dictType \<Rightarrow> bool \<Rightarrow> ('k, 'v) dict \<Rightarrow> ('k, 'v) dict \<times> dict_status" where
  "dictExpandIfNeeded t dict_can_resize d =
     (if dictIsRehashing d then (d, DICT_OK)
      else if DICTHT_SIZE (ht_size_exp d 0) = 0 then dictExpand d DICT_HT_INITIAL_SIZE
      else if ht_used d 0 \<ge> DICTHT_SIZE (ht_size_exp d 0) \<and>
              (dict_can_resize \<or>
               ht_used d 0 div DICTHT_SIZE (ht_size_exp d 0) > dict_force_resize_ratio) \<and>
              dictTypeExpandAllowed t d
           then dictExpand d (ht_used d 0 + 1)
      else (d, DICT_OK))"

text \<open>The position of the first entry of a chain that has the key, as the \<open>while(he)\<close> loops find it.\<close>

fun chain_find :: "('k, 'v) dictType \<Rightarrow> 'k \<Rightarrow> ('k, 'v) bucket \<Rightarrow> nat option" where
  "chain_find t key [] = None"
| "chain_find t key (he # b) =
     (if same_key t key (de_key he) then Some 0 else map_option Suc (chain_find t key b))"

text \<open>
  The \<open>for (table = 0; table <= 1; table++)\<close> search that \<open>_dictKeyIndex\<close>, \<open>dictFind\<close> and
  \<open>dictGenericDelete\<close> share: the place of the entry, or the last bucket index looked at.
\<close>

fun table_search :: "('k, 'v) dictType \<Rightarrow> ('k, 'v) dict \<Rightarrow> 'k \<Rightarrow> nat list \<Rightarrow> nat \<Rightarrow>
    (nat + entry_ref) option" where
  "table_search t d key [] idx = Some (Inl idx)"
| "table_search t d key (table # tables) idx =
     (let idx = bucket_index t (ht_size_exp d table) key in do {
        b \<leftarrow> get_bucket d table idx;
        (case chain_find t key b of
           Some p \<Rightarrow> Some (Inr (table, idx, p))
         | None \<Rightarrow>
             if \<not> dictIsRehashing d then Some (Inl idx)
             else table_search t d key tables idx)
      })"

text \<open>\<open>Inl None\<close>: no index because the expansion failed; \<open>Inr\<close>: the existing entry.\<close>

definition dictKeyIndex :: "('k, 'v) dictType \<Rightarrow> bool \<Rightarrow> ('k, 'v) dict \<Rightarrow> 'k \<Rightarrow>
    (('k, 'v) dict \<times> (nat option + entry_ref)) option" where
  "dictKeyIndex t dict_can_resize d key =
     (case dictExpandIfNeeded t dict_can_resize d of
        (d1, DICT_ERR) \<Rightarrow> Some (d1, Inl None)
      | (d1, DICT_OK) \<Rightarrow> do {
          r \<leftarrow> table_search t d1 key [0, 1] 0;
          (case r of Inl idx \<Rightarrow> Some (d1, Inl (Some idx)) | Inr ref \<Rightarrow> Some (d1, Inr ref))
        })"

datatype add_result = Added entry_ref | Existing entry_ref | Refused

text \<open>\<open>junk\<close> is what the value field of the freshly allocated entry holds.\<close>

definition dictAddRaw :: "('k, 'v) dictType \<Rightarrow> bool \<Rightarrow> 'v \<Rightarrow> ('k, 'v) dict \<Rightarrow> 'k \<Rightarrow>
    (('k, 'v) dict \<times> add_result) option" where
  "dictAddRaw t dict_can_resize junk d key = do {
     d1 \<leftarrow> (if dictIsRehashing d then dictRehashStep t d else Some d);
     (d2, r) \<leftarrow> dictKeyIndex t dict_can_resize d1 key;
     (case r of
        Inr ref \<Rightarrow> Some (d2, Existing ref)
      | Inl None \<Rightarrow> Some (d2, Refused)
      | Inl (Some index) \<Rightarrow>
          (let htidx = (if dictIsRehashing d2 then 1 else 0) in do {
             b \<leftarrow> get_bucket d2 htidx index;
             d3 \<leftarrow> set_bucket d2 htidx index (\<lparr>de_key = dictSetKey t key, de_val = junk\<rparr> # b);
             Some (d3\<lparr>ht_used := (ht_used d3)(htidx := ht_used d3 htidx + 1)\<rparr>,
                   Added (htidx, index, 0))
           }))
   }"

definition get_entry :: "('k, 'v) dict \<Rightarrow> entry_ref \<Rightarrow> ('k, 'v) dictEntry option" where
  "get_entry d ref = (case ref of (h, i, p) \<Rightarrow> do {
     b \<leftarrow> get_bucket d h i; if p < length b then Some (b ! p) else None })"

text \<open>\<open>dictSetVal(d, entry, val)\<close> through a pointer to the entry.\<close>

definition set_entry_val :: "('k, 'v) dictType \<Rightarrow> ('k, 'v) dict \<Rightarrow> entry_ref \<Rightarrow> 'v \<Rightarrow>
    ('k, 'v) dict option" where
  "set_entry_val t d ref v = (case ref of (h, i, p) \<Rightarrow> do {
     b \<leftarrow> get_bucket d h i;
     if p < length b then set_bucket d h i (b[p := (b ! p)\<lparr>de_val := dictSetVal t v\<rparr>]) else None })"

definition dictAdd :: "('k, 'v) dictType \<Rightarrow> bool \<Rightarrow> 'v \<Rightarrow> ('k, 'v) dict \<Rightarrow> 'k \<Rightarrow> 'v \<Rightarrow>
    (('k, 'v) dict \<times> dict_status) option" where
  "dictAdd t dict_can_resize junk d key v = do {
     (d1, r) \<leftarrow> dictAddRaw t dict_can_resize junk d key;
     (case r of
        Added ref \<Rightarrow> do { d2 \<leftarrow> set_entry_val t d1 ref v; Some (d2, DICT_OK) }
      | _ \<Rightarrow> Some (d1, DICT_ERR))
   }"

text \<open>
  \<open>dictReplace\<close> returns whether the key was added; \<open>existing\<close> is dereferenced when it was not, which
  faults if the addition was refused. The last component is the value given to \<open>dictFreeVal\<close>.
\<close>

definition dictReplace :: "('k, 'v) dictType \<Rightarrow> bool \<Rightarrow> 'v \<Rightarrow> ('k, 'v) dict \<Rightarrow> 'k \<Rightarrow> 'v \<Rightarrow>
    (('k, 'v) dict \<times> bool \<times> 'v option) option" where
  "dictReplace t dict_can_resize junk d key v = do {
     (d1, r) \<leftarrow> dictAddRaw t dict_can_resize junk d key;
     (case r of
        Added ref \<Rightarrow> do { d2 \<leftarrow> set_entry_val t d1 ref v; Some (d2, True, None) }
      | Existing ref \<Rightarrow> do {
          auxentry \<leftarrow> get_entry d1 ref;
          d2 \<leftarrow> set_entry_val t d1 ref v;
          Some (d2, False, Some (de_val auxentry)) }
      | Refused \<Rightarrow> None)
   }"

definition dictAddOrFind :: "('k, 'v) dictType \<Rightarrow> bool \<Rightarrow> 'v \<Rightarrow> ('k, 'v) dict \<Rightarrow> 'k \<Rightarrow>
    (('k, 'v) dict \<times> entry_ref option) option" where
  "dictAddOrFind t dict_can_resize junk d key = do {
     (d1, r) \<leftarrow> dictAddRaw t dict_can_resize junk d key;
     Some (d1, case r of Added ref \<Rightarrow> Some ref | Existing ref \<Rightarrow> Some ref | Refused \<Rightarrow> None)
   }"

text \<open>The unlinked entry is returned; \<open>dictDelete\<close> frees it.\<close>

definition dictGenericDelete :: "('k, 'v) dictType \<Rightarrow> ('k, 'v) dict \<Rightarrow> 'k \<Rightarrow>
    (('k, 'v) dict \<times> ('k, 'v) dictEntry option) option" where
  "dictGenericDelete t d key =
     (if dictSize d = 0 then Some (d, None)
      else do {
        d1 \<leftarrow> (if dictIsRehashing d then dictRehashStep t d else Some d);
        r \<leftarrow> table_search t d1 key [0, 1] 0;
        (case r of
           Inl _ \<Rightarrow> Some (d1, None)
         | Inr (table, idx, p) \<Rightarrow> do {
             b \<leftarrow> get_bucket d1 table idx;
             d2 \<leftarrow> set_bucket d1 table idx (take p b @ drop (Suc p) b);
             Some (d2\<lparr>ht_used := (ht_used d2)(table := ht_used d2 table - 1)\<rparr>, Some (b ! p))
           })
      })"

definition dictDelete :: "('k, 'v) dictType \<Rightarrow> ('k, 'v) dict \<Rightarrow> 'k \<Rightarrow>
    (('k, 'v) dict \<times> dict_status) option" where
  "dictDelete t d key = do {
     (d', he) \<leftarrow> dictGenericDelete t d key;
     Some (d', case he of Some _ \<Rightarrow> DICT_OK | None \<Rightarrow> DICT_ERR)
   }"

definition dictUnlink :: "('k, 'v) dictType \<Rightarrow> ('k, 'v) dict \<Rightarrow> 'k \<Rightarrow>
    (('k, 'v) dict \<times> ('k, 'v) dictEntry option) option" where
  "dictUnlink t d key = dictGenericDelete t d key"

definition dictFind :: "('k, 'v) dictType \<Rightarrow> ('k, 'v) dict \<Rightarrow> 'k \<Rightarrow>
    (('k, 'v) dict \<times> entry_ref option) option" where
  "dictFind t d key =
     (if dictSize d = 0 then Some (d, None)
      else do {
        d1 \<leftarrow> (if dictIsRehashing d then dictRehashStep t d else Some d);
        r \<leftarrow> table_search t d1 key [0, 1] 0;
        Some (d1, case r of Inl _ \<Rightarrow> None | Inr ref \<Rightarrow> Some ref)
      })"

definition dictFetchValue :: "('k, 'v) dictType \<Rightarrow> ('k, 'v) dict \<Rightarrow> 'k \<Rightarrow>
    (('k, 'v) dict \<times> 'v option) option" where
  "dictFetchValue t d key = do {
     (d1, he) \<leftarrow> dictFind t d key;
     (case he of
        None \<Rightarrow> Some (d1, None)
      | Some ref \<Rightarrow> do { e \<leftarrow> get_entry d1 ref; Some (d1, Some (de_val e)) })
   }"

text \<open>
  \<open>_dictClear\<close>: the loop over the buckets while entries are left, with the entries it frees in order.
\<close>

fun dictClear_loop :: "('k, 'v) bucket list \<Rightarrow> nat \<Rightarrow> ('k, 'v) bucket" where
  "dictClear_loop [] used = []"
| "dictClear_loop (b # bs) used =
     (if used > 0 then b @ dictClear_loop bs (used - length b) else [])"

definition dictClear :: "('k, 'v) dict \<Rightarrow> nat \<Rightarrow> ('k, 'v) dict \<times> ('k, 'v) bucket" where
  "dictClear d htidx =
     (dictReset d htidx,
      dictClear_loop (take (DICTHT_SIZE (ht_size_exp d htidx)) (ht_table d htidx)) (ht_used d htidx))"

definition dictEmpty :: "('k, 'v) dict \<Rightarrow> ('k, 'v) dict \<times> ('k, 'v) bucket" where
  "dictEmpty d =
     (let (d1, f0) = dictClear d 0; (d2, f1) = dictClear d1 1
      in (d2\<lparr>rehashidx := -1, pauserehash := 0\<rparr>, f0 @ f1))"

declare dictNextExp_loop.simps [simp del] dictRehash_skip.simps [simp del]
  dictRehashMilliseconds_loop.simps [simp del]

section \<open>Invariant and abstraction\<close>

definition entries_of :: "('k, 'v) dict \<Rightarrow> ('k, 'v) dictEntry multiset" where
  "entries_of d = mset (concat (ht_table d 0)) + mset (concat (ht_table d 1))"

text \<open>No two entries have the same key.\<close>

definition unique_keys :: "('k, 'v) dictType \<Rightarrow> ('k, 'v) dictEntry multiset \<Rightarrow> bool" where
  "unique_keys t M \<longleftrightarrow>
     (\<forall>e \<in># M. count M e = 1) \<and>
     (\<forall>e \<in># M. \<forall>f \<in># M. same_key t (de_key e) (de_key f) \<longrightarrow> e = f)"

text \<open>A table has the size its exponent says, its counter is right and every entry is in its bucket.\<close>

definition table_ok :: "('k, 'v) dictType \<Rightarrow> ('k, 'v) dict \<Rightarrow> nat \<Rightarrow> bool" where
  "table_ok t d h \<longleftrightarrow>
     (ht_size_exp d h = -1 \<or> 2 \<le> ht_size_exp d h \<and> ht_size_exp d h \<le> 60) \<and>
     length (ht_table d h) = DICTHT_SIZE (ht_size_exp d h) \<and>
     ht_used d h = length (concat (ht_table d h)) \<and>
     (\<forall>i < length (ht_table d h). \<forall>e \<in> set (ht_table d h ! i).
        bucket_index t (ht_size_exp d h) (de_key e) = i)"

definition rehash_ok :: "('k, 'v) dict \<Rightarrow> bool" where
  "rehash_ok d \<longleftrightarrow>
     (if dictIsRehashing d then
        ht_size_exp d 0 \<noteq> -1 \<and> ht_size_exp d 1 \<noteq> -1 \<and> 0 \<le> rehashidx d \<and>
        rehashidx d \<le> int (length (ht_table d 0)) \<and>
        (\<forall>i < length (ht_table d 0). int i < rehashidx d \<longrightarrow> ht_table d 0 ! i = [])
      else ht_size_exp d 1 = -1)"

definition dict_wf :: "('k, 'v) dictType \<Rightarrow> ('k, 'v) dict \<Rightarrow> bool" where
  "dict_wf t d \<longleftrightarrow> table_ok t d 0 \<and> table_ok t d 1 \<and> rehash_ok d \<and> unique_keys t (entries_of d)"

text \<open>
  What the code relies on in the callbacks: the comparison is an equivalence that the hash function
  respects, and a duplicated key compares equal to the original.
\<close>

definition dict_type_ok :: "('k, 'v) dictType \<Rightarrow> bool" where
  "dict_type_ok t \<longleftrightarrow>
     (\<forall>a b. same_key t a b \<longrightarrow> same_key t b a \<and> hashFunction t a = hashFunction t b) \<and>
     (\<forall>a b c. same_key t a b \<longrightarrow> same_key t b c \<longrightarrow> same_key t a c) \<and>
     (\<forall>k. same_key t k (dictSetKey t k))"

text \<open>The finite map a dictionary stands for.\<close>

definition dict_map :: "('k, 'v) dictType \<Rightarrow> ('k, 'v) dict \<Rightarrow> 'k \<Rightarrow> 'v option" where
  "dict_map t d k =
     map_option de_val (List.find (\<lambda>e. same_key t k (de_key e)) (concat (ht_table d 0) @ concat (ht_table d 1)))"

lemma same_key_refl [simp]: "same_key t k k"
  by (simp add: same_key_def)

lemma dict_type_okD:
  assumes "dict_type_ok t"
  shows "same_key t a b \<Longrightarrow> same_key t b a" "same_key t a b \<Longrightarrow> hashFunction t a = hashFunction t b"
    "same_key t a b \<Longrightarrow> same_key t b c \<Longrightarrow> same_key t a c" "same_key t k (dictSetKey t k)"
  using assms unfolding dict_type_ok_def by blast+

lemma dict_map_Some:
  assumes "dict_type_ok t" "unique_keys t (entries_of d)" "e \<in># entries_of d" "same_key t k (de_key e)"
  shows "dict_map t d k = Some (de_val e)"
proof -
  let ?es = "concat (ht_table d 0) @ concat (ht_table d 1)"
  have mem: "set_mset (entries_of d) = set ?es" by (simp add: entries_of_def)
  then obtain f where f: "List.find (\<lambda>e. same_key t k (de_key e)) ?es = Some f"
    using assms(3,4) by (cases "List.find (\<lambda>e. same_key t k (de_key e)) ?es") (auto simp: find_None_iff)
  then have "f \<in> set ?es" "same_key t k (de_key f)"
    unfolding find_Some_iff by (metis nth_mem)+
  then have "f = e"
    using assms mem dict_type_okD [OF assms(1)] unfolding unique_keys_def by metis
  with f show ?thesis by (simp add: dict_map_def)
qed

lemma dict_map_None:
  assumes "\<And>e. e \<in># entries_of d \<Longrightarrow> \<not> same_key t k (de_key e)"
  shows "dict_map t d k = None"
  using assms by (auto simp: dict_map_def entries_of_def find_None_iff)

lemma dict_map_cases:
  assumes "dict_type_ok t" "unique_keys t (entries_of d)"
  obtains e where "e \<in># entries_of d" "same_key t k (de_key e)" "dict_map t d k = Some (de_val e)"
  | "\<And>e. e \<in># entries_of d \<Longrightarrow> \<not> same_key t k (de_key e)" "dict_map t d k = None"
  using dict_map_Some [OF assms] dict_map_None [of d t k] by metis

text \<open>The map depends on the entries only, not on where they are.\<close>

lemma dict_map_cong:
  assumes "dict_type_ok t" "unique_keys t (entries_of d)" "entries_of d' = entries_of d"
  shows "dict_map t d' = dict_map t d"
proof
  fix k
  show "dict_map t d' k = dict_map t d k"
  proof (rule dict_map_cases [OF assms(1,2), of k])
    fix e
    assume "e \<in># entries_of d" "same_key t k (de_key e)" "dict_map t d k = Some (de_val e)"
    then show ?thesis using dict_map_Some [of t d' e k] assms by simp
  next
    assume "\<And>e. e \<in># entries_of d \<Longrightarrow> \<not> same_key t k (de_key e)" "dict_map t d k = None"
    then show ?thesis using dict_map_None [of d' t k] assms(3) by simp
  qed
qed

section \<open>Buckets\<close>

lemma DICTHT_SIZE_nonneg [simp]: "0 \<le> e \<Longrightarrow> DICTHT_SIZE e = 2 ^ nat e"
  by (simp add: DICTHT_SIZE_def)

lemma mask_as_mask: "0 \<le> e \<Longrightarrow> DICTHT_SIZE_MASK e = mask (nat e)"
  by (simp add: DICTHT_SIZE_MASK_def mask_eq_exp_minus_1)

lemma bucket_index_mod:
  assumes "0 \<le> e" "e \<le> 60"
  shows "bucket_index t e k = unat (hashFunction t k) mod 2 ^ nat e"
proof -
  have "unat (hashFunction t k AND mask (nat e)) = take_bit (nat e) (unat (hashFunction t k))"
    by (simp add: unsigned_take_bit_eq flip: take_bit_eq_mask)
  then show ?thesis
    using assms by (simp add: bucket_index_def mask_as_mask take_bit_eq_mod)
qed

lemma bucket_index_bound:
  assumes "table_ok t d h" "ht_size_exp d h \<noteq> -1"
  shows "bucket_index t (ht_size_exp d h) k < length (ht_table d h)"
  using assms by (auto simp: table_ok_def bucket_index_mod)

lemma same_key_bucket:
  "dict_type_ok t \<Longrightarrow> same_key t k k' \<Longrightarrow> bucket_index t e k = bucket_index t e k'"
  by (simp add: bucket_index_def dict_type_okD(2))

lemma get_bucket_Some: "i < length (ht_table d h) \<Longrightarrow> get_bucket d h i = Some (ht_table d h ! i)"
  by (simp add: get_bucket_def)

lemma set_bucket_Some:
  "i < length (ht_table d h) \<Longrightarrow>
     set_bucket d h i b = Some (d\<lparr>ht_table := (ht_table d)(h := (ht_table d h)[i := b])\<rparr>)"
  by (simp add: set_bucket_def)

text \<open>Replacing one bucket of a correct table, with the counter adjusted.\<close>

lemma table_ok_update:
  assumes "table_ok t d h" "i < length (ht_table d h)"
    "\<forall>e \<in> set b. bucket_index t (ht_size_exp d h) (de_key e) = i"
    "ht_table d' h = (ht_table d h)[i := b]" "ht_size_exp d' h = ht_size_exp d h"
    "ht_used d' h + length (ht_table d h ! i) = ht_used d h + length b"
  shows "table_ok t d' h"
proof -
  have "length (concat ((ht_table d h)[i := b])) + length (ht_table d h ! i) =
      length (concat (ht_table d h)) + length b"
    using arg_cong [OF mset_concat_update [OF assms(2), of b], of size] by simp
  then show ?thesis
    using assms by (auto simp: table_ok_def nth_list_update)
qed

lemma table_ok_cong:
  "table_ok t d h \<Longrightarrow> ht_table d' h = ht_table d h \<Longrightarrow> ht_size_exp d' h = ht_size_exp d h \<Longrightarrow>
     ht_used d' h = ht_used d h \<Longrightarrow> table_ok t d' h"
  by (simp add: table_ok_def)

lemma unique_keys_add:
  assumes "unique_keys t M" "\<And>f. f \<in># M \<Longrightarrow> \<not> same_key t (de_key e) (de_key f)" "dict_type_ok t"
  shows "unique_keys t (add_mset e M)"
proof -
  have "e \<notin># M" using assms(2) [of e] by auto
  then show ?thesis
    using assms dict_type_okD(1) [OF assms(3)] unfolding unique_keys_def
    by (auto simp: not_in_iff)
qed

lemma unique_keys_remove:
  assumes "unique_keys t (add_mset e M)"
  shows "unique_keys t M" "f \<in># M \<Longrightarrow> \<not> same_key t (de_key e) (de_key f)"
proof -
  have "e \<notin># M" using assms by (auto simp: unique_keys_def not_in_iff)
  then show "unique_keys t M" "f \<in># M \<Longrightarrow> \<not> same_key t (de_key e) (de_key f)"
    using assms unfolding unique_keys_def by (auto split: if_splits)
qed

section \<open>Rehashing\<close>

text \<open>Moving a chain: the entries leave table 0's count and join their buckets in table 1.\<close>

lemma dictRehash_move_ok:
  assumes "table_ok t d 1" "ht_size_exp d 1 \<noteq> -1" "length b \<le> ht_used d 0"
  shows "\<exists>d'. dictRehash_move t d b = Some d' \<and> table_ok t d' 1 \<and>
    ht_table d' 0 = ht_table d 0 \<and> ht_used d' 0 = ht_used d 0 - length b \<and>
    ht_size_exp d' = ht_size_exp d \<and> rehashidx d' = rehashidx d \<and> pauserehash d' = pauserehash d \<and>
    mset (concat (ht_table d' 1)) = mset (concat (ht_table d 1)) + mset b"
  using assms
proof (induction b arbitrary: d)
  case (Cons e b)
  define h where "h = bucket_index t (ht_size_exp d 1) (de_key e)"
  have h: "h < length (ht_table d 1)"
    unfolding h_def using Cons.prems by (intro bucket_index_bound)
  define d1 where "d1 = d\<lparr>ht_table := (ht_table d)(1 := (ht_table d 1)[h := e # ht_table d 1 ! h]),
    ht_used := (ht_used d)(0 := ht_used d 0 - 1, 1 := ht_used d 1 + 1)\<rparr>"
  have step: "dictRehash_move t d (e # b) = dictRehash_move t d1 b"
    using h by (simp add: get_bucket_Some set_bucket_Some h_def d1_def Let_def)
  have ok: "table_ok t d1 1"
    by (rule table_ok_update [OF Cons.prems(1) h, of "e # ht_table d 1 ! h"])
      (use h Cons.prems(1) in \<open>auto simp: d1_def h_def table_ok_def\<close>)
  have m: "mset (concat (ht_table d1 1)) = add_mset e (mset (concat (ht_table d 1)))"
    using mset_concat_update [OF h, of "e # ht_table d 1 ! h"] by (simp add: d1_def)
  show ?case
    using Cons.IH [of d1] ok m step Cons.prems(2,3) by (auto simp: d1_def)
qed simp

text \<open>Skipping empty buckets ends at a filled one, which exists while table 0 has entries.\<close>

lemma dictRehash_skip_ok:
  assumes "0 \<le> rehashidx d" "\<forall>i < length (ht_table d 0). int i < rehashidx d \<longrightarrow> ht_table d 0 ! i = []"
    "concat (ht_table d 0) \<noteq> []"
  shows "\<exists>r ev' ret. dictRehash_skip d ev = Some (d\<lparr>rehashidx := r\<rparr>, ev', ret) \<and>
    rehashidx d \<le> r \<and> r \<le> int (length (ht_table d 0)) \<and>
    (\<forall>i < length (ht_table d 0). int i < r \<longrightarrow> ht_table d 0 ! i = []) \<and>
    (\<not> ret \<longrightarrow> nat r < length (ht_table d 0) \<and> ht_table d 0 ! nat r \<noteq> []) \<and>
    (ret \<longrightarrow> rehashidx d < r)"
  using assms
proof (induction d ev rule: dictRehash_skip.induct)
  case (1 d ev)
  let ?r = "nat (rehashidx d)"
  have "?r < length (ht_table d 0)"
  proof (rule ccontr)
    assume "\<not> ?thesis"
    then have "\<forall>i < length (ht_table d 0). ht_table d 0 ! i = []"
      using "1.prems" by (simp add: nat_le_eq_zle not_less)
    then show False using "1.prems"(3) by (auto simp: in_set_conv_nth)
  qed
  then have get: "get_bucket d 0 ?r = Some (ht_table d 0 ! ?r)" by (rule get_bucket_Some)
  show ?case
  proof (cases "ht_table d 0 ! ?r")
    case (Cons e b)
    then have "dictRehash_skip d ev = Some (d, ev, False)"
      using "1.prems"(1) get by (subst dictRehash_skip.simps) simp
    then show ?thesis
      using "1.prems" Cons \<open>?r < length (ht_table d 0)\<close>
      by (intro exI [of _ "rehashidx d"] exI [of _ ev] exI [of _ False]) simp
  next
    case Nil
    let ?d = "d\<lparr>rehashidx := rehashidx d + 1\<rparr>"
    have empty: "\<forall>i < length (ht_table d 0). int i < rehashidx d + 1 \<longrightarrow> ht_table d 0 ! i = []"
      using Nil "1.prems"(1,2) by (metis int_nat_eq linorder_not_less nat_int zless_add1_eq)
    show ?thesis
    proof (cases "ev - 1 = 0")
      case True
      then have "dictRehash_skip d ev = Some (?d, ev - 1, True)"
        using "1.prems"(1) get Nil by (subst dictRehash_skip.simps) simp
      then show ?thesis
        using empty \<open>?r < length (ht_table d 0)\<close> "1.prems"(1)
        by (intro exI [of _ "rehashidx d + 1"] exI [of _ "ev - 1"] exI [of _ True]) simp
    next
      case False
      then have "dictRehash_skip d ev = dictRehash_skip ?d (ev - 1)"
        using "1.prems"(1) get Nil by (subst dictRehash_skip.simps) simp
      moreover obtain r ev' ret where
        "dictRehash_skip ?d (ev - 1) = Some (?d\<lparr>rehashidx := r\<rparr>, ev', ret)"
        "rehashidx ?d \<le> r" "r \<le> int (length (ht_table ?d 0))" "\<forall>i < length (ht_table ?d 0). int i < r \<longrightarrow> ht_table ?d 0 ! i = []"
        "\<not> ret \<longrightarrow> nat r < length (ht_table ?d 0) \<and> ht_table ?d 0 ! nat r \<noteq> []"
        "ret \<longrightarrow> rehashidx ?d < r"
        using "1.IH" [OF _ get Nil refl refl False] "1.prems" empty by auto
      ultimately show ?thesis
        by (intro exI [of _ r] exI [of _ ev'] exI [of _ ret]) auto
    qed
  qed
qed

text \<open>What a (partial) rehash keeps: the entries and everything but their distribution.\<close>

definition rehash_step_rel :: "('k, 'v) dictType \<Rightarrow> ('k, 'v) dict \<Rightarrow> ('k, 'v) dict \<Rightarrow> bool" where
  "rehash_step_rel t d d' \<longleftrightarrow>
     dict_wf t d' \<and> entries_of d' = entries_of d \<and> pauserehash d' = pauserehash d"

lemma dictRehash_bucket_ok:
  assumes wf: "dict_wf t d" and re: "dictIsRehashing d"
    and rl: "nat (rehashidx d) < length (ht_table d 0)"
  shows "\<exists>d2 d3. dictRehash_move t d (ht_table d 0 ! nat (rehashidx d)) = Some d2 \<and>
    set_bucket d2 0 (nat (rehashidx d2)) [] = Some d3 \<and> rehashidx d3 = rehashidx d \<and>
    ht_size_exp d3 = ht_size_exp d \<and> rehash_step_rel t d (d3\<lparr>rehashidx := rehashidx d + 1\<rparr>)"
proof -
  let ?r = "nat (rehashidx d)" and ?b = "ht_table d 0 ! nat (rehashidx d)"
  have ok: "table_ok t d 0" "table_ok t d 1" and uniq: "unique_keys t (entries_of d)"
    and e01: "ht_size_exp d 0 \<noteq> -1" "ht_size_exp d 1 \<noteq> -1" and ix: "0 \<le> rehashidx d"
    and empty: "\<forall>i < length (ht_table d 0). int i < rehashidx d \<longrightarrow> ht_table d 0 ! i = []"
    using wf re by (auto simp: dict_wf_def rehash_ok_def)
  have m0: "mset (concat ((ht_table d 0)[?r := []])) + mset ?b = mset (concat (ht_table d 0))"
    using mset_concat_update [OF rl, of "[]"] by simp
  then have le: "length ?b \<le> ht_used d 0"
    using ok(1) by (metis le_add2 size_mset size_union table_ok_def)
  obtain d2 where d2: "dictRehash_move t d ?b = Some d2" "table_ok t d2 1"
    "ht_table d2 0 = ht_table d 0" "ht_used d2 0 = ht_used d 0 - length ?b"
    "ht_size_exp d2 = ht_size_exp d" "rehashidx d2 = rehashidx d" "pauserehash d2 = pauserehash d"
    "mset (concat (ht_table d2 1)) = mset (concat (ht_table d 1)) + mset ?b"
    using dictRehash_move_ok [OF ok(2) e01(2) le] by blast
  define d4 where "d4 = d2\<lparr>ht_table := (ht_table d2)(0 := (ht_table d2 0)[?r := []]), rehashidx := rehashidx d + 1\<rparr>"
  have "table_ok t d4 0"
    by (rule table_ok_update [OF ok(1) rl, of "[]"]) (use d2 le in \<open>simp_all add: d4_def\<close>)
  moreover have "table_ok t d4 1"
    by (rule table_ok_cong [OF d2(2)]) (simp_all add: d4_def)
  moreover have "rehash_ok d4"
    using d2 e01 ix empty rl by (auto simp: rehash_ok_def d4_def dictIsRehashing_def nth_list_update)
  moreover have "entries_of d4 = entries_of d"
    using d2(3,8) m0 [symmetric] by (simp add: entries_of_def d4_def)
  ultimately have "rehash_step_rel t d d4"
    using uniq d2(7) by (simp add: rehash_step_rel_def dict_wf_def) (simp add: d4_def)
  then show ?thesis
    using d2 rl by (auto simp: set_bucket_Some d4_def)
qed

lemma dictRehash_loop_ok:
  assumes "dict_wf t d" "dictIsRehashing d"
  shows "\<exists>d' ret. dictRehash_loop t d ev n = Some (d', ret) \<and> rehash_step_rel t d d' \<and>
    dictIsRehashing d' \<and> ht_size_exp d' = ht_size_exp d \<and> rehashidx d \<le> rehashidx d' \<and>
    (ret \<longrightarrow> ht_used d' 0 \<noteq> 0) \<and> (n > 0 \<and> ht_used d 0 \<noteq> 0 \<longrightarrow> rehashidx d < rehashidx d')"
  using assms
proof (induction n arbitrary: d ev)
  case 0
  then show ?case by (auto simp: rehash_step_rel_def)
next
  case (Suc n)
  show ?case
  proof (cases "ht_used d 0 = 0")
    case True
    then show ?thesis using Suc.prems by (auto simp: rehash_step_rel_def)
  next
    case used: False
    have ok: "table_ok t d 0" "table_ok t d 1" "rehash_ok d" and uniq: "unique_keys t (entries_of d)"
      using Suc.prems by (simp_all add: dict_wf_def)
    have ne: "concat (ht_table d 0) \<noteq> []" using used ok(1) by (auto simp: table_ok_def)
    have ix: "0 \<le> rehashidx d" "\<forall>i < length (ht_table d 0). int i < rehashidx d \<longrightarrow> ht_table d 0 ! i = []"
      using ok(3) Suc.prems(2) by (simp_all add: rehash_ok_def)
    obtain r ev' ret where skip: "dictRehash_skip d ev = Some (d\<lparr>rehashidx := r\<rparr>, ev', ret)" and
      r: "rehashidx d \<le> r" "\<forall>i < length (ht_table d 0). int i < r \<longrightarrow> ht_table d 0 ! i = []"
      "\<not> ret \<Longrightarrow> nat r < length (ht_table d 0)" "ret \<Longrightarrow> rehashidx d < r"
      "r \<le> int (length (ht_table d 0))"
      using dictRehash_skip_ok [OF ix ne] by blast
    have guard: "rehashidx d < int (DICTHT_SIZE (ht_size_exp d 0))"
    proof (rule ccontr)
      assume "\<not> ?thesis"
      then have "\<forall>i < length (ht_table d 0). ht_table d 0 ! i = []"
        using ix ok(1) by (auto simp: table_ok_def)
      then show False using ne by (auto simp: in_set_conv_nth)
    qed
    let ?d1 = "d\<lparr>rehashidx := r\<rparr>"
    have d1: "dict_wf t ?d1" "entries_of ?d1 = entries_of d" "dictIsRehashing ?d1"
      using ok uniq r(1,2,5) ix(1) Suc.prems(2)
      by (auto simp: dict_wf_def rehash_ok_def dictIsRehashing_def entries_of_def table_ok_def)
    show ?thesis
    proof (cases ret)
      case True
      then show ?thesis
        using skip used guard r d1 by (auto simp: rehash_step_rel_def)
    next
      case False
      then have rl: "nat r < length (ht_table d 0)" using r(3) by simp
      obtain d2 d3 where d23: "dictRehash_move t ?d1 (ht_table d 0 ! nat r) = Some d2"
        "set_bucket d2 0 (nat (rehashidx d2)) [] = Some d3" "rehashidx d3 = r" "ht_size_exp d3 = ht_size_exp d"
        "rehash_step_rel t ?d1 (d3\<lparr>rehashidx := r + 1\<rparr>)"
        using dictRehash_bucket_ok [OF d1(1,3)] rl by auto
      let ?d4 = "d3\<lparr>rehashidx := r + 1\<rparr>"
      have d4: "dict_wf t ?d4" "dictIsRehashing ?d4" "entries_of ?d4 = entries_of d"
        "pauserehash ?d4 = pauserehash d"
        using d23(5) d1(2) r(1) ix(1) by (simp_all add: rehash_step_rel_def dictIsRehashing_def)
      obtain d' ret' where "dictRehash_loop t ?d4 ev' n = Some (d', ret')"
        "rehash_step_rel t ?d4 d'" "dictIsRehashing d'" "r + 1 \<le> rehashidx d'"
        "ht_size_exp d' = ht_size_exp d" "ret' \<longrightarrow> ht_used d' 0 \<noteq> 0"
        using d23(4) Suc.IH [OF d4(1,2), of ev'] by auto
      moreover have "dictRehash_loop t d ev (Suc n) = dictRehash_loop t ?d4 ev' n"
        using used guard skip False rl d23 by (simp add: get_bucket_Some)
      ultimately show ?thesis
        using d4 r(1) by (auto simp: rehash_step_rel_def)
    qed
  qed
qed

lemma dictRehash_ok:
  assumes "dict_wf t d"
  shows "\<exists>d' more. dictRehash t d n = Some (d', more) \<and> rehash_step_rel t d d' \<and>
    (more \<longleftrightarrow> dictIsRehashing d') \<and>
    (n > 0 \<and> dictIsRehashing d' \<longrightarrow>
       dictIsRehashing d \<and> rehashidx d < rehashidx d' \<and> ht_size_exp d' = ht_size_exp d \<and> ht_used d' 0 \<noteq> 0)"
proof (cases "dictIsRehashing d")
  case False
  then show ?thesis using assms by (auto simp: dictRehash_def rehash_step_rel_def)
next
  case True
  obtain d1 ret where d1: "dictRehash_loop t d (int n * 10) n = Some (d1, ret)"
    "rehash_step_rel t d d1" "dictIsRehashing d1" "ht_size_exp d1 = ht_size_exp d"
    "ret \<longrightarrow> ht_used d1 0 \<noteq> 0" "n > 0 \<and> ht_used d 0 \<noteq> 0 \<longrightarrow> rehashidx d < rehashidx d1"
    using dictRehash_loop_ok [OF assms True] by blast
  have wf1: "table_ok t d1 0" "table_ok t d1 1" "rehash_ok d1" "unique_keys t (entries_of d1)"
    using d1(2) by (auto simp: rehash_step_rel_def dict_wf_def)
  show ?thesis
  proof (cases "ret \<or> ht_used d1 0 \<noteq> 0")
    case True
    then have "dictRehash t d n = Some (d1, True)"
      using d1(1) \<open>dictIsRehashing d\<close> by (auto simp: dictRehash_def)
    moreover have "ht_used d 0 \<noteq> 0"
    proof
      assume "ht_used d 0 = 0"
      then have "dictRehash_loop t d (int n * 10) n = Some (d, False)" by (cases n) simp_all
      with True d1(1) \<open>ht_used d 0 = 0\<close> show False by simp
    qed
    moreover have "ht_used d1 0 \<noteq> 0" using True d1(5) by blast
    ultimately show ?thesis
      using d1 \<open>dictIsRehashing d\<close> by (intro exI [of _ d1] exI [of _ True]) simp
  next
    case False
    define d' where "d' = (dictReset (d1\<lparr>ht_table := (ht_table d1)(0 := ht_table d1 1),
      ht_used := (ht_used d1)(0 := ht_used d1 1),
      ht_size_exp := (ht_size_exp d1)(0 := ht_size_exp d1 1)\<rparr>) 1)\<lparr>rehashidx := -1\<rparr>"
    have run: "dictRehash t d n = Some (d', False)"
      using d1(1) \<open>dictIsRehashing d\<close> False by (simp add: dictRehash_def d'_def)
    have "concat (ht_table d1 0) = []" using False wf1(1) by (simp add: table_ok_def)
    then have ent: "entries_of d' = entries_of d1"
      by (simp add: entries_of_def d'_def dictReset_def)
    have "table_ok t d' 0" "table_ok t d' 1" "rehash_ok d'"
      using wf1(2) by (simp_all add: table_ok_def d'_def dictReset_def DICTHT_SIZE_def
        rehash_ok_def dictIsRehashing_def)
    then have "rehash_step_rel t d d'"
      using ent wf1(4) d1(2)
      by (simp add: rehash_step_rel_def dict_wf_def) (simp add: d'_def dictReset_def)
    moreover have "\<not> dictIsRehashing d'" by (simp add: d'_def dictIsRehashing_def)
    ultimately show ?thesis using run by blast
  qed
qed

end
