(* ===== verification/DictMap.thy ===== *)
theory DictMap
  imports Dict
begin

text \<open>
  The hash table implements a finite map: expansion, lookup, insertion, replacement and removal on a
  well-formed table never fault, keep it well-formed and act on its map as they should, whatever the
  progress of an incremental rehash.
\<close>

section \<open>Expansion\<close>

lemma dictNextExp_loop_least:
  "e \<le> dictNextExp_loop sz e \<and> sz \<le> 2 ^ dictNextExp_loop sz e \<and>
    (dictNextExp_loop sz e = e \<or> 2 ^ (dictNextExp_loop sz e - 1) < sz)"
proof (induction sz e rule: dictNextExp_loop.induct)
  case (1 sz e)
  show ?case
  proof (cases "sz \<le> 2 ^ e")
    case True
    then show ?thesis by (simp add: dictNextExp_loop.simps)
  next
    case False
    then have "dictNextExp_loop sz e = dictNextExp_loop sz (e + 1)"
      by (subst dictNextExp_loop.simps) simp
    then show ?thesis using "1.IH" [OF False] False by auto
  qed
qed

lemma dictNextExp_bounds:
  assumes "sz \<le> 2 ^ n" "2 \<le> n" "n \<le> 62"
  shows "2 \<le> dictNextExp sz" "dictNextExp sz \<le> int n" "sz \<le> 2 ^ nat (dictNextExp sz)"
proof -
  have "(2::nat) ^ n \<le> 2 ^ 62" using assms(3) by (intro power_increasing) auto
  then have lt: "sz < LONG_MAX" using assms(1) by (simp add: LONG_MAX_def)
  define r where "r = dictNextExp_loop sz 2"
  have r: "2 \<le> r" "sz \<le> 2 ^ r" "r = 2 \<or> 2 ^ (r - 1) < sz"
    using dictNextExp_loop_least [of 2 sz] by (simp_all add: r_def)
  have "r \<le> n"
  proof (rule ccontr)
    assume "\<not> r \<le> n"
    then have "r \<noteq> 2" and "(2::nat) ^ n \<le> 2 ^ (r - 1)" using assms(2) by (auto intro: power_increasing)
    then show False using r(3) assms(1) by linarith
  qed
  then show "2 \<le> dictNextExp sz" "dictNextExp sz \<le> int n" "sz \<le> 2 ^ nat (dictNextExp sz)"
    using lt r by (simp_all add: dictNextExp_def DICT_HT_INITIAL_EXP_def r_def)
qed

lemma dictNextExp_range: "2 \<le> dictNextExp sz \<and> dictNextExp sz \<le> 63"
proof (cases "sz \<ge> LONG_MAX")
  case False
  define r where "r = dictNextExp_loop sz 2"
  have r: "2 \<le> r" "r = 2 \<or> 2 ^ (r - 1) < sz"
    using dictNextExp_loop_least [of 2 sz] by (simp_all add: r_def)
  have "r \<le> 63"
  proof (rule ccontr)
    assume "\<not> r \<le> 63"
    then have "r \<noteq> 2" "(2::nat) ^ 63 \<le> 2 ^ (r - 1)"
      using power_increasing [of 63 "r - 1" "2::nat"] by auto
    then show False using r(2) False by (simp add: LONG_MAX_def)
  qed
  then show ?thesis using False r by (simp add: dictNextExp_def DICT_HT_INITIAL_EXP_def r_def)
qed (simp add: dictNextExp_def)

text \<open>The overflow test of \<open>_dictExpand\<close> lets through exactly the exponents up to 60.\<close>

lemma expand_overflow_test:
  assumes "2 \<le> e" "e \<le> 63"
  shows "(2::nat) ^ e * sizeof_ptr mod 2 ^ 64 < 2 ^ e \<longleftrightarrow> 60 < e"
proof (cases "e \<le> 60")
  case True
  then have "(2::nat) ^ e \<le> 2 ^ 60" by (intro power_increasing) auto
  then show ?thesis using True by (simp add: sizeof_ptr_def)
next
  case False
  then have "e = 61 \<or> e = 62 \<or> e = 63" using assms by linarith
  then show ?thesis by (auto simp: sizeof_ptr_def)
qed

text \<open>What housekeeping keeps: well-formedness and the entries.\<close>

definition same_content :: "('k, 'v) dictType \<Rightarrow> ('k, 'v) dict \<Rightarrow> ('k, 'v) dict \<Rightarrow> bool" where
  "same_content t d d' \<longleftrightarrow> dict_wf t d' \<and> entries_of d' = entries_of d"

lemma dict_wf_tables:
  assumes "dict_wf t d"
  shows "ht_table d 0 = [] \<longleftrightarrow> ht_size_exp d 0 = -1" "\<not> dictIsRehashing d \<Longrightarrow> ht_table d 1 = []"
    "\<not> dictIsRehashing d \<Longrightarrow> ht_used d 1 = 0" "\<not> dictIsRehashing d \<Longrightarrow> ht_size_exp d 1 = -1"
    "dictIsRehashing d \<Longrightarrow> ht_size_exp d 1 \<noteq> -1" "dictIsRehashing d \<Longrightarrow> ht_size_exp d 0 \<noteq> -1"
    "ht_size_exp d 0 \<noteq> -1 \<Longrightarrow> 2 \<le> ht_size_exp d 0 \<and> ht_size_exp d 0 \<le> 60"
  using assms by (auto simp: dict_wf_def table_ok_def rehash_ok_def DICTHT_SIZE_def)

lemma table_ok_fresh:
  assumes "2 \<le> e" "e \<le> 60" "ht_table d h = replicate (2 ^ nat e) []" "ht_used d h = 0" "ht_size_exp d h = e"
  shows "table_ok t d h"
  using assms by (auto simp: table_ok_def DICTHT_SIZE_def)

lemma dictExpand'_ok:
  assumes "dict_wf t d" "dictExpand' try fails d sz = (d', r, mf)"
  shows "same_content t d d' \<and> pauserehash d' = pauserehash d \<and> (r = DICT_ERR \<longrightarrow> d' = d) \<and>
    (r = DICT_OK \<longrightarrow> (if ht_size_exp d 0 = -1 then \<not> dictIsRehashing d' else dictIsRehashing d'))"
proof -
  define e where "e = dictNextExp sz"
  have e: "2 \<le> e" "e \<le> 63" using dictNextExp_range [of sz] by (simp_all add: e_def)
  show ?thesis
  proof (cases "r = DICT_ERR")
    case True
    then have "d' = d" using assms(2) by (auto simp: dictExpand'_def Let_def split: if_splits)
    then show ?thesis using assms(1) True by (simp add: same_content_def)
  next
    case False
    then have nr: "\<not> dictIsRehashing d" and le: "e \<le> 60"
      using assms(2) expand_overflow_test [of "nat e"] e
      by (auto simp: dictExpand'_def Let_def e_def split: if_splits)
    note tb = dict_wf_tables [OF assms(1)]
    show ?thesis
    proof (cases "ht_table d 0 = []")
      case True
      then have d': "d' = d\<lparr>ht_size_exp := (ht_size_exp d)(0 := e), ht_used := (ht_used d)(0 := 0),
          ht_table := (ht_table d)(0 := replicate (2 ^ nat e) [])\<rparr>"
        using assms(2) False by (auto simp: dictExpand'_def Let_def e_def split: if_splits)
      have "table_ok t d' 0" by (rule table_ok_fresh [of e]) (use e le in \<open>simp_all add: d'\<close>)
      moreover have "table_ok t d' 1" "rehash_ok d'"
        using assms(1) nr by (auto simp: d' dict_wf_def table_ok_def rehash_ok_def dictIsRehashing_def)
      moreover have "entries_of d' = entries_of d" using True by (simp add: d' entries_of_def)
      ultimately show ?thesis
        using assms(1) nr True tb(1) False
        by (simp add: same_content_def dict_wf_def) (simp add: d' dictIsRehashing_def)
    next
      case tab: False
      then have d': "d' = d\<lparr>ht_size_exp := (ht_size_exp d)(1 := e), ht_used := (ht_used d)(1 := 0),
          ht_table := (ht_table d)(1 := replicate (2 ^ nat e) []), rehashidx := 0\<rparr>"
        using assms(2) False by (auto simp: dictExpand'_def Let_def e_def split: if_splits)
      have "table_ok t d' 1" by (rule table_ok_fresh [of e]) (use e le in \<open>simp_all add: d'\<close>)
      moreover have "table_ok t d' 0" "rehash_ok d'"
        using assms(1) nr tab tb(1) e
        by (auto simp: d' dict_wf_def table_ok_def rehash_ok_def dictIsRehashing_def)
      moreover have "entries_of d' = entries_of d" using nr tb(2) by (simp add: d' entries_of_def)
      ultimately show ?thesis
        using assms(1) nr tab tb(1) False
        by (simp add: same_content_def dict_wf_def) (simp add: d' dictIsRehashing_def)
    qed
  qed
qed

lemma dictExpand_ok:
  assumes "dict_wf t d" "dictExpand d sz = (d', r)"
  shows "same_content t d d'" "pauserehash d' = pauserehash d" "r = DICT_ERR \<Longrightarrow> d' = d"
    "r = DICT_OK \<Longrightarrow> ht_size_exp d 0 \<noteq> -1 \<Longrightarrow> dictIsRehashing d'"
proof -
  obtain mf where "dictExpand' False False d sz = (d', r, mf)"
    using assms(2) by (auto simp: dictExpand_def split: prod.splits)
  from dictExpand'_ok [OF assms(1) this]
  show "same_content t d d'" "pauserehash d' = pauserehash d" "r = DICT_ERR \<Longrightarrow> d' = d"
    "r = DICT_OK \<Longrightarrow> ht_size_exp d 0 \<noteq> -1 \<Longrightarrow> dictIsRehashing d'"
    by auto
qed

text \<open>An expansion to a size that fits and differs from the current one is performed.\<close>

lemma dictExpand_performed:
  assumes "\<not> dictIsRehashing d" "ht_used d 0 \<le> sz" "sz \<le> 2 ^ 60"
    "ht_size_exp d 0 = -1 \<or> 2 ^ nat (ht_size_exp d 0) < sz"
  shows "snd (dictExpand d sz) = DICT_OK"
proof -
  have e: "2 \<le> dictNextExp sz" "dictNextExp sz \<le> 60" "sz \<le> 2 ^ nat (dictNextExp sz)"
    using dictNextExp_bounds [of sz 60] assms(3) by simp_all
  then have ne: "dictNextExp sz \<noteq> ht_size_exp d 0" using assms(4) by auto
  have "\<not> (2::nat) ^ nat (dictNextExp sz) * sizeof_ptr mod 2 ^ 64 < 2 ^ nat (dictNextExp sz)"
    using expand_overflow_test [of "nat (dictNextExp sz)"] e by simp
  then show ?thesis
    using assms(1,2) e(3) ne by (simp add: dictExpand_def dictExpand'_def Let_def del: power.simps)
qed

definition dict_cap :: nat where "dict_cap = 2 ^ 60"

lemma dictExpandIfNeeded_ok:
  assumes "dict_wf t d" "dictSize d < dict_cap"
  shows "\<exists>d'. dictExpandIfNeeded t dict_can_resize d = (d', DICT_OK) \<and> same_content t d d' \<and>
    ht_size_exp d' 0 \<noteq> -1 \<and> pauserehash d' = pauserehash d"
proof -
  note tb = dict_wf_tables [OF assms(1)]
  obtain d' r where E: "dictExpandIfNeeded t dict_can_resize d = (d', r)" by fastforce
  have lt: "ht_used d 0 < 2 ^ 60" using assms(2) by (simp add: dictSize_def dict_cap_def)
  consider (no) "d' = d" "r = DICT_OK" "ht_size_exp d 0 \<noteq> -1"
    | (init) "\<not> dictIsRehashing d" "ht_size_exp d 0 = -1" "dictExpand d DICT_HT_INITIAL_SIZE = (d', r)"
    | (grow) "\<not> dictIsRehashing d" "ht_size_exp d 0 \<noteq> -1" "DICTHT_SIZE (ht_size_exp d 0) \<le> ht_used d 0"
        "dictExpand d (ht_used d 0 + 1) = (d', r)"
    using E tb(6) by (auto simp: dictExpandIfNeeded_def DICTHT_SIZE_def split: if_splits)
  then show ?thesis
  proof cases
    case no
    then show ?thesis using assms E by (simp add: same_content_def)
  next
    case init
    have "ht_used d 0 = 0"
      using init(2) assms(1) by (simp add: dict_wf_def table_ok_def DICTHT_SIZE_def)
    then have r: "r = DICT_OK"
      using dictExpand_performed [of d DICT_HT_INITIAL_SIZE] init
      by (simp add: DICT_HT_INITIAL_SIZE_def DICT_HT_INITIAL_EXP_def)
    have "ht_size_exp d' 0 \<noteq> -1"
      using init(3) r dictNextExp_range [of DICT_HT_INITIAL_SIZE]
      by (auto simp: dictExpand_def dictExpand'_def Let_def tb(1) init(2) split: if_splits prod.splits)
    then show ?thesis using E r dictExpand_ok [OF assms(1) init(3)] by simp
  next
    case grow
    then have r: "r = DICT_OK"
      using dictExpand_performed [of d "ht_used d 0 + 1"] lt by (simp add: DICTHT_SIZE_def)
    then have "dictIsRehashing d'" using dictExpand_ok(4) [OF assms(1) grow(4)] grow(2) by simp
    moreover have "dict_wf t d'" using dictExpand_ok(1) [OF assms(1) grow(4)] by (simp add: same_content_def)
    ultimately show ?thesis
      using E r dictExpand_ok [OF assms(1) grow(4)] dict_wf_tables(6) by blast
  qed
qed

section \<open>Lookup\<close>

lemma chain_find_Some: "chain_find t key b = Some p \<Longrightarrow> p < length b \<and> same_key t key (de_key (b ! p))"
  by (induction b arbitrary: p) (auto split: if_splits)

lemma chain_find_None: "chain_find t key b = None \<longleftrightarrow> (\<forall>e \<in> set b. \<not> same_key t key (de_key e))"
  by (induction b) auto

text \<open>An entry with the key can only be in the key's bucket.\<close>

lemma bucket_absent:
  assumes "dict_type_ok t" "table_ok t d h"
    "\<forall>e \<in> set (ht_table d h ! bucket_index t (ht_size_exp d h) key). \<not> same_key t key (de_key e)"
    "e \<in> set (concat (ht_table d h))"
  shows "\<not> same_key t key (de_key e)"
proof
  assume same: "same_key t key (de_key e)"
  obtain i where i: "i < length (ht_table d h)" "e \<in> set (ht_table d h ! i)"
    using assms(4) unfolding in_concat_nth by blast
  then have "bucket_index t (ht_size_exp d h) key = i"
    using assms(2) same_key_bucket [OF assms(1) same] by (auto simp: table_ok_def)
  then show False using assms(3) i same by blast
qed

definition ref_ok :: "('k, 'v) dict \<Rightarrow> entry_ref \<Rightarrow> bool" where
  "ref_ok d ref \<longleftrightarrow> (case ref of (h, i, p) \<Rightarrow>
     h < 2 \<and> i < length (ht_table d h) \<and> p < length (ht_table d h ! i))"

definition ref_entry :: "('k, 'v) dict \<Rightarrow> entry_ref \<Rightarrow> ('k, 'v) dictEntry" where
  "ref_entry d ref = (case ref of (h, i, p) \<Rightarrow> ht_table d h ! i ! p)"

lemma get_entry_ok: "ref_ok d ref \<Longrightarrow> get_entry d ref = Some (ref_entry d ref)"
  by (auto simp: ref_ok_def ref_entry_def get_entry_def get_bucket_Some split: prod.splits)

lemma ref_entry_in: "ref_ok d ref \<Longrightarrow> ref_entry d ref \<in># entries_of d"
  by (auto simp: ref_ok_def ref_entry_def entries_of_def less_2_cases_iff split: prod.splits)
    (metis nth_mem)+

definition active_table :: "('k, 'v) dict \<Rightarrow> nat" where
  "active_table d = (if dictIsRehashing d then 1 else 0)"

lemma table_search_ok:
  assumes "dict_type_ok t" "dict_wf t d" "ht_size_exp d 0 \<noteq> -1"
  obtains (found) ref where "table_search t d key [0, 1] j = Some (Inr ref)" "ref_ok d ref"
      "same_key t key (de_key (ref_entry d ref))"
  | (absent) "table_search t d key [0, 1] j =
        Some (Inl (bucket_index t (ht_size_exp d (active_table d)) key))"
      "\<And>e. e \<in># entries_of d \<Longrightarrow> \<not> same_key t key (de_key e)"
proof -
  define i where "i = (\<lambda>h. bucket_index t (ht_size_exp d h) key)"
  have ok: "table_ok t d 0" "table_ok t d 1" using assms(2) by (simp_all add: dict_wf_def)
  have i0: "i 0 < length (ht_table d 0)" unfolding i_def by (rule bucket_index_bound [OF ok(1) assms(3)])
  show thesis
  proof (cases "chain_find t key (ht_table d 0 ! i 0)")
    case (Some p)
    then show thesis
      using i0 chain_find_Some [OF Some]
      by (intro found [of "(0, i 0, p)"]) (auto simp: i_def get_bucket_Some Let_def ref_ok_def ref_entry_def)
  next
    case None
    have no0: "e \<in> set (concat (ht_table d 0)) \<Longrightarrow> \<not> same_key t key (de_key e)" for e
      using bucket_absent [OF assms(1) ok(1)] None by (auto simp: chain_find_None i_def)
    show thesis
    proof (cases "dictIsRehashing d")
      case False
      then show thesis
        using i0 None no0 dict_wf_tables(2) [OF assms(2)]
        by (intro absent) (auto simp: i_def get_bucket_Some Let_def active_table_def entries_of_def)
    next
      case re: True
      have i1: "i 1 < length (ht_table d 1)" unfolding i_def
        by (rule bucket_index_bound [OF ok(2) dict_wf_tables(5) [OF assms(2) re]])
      show thesis
      proof (cases "chain_find t key (ht_table d 1 ! i 1)")
        case (Some p)
        then show thesis
          using i0 i1 None re chain_find_Some [OF Some]
          by (intro found [of "(1, i 1, p)"])
            (auto simp: i_def get_bucket_Some Let_def ref_ok_def ref_entry_def)
      next
        case none: None
        have no1: "e \<in> set (concat (ht_table d 1)) \<Longrightarrow> \<not> same_key t key (de_key e)" for e
          using bucket_absent [OF assms(1) ok(2)] none by (auto simp: chain_find_None i_def)
        show thesis
          using i0 i1 None none no0 no1 re
          by (intro absent) (auto simp: i_def get_bucket_Some Let_def active_table_def entries_of_def)
      qed
    qed
  qed
qed

declare table_search.simps [simp del]

section \<open>Replacing one bucket\<close>

text \<open>Insertion, removal and value updates all replace one bucket of one table.\<close>

lemma replace_bucket_entries:
  assumes "h < 2" "i < length (ht_table d h)"
    "ht_table d' = (ht_table d)(h := (ht_table d h)[i := b])"
  shows "entries_of d' + mset (ht_table d h ! i) = entries_of d + mset b"
  using assms(1) mset_concat_update [OF assms(2), of b]
  by (auto simp: entries_of_def assms(3) less_2_cases_iff ac_simps)

lemma replace_bucket_wf:
  assumes wf: "dict_wf t d" and h: "h < 2" and i: "i < length (ht_table d h)"
    and d': "d' = d\<lparr>ht_table := (ht_table d)(h := (ht_table d h)[i := b]), ht_used := (ht_used d)(h := u)\<rparr>"
    and b: "\<forall>e \<in> set b. bucket_index t (ht_size_exp d h) (de_key e) = i"
    and u: "u + length (ht_table d h ! i) = ht_used d h + length b"
    and re: "dictIsRehashing d \<Longrightarrow> h = 0 \<Longrightarrow> ht_table d 0 ! i = [] \<Longrightarrow> b = []"
    and uniq: "unique_keys t (entries_of d')"
  shows "dict_wf t d'"
proof -
  have ok: "table_ok t d k" if "k < 2" for k using wf that by (auto simp: dict_wf_def less_2_cases_iff)
  have "table_ok t d' k" if "k < 2" for k
  proof (cases "k = h")
    case True
    show ?thesis unfolding True
      by (rule table_ok_update [OF ok [OF h] i b]) (use u in \<open>simp_all add: d'\<close>)
  next
    case False
    then show ?thesis using ok [OF that] by (simp add: d' table_ok_def)
  qed
  moreover have "rehash_ok d'"
    using wf re i h
    by (auto simp: dict_wf_def rehash_ok_def d' dictIsRehashing_def nth_list_update less_2_cases_iff)
  ultimately show ?thesis using uniq by (simp add: dict_wf_def)
qed

lemma dict_map_add:
  assumes "dict_type_ok t" "unique_keys t (entries_of d')" "entries_of d' = add_mset e M"
    "entries_of d = M" "unique_keys t M" "same_key t key (de_key e)"
  shows "dict_map t d' = map_upd (same_key t) (dict_map t d) key (Some (de_val e))"
proof
  fix k
  note eq = dict_type_okD [OF assms(1)]
  show "dict_map t d' k = map_upd (same_key t) (dict_map t d) key (Some (de_val e)) k"
  proof (cases "same_key t k key")
    case True
    then have "same_key t k (de_key e)" using assms(6) eq(3) by blast
    then show ?thesis using dict_map_Some [OF assms(1,2)] assms(3) True by (simp add: map_upd_def)
  next
    case False
    then have ne: "\<not> same_key t k (de_key e)" using assms(6) eq(1,3) by metis
    have "dict_map t d' k = dict_map t d k"
    proof (rule dict_map_cases [of t d k])
      fix f
      assume "f \<in># entries_of d" "same_key t k (de_key f)" "dict_map t d k = Some (de_val f)"
      then show ?thesis using dict_map_Some [OF assms(1,2), of f k] assms(3,4) by simp
    next
      assume "\<And>f. f \<in># entries_of d \<Longrightarrow> \<not> same_key t k (de_key f)" "dict_map t d k = None"
      then show ?thesis using dict_map_None [of d' t k] assms(3,4) ne by auto
    qed (use assms in simp_all)
    then show ?thesis using False by (simp add: map_upd_def)
  qed
qed

lemma dict_map_remove:
  assumes "dict_type_ok t" "unique_keys t (entries_of d)" "entries_of d = add_mset e (entries_of d')"
    "same_key t key (de_key e)"
  shows "dict_map t d' = map_upd (same_key t) (dict_map t d) key None"
proof
  fix k
  note eq = dict_type_okD [OF assms(1)]
  have u': "unique_keys t (entries_of d')" using unique_keys_remove(1) assms(2,3) by metis
  have other: "f \<in># entries_of d' \<Longrightarrow> \<not> same_key t (de_key e) (de_key f)" for f
    using unique_keys_remove(2) assms(2,3) by metis
  show "dict_map t d' k = map_upd (same_key t) (dict_map t d) key None k"
  proof (cases "same_key t k key")
    case True
    then have "same_key t (de_key e) k" using assms(4) eq(1,3) by blast
    then have "f \<in># entries_of d' \<Longrightarrow> \<not> same_key t k (de_key f)" for f using other eq(3) by blast
    then show ?thesis using dict_map_None [of d' t k] True by (simp add: map_upd_def)
  next
    case False
    then have "\<not> same_key t k (de_key e)" using assms(4) eq(1,3) by metis
    then have "dict_map t d k = dict_map t d' k"
      using dict_map_cases [OF assms(1) u', of k] dict_map_Some [OF assms(1,2)] assms(3)
        dict_map_None [of d t k] by (metis insert_iff set_mset_add_mset_insert)
    then show ?thesis using False by (simp add: map_upd_def)
  qed
qed

section \<open>Operations\<close>

lemma dictSize_entries: "dict_wf t d \<Longrightarrow> dictSize d = size (entries_of d)"
  by (simp add: dictSize_def dict_wf_def table_ok_def entries_of_def)

lemma nonempty_allocated:
  assumes "dict_wf t d" "entries_of d \<noteq> {#}"
  shows "ht_size_exp d 0 \<noteq> -1"
  using assms(2) dict_wf_tables(1,2,6) [OF assms(1)]
  by (cases "dictIsRehashing d") (auto simp: entries_of_def)

lemma dictRehashStep_ok:
  assumes "dict_wf t d"
  shows "\<exists>d'. dictRehashStep t d = Some d' \<and> same_content t d d' \<and> pauserehash d' = pauserehash d"
  using dictRehash_ok [OF assms, of 1] assms
  by (auto simp: dictRehashStep_def same_content_def rehash_step_rel_def)

text \<open>The prologue of every operation: \<open>if (dictIsRehashing(d)) _dictRehashStep(d)\<close>.\<close>

lemma rehash_prologue_ok:
  assumes "dict_wf t d"
  obtains d' where "(if dictIsRehashing d then dictRehashStep t d else Some d) = Some d'"
    "same_content t d d'" "pauserehash d' = pauserehash d"
  using dictRehashStep_ok [OF assms] assms
  by (cases "dictIsRehashing d") (auto simp: same_content_def)

lemma same_content_trans: "same_content t d d1 \<Longrightarrow> same_content t d1 d2 \<Longrightarrow> same_content t d d2"
  by (simp add: same_content_def)

lemma same_content_map:
  "dict_type_ok t \<Longrightarrow> dict_wf t d \<Longrightarrow> same_content t d d' \<Longrightarrow> dict_map t d' = dict_map t d"
  by (rule dict_map_cong) (simp_all add: same_content_def dict_wf_def)

lemma same_content_size:
  "dict_wf t d \<Longrightarrow> same_content t d d' \<Longrightarrow> dictSize d' = dictSize d"
  using dictSize_entries [of t d] dictSize_entries [of t d'] by (simp add: same_content_def)

lemma dictAddRaw_ok:
  assumes ty: "dict_type_ok t" and wf: "dict_wf t d" and cap: "dictSize d < dict_cap"
  obtains (existing) d' ref where "dictAddRaw t dict_can_resize junk d key = Some (d', Existing ref)"
      "same_content t d d'" "ref_ok d' ref" "same_key t key (de_key (ref_entry d' ref))"
  | (added) d' ref where "dictAddRaw t dict_can_resize junk d key = Some (d', Added ref)"
      "dict_wf t d'" "ref_ok d' ref" "ref_entry d' ref = \<lparr>de_key = dictSetKey t key, de_val = junk\<rparr>"
      "entries_of d' = add_mset \<lparr>de_key = dictSetKey t key, de_val = junk\<rparr> (entries_of d)"
      "\<And>e. e \<in># entries_of d \<Longrightarrow> \<not> same_key t key (de_key e)"
proof -
  obtain d1 where d1: "(if dictIsRehashing d then dictRehashStep t d else Some d) = Some d1"
    "same_content t d d1" by (rule rehash_prologue_ok [OF wf])
  then have "dict_wf t d1" "dictSize d1 < dict_cap"
    using cap same_content_size [OF wf] by (simp_all add: same_content_def)
  then obtain d2 where d2: "dictExpandIfNeeded t dict_can_resize d1 = (d2, DICT_OK)"
    "same_content t d1 d2" "ht_size_exp d2 0 \<noteq> -1"
    using dictExpandIfNeeded_ok by blast
  have con: "same_content t d d2" using d1(2) d2(2) by (rule same_content_trans)
  then have wf2: "dict_wf t d2" and ent: "entries_of d2 = entries_of d" by (simp_all add: same_content_def)
  show thesis
  proof (rule table_search_ok [OF ty wf2 d2(3), of key 0])
    fix ref
    assume "table_search t d2 key [0, 1] 0 = Some (Inr ref)" "ref_ok d2 ref"
      "same_key t key (de_key (ref_entry d2 ref))"
    then show thesis
      using d1(1) d2(1) con by (intro existing [of d2 ref]) (auto simp: dictAddRaw_def dictKeyIndex_def)
  next
    define h where "h = active_table d2"
    define i where "i = bucket_index t (ht_size_exp d2 h) key"
    define e where "e = \<lparr>de_key = dictSetKey t key, de_val = junk\<rparr>"
    define d' where "d' = d2\<lparr>ht_table := (ht_table d2)(h := (ht_table d2 h)[i := e # ht_table d2 h ! i]),
      ht_used := (ht_used d2)(h := ht_used d2 h + 1)\<rparr>"
    assume ts: "table_search t d2 key [0, 1] 0 =
        Some (Inl (bucket_index t (ht_size_exp d2 (active_table d2)) key))"
      and no: "\<And>e. e \<in># entries_of d2 \<Longrightarrow> \<not> same_key t key (de_key e)"
    have h: "h < 2" "ht_size_exp d2 h \<noteq> -1" "table_ok t d2 h"
      using d2(3) dict_wf_tables(5) [OF wf2] wf2 by (auto simp: h_def active_table_def dict_wf_def)
    have i: "i < length (ht_table d2 h)" unfolding i_def by (rule bucket_index_bound [OF h(3,2)])
    have run: "dictAddRaw t dict_can_resize junk d key = Some (d', Added (h, i, 0))"
      using d1(1) d2(1) ts i
      by (auto simp: dictAddRaw_def dictKeyIndex_def Let_def get_bucket_Some set_bucket_Some
        h_def i_def e_def d'_def active_table_def)
    have ent': "entries_of d' = add_mset e (entries_of d2)"
      using replace_bucket_entries [OF h(1) i, of d' "e # ht_table d2 h ! i"] by (simp add: d'_def)
    have ke: "same_key t key (de_key e)" using dict_type_okD(4) [OF ty] by (simp add: e_def)
    have "f \<in># entries_of d2 \<Longrightarrow> \<not> same_key t (de_key e) (de_key f)" for f
      using no ke dict_type_okD(3) [OF ty] by blast
    then have uniq: "unique_keys t (entries_of d')"
      unfolding ent' using wf2 ty by (intro unique_keys_add) (auto simp: dict_wf_def)
    have bk: "\<forall>f \<in> set (e # ht_table d2 h ! i). bucket_index t (ht_size_exp d2 h) (de_key f) = i"
      using h(3) i same_key_bucket [OF ty ke] by (auto simp: table_ok_def i_def)
    have wf': "dict_wf t d'"
      by (rule replace_bucket_wf [OF wf2 h(1) i d'_def bk _ _ uniq]) (simp_all add: h_def active_table_def)
    have ref: "ref_ok d' (h, i, 0)" "ref_entry d' (h, i, 0) = e"
      using i h(1) by (simp_all add: ref_ok_def ref_entry_def d'_def)
    show thesis
      by (rule added [OF run wf']) (use ref ent' no in \<open>simp_all add: ent e_def\<close>)
  qed
qed

lemma set_entry_val_ok:
  assumes ty: "dict_type_ok t" and wf: "dict_wf t d" and ref: "ref_ok d ref"
  obtains d' M where "set_entry_val t d ref v = Some d'" "dict_wf t d'"
    "entries_of d = add_mset (ref_entry d ref) M"
    "entries_of d' = add_mset ((ref_entry d ref)\<lparr>de_val := dictSetVal t v\<rparr>) M"
proof -
  obtain h i p where r: "ref = (h, i, p)" by (cases ref)
  define e e' b where "e = ref_entry d ref" and "e' = e\<lparr>de_val := dictSetVal t v\<rparr>"
    and "b = (ht_table d h ! i)[p := e']"
  have h: "h < 2" "i < length (ht_table d h)" "p < length (ht_table d h ! i)" and e: "e = ht_table d h ! i ! p"
    using ref by (auto simp: ref_ok_def r e_def ref_entry_def)
  obtain M where M: "entries_of d = add_mset e M"
    using ref_entry_in [OF ref] by (auto simp: e_def dest: multi_member_split)
  define d' where "d' = d\<lparr>ht_table := (ht_table d)(h := (ht_table d h)[i := b]),
    ht_used := (ht_used d)(h := ht_used d h)\<rparr>"
  have "add_mset e (mset b) = add_mset e' (mset (ht_table d h ! i))"
    using h(3) by (simp add: b_def e mset_update)
  moreover have "entries_of d' + mset (ht_table d h ! i) = M + add_mset e (mset b)"
    using replace_bucket_entries [OF h(1,2), of d' b] M by (simp add: d'_def)
  ultimately have ent': "entries_of d' = add_mset e' M" by simp
  have uM: "unique_keys t M" "\<And>f. f \<in># M \<Longrightarrow> \<not> same_key t (de_key e) (de_key f)"
    using unique_keys_remove [of t e M] wf M by (simp_all add: dict_wf_def)
  have "unique_keys t (entries_of d')"
    unfolding ent' by (rule unique_keys_add [OF uM(1) _ ty]) (use uM(2) in \<open>simp add: e'_def\<close>)
  moreover have "\<forall>f \<in> set b. bucket_index t (ht_size_exp d h) (de_key f) = i"
  proof
    fix f
    assume "f \<in> set b"
    then have "f = e' \<or> f \<in> set (ht_table d h ! i)"
      using set_update_subset_insert [of "ht_table d h ! i" p e'] by (auto simp: b_def)
    then have "\<exists>g \<in> set (ht_table d h ! i). de_key f = de_key g"
      using h(3) by (auto simp: e'_def e)
    moreover have "table_ok t d h" using wf h(1) by (auto simp: dict_wf_def less_2_cases_iff)
    ultimately show "bucket_index t (ht_size_exp d h) (de_key f) = i"
      using h(2) by (auto simp: table_ok_def)
  qed
  ultimately have "dict_wf t d'"
    using h(3) by (intro replace_bucket_wf [OF wf h(1,2) d'_def]) (simp_all add: b_def)
  moreover have "set_entry_val t d ref v = Some d'"
    using h by (simp add: set_entry_val_def r get_bucket_Some set_bucket_Some d'_def b_def e'_def e)
  ultimately show thesis using that M ent' by (simp add: e_def e'_def)
qed

definition add_op :: "('k, 'v) dictType \<Rightarrow> bool \<Rightarrow> 'v \<Rightarrow> ('k, 'v) dict \<Rightarrow> 'k \<Rightarrow> 'v \<Rightarrow>
    (('k, 'v) dict \<times> bool) option" where
  "add_op t can junk d k v = map_option (apsnd (\<lambda>r. r = DICT_OK)) (dictAdd t can junk d k v)"

definition replace_op :: "('k, 'v) dictType \<Rightarrow> bool \<Rightarrow> 'v \<Rightarrow> ('k, 'v) dict \<Rightarrow> 'k \<Rightarrow> 'v \<Rightarrow>
    (('k, 'v) dict \<times> bool) option" where
  "replace_op t can junk d k v = map_option (apsnd fst) (dictReplace t can junk d k v)"

definition delete_op :: "('k, 'v) dictType \<Rightarrow> ('k, 'v) dict \<Rightarrow> 'k \<Rightarrow> (('k, 'v) dict \<times> bool) option" where
  "delete_op t d k = map_option (apsnd (\<lambda>r. r = DICT_OK)) (dictDelete t d k)"

text \<open>A fresh entry whose value is then set: the common part of \<open>dictAdd\<close> and \<open>dictReplace\<close>.\<close>

lemma added_then_set:
  assumes ty: "dict_type_ok t" and wf: "dict_wf t d" and wf1: "dict_wf t d1" and ref: "ref_ok d1 ref"
    and re: "ref_entry d1 ref = \<lparr>de_key = dictSetKey t key, de_val = junk\<rparr>"
    and ent: "entries_of d1 = add_mset \<lparr>de_key = dictSetKey t key, de_val = junk\<rparr> (entries_of d)"
    and no: "\<And>e. e \<in># entries_of d \<Longrightarrow> \<not> same_key t key (de_key e)"
  shows "\<exists>d2. set_entry_val t d1 ref v = Some d2 \<and> dict_wf t d2 \<and> dict_map t d key = None \<and>
    dict_map t d2 = map_upd (same_key t) (dict_map t d) key (Some (dictSetVal t v)) \<and>
    dictSize d2 = Suc (dictSize d)"
proof (rule set_entry_val_ok [OF ty wf1 ref, of v])
  fix d2 M
  assume run: "set_entry_val t d1 ref v = Some d2" and wf2: "dict_wf t d2"
    and M: "entries_of d1 = add_mset (ref_entry d1 ref) M"
      "entries_of d2 = add_mset ((ref_entry d1 ref)\<lparr>de_val := dictSetVal t v\<rparr>) M"
  have "M = entries_of d" using M(1) ent re by simp
  then have e2: "entries_of d2 = add_mset \<lparr>de_key = dictSetKey t key, de_val = dictSetVal t v\<rparr> (entries_of d)"
    using M(2) re by simp
  have "dict_map t d2 = map_upd (same_key t) (dict_map t d) key (Some (dictSetVal t v))"
    using dict_map_add [OF ty _ e2 refl, of key] wf wf2 dict_type_okD(4) [OF ty]
    by (simp add: dict_wf_def)
  moreover have "dictSize d2 = Suc (dictSize d)"
    using dictSize_entries [OF wf] dictSize_entries [OF wf2] e2 by simp
  ultimately show ?thesis using run wf2 dict_map_None [OF no] by blast
qed

lemma dictAdd_ok:
  assumes "dict_type_ok t" "dict_wf t d" "dictSize d < dict_cap"
  shows "\<exists>d'. add_op t can junk d k v = Some (d', dict_map t d k = None) \<and> dict_wf t d' \<and>
    dict_map t d' = (if dict_map t d k = None
      then map_upd (same_key t) (dict_map t d) k (Some (dictSetVal t v)) else dict_map t d) \<and>
    dictSize d' \<le> Suc (dictSize d)"
proof (rule dictAddRaw_ok [OF assms, of can junk k])
  fix d' ref
  assume *: "dictAddRaw t can junk d k = Some (d', Existing ref)" "same_content t d d'" "ref_ok d' ref"
    "same_key t k (de_key (ref_entry d' ref))"
  then have m: "dict_map t d' = dict_map t d" "dictSize d' = dictSize d" "dict_wf t d'"
    using same_content_map [OF assms(1,2)] same_content_size [OF assms(2)]
    by (auto simp: same_content_def)
  have "dict_map t d' k = Some (de_val (ref_entry d' ref))"
    using dict_map_Some [OF assms(1) _ ref_entry_in [OF *(3)] *(4)] m(3) by (simp add: dict_wf_def)
  then show ?thesis using * m by (auto simp: add_op_def dictAdd_def)
next
  fix d' ref
  assume *: "dictAddRaw t can junk d k = Some (d', Added ref)" "dict_wf t d'" "ref_ok d' ref"
    "ref_entry d' ref = \<lparr>de_key = dictSetKey t k, de_val = junk\<rparr>"
    "entries_of d' = add_mset \<lparr>de_key = dictSetKey t k, de_val = junk\<rparr> (entries_of d)"
    "\<And>e. e \<in># entries_of d \<Longrightarrow> \<not> same_key t k (de_key e)"
  then show ?thesis
    using added_then_set [OF assms(1,2) *(2-6), of v] by (auto simp: add_op_def dictAdd_def)
qed

lemma map_upd_twice [simp]:
  "map_upd eqk (map_upd eqk m k v) k w = map_upd eqk m k w"
  by (auto simp: map_upd_def)

lemma dictReplace_ok:
  assumes "dict_type_ok t" "dict_wf t d" "dictSize d < dict_cap"
  shows "\<exists>d'. dictReplace t can junk d k v = Some (d', dict_map t d k = None, dict_map t d k) \<and>
    dict_wf t d' \<and> dict_map t d' = map_upd (same_key t) (dict_map t d) k (Some (dictSetVal t v)) \<and>
    dictSize d' \<le> Suc (dictSize d)"
proof (rule dictAddRaw_ok [OF assms, of can junk k])
  fix d1 ref
  assume *: "dictAddRaw t can junk d k = Some (d1, Existing ref)" "same_content t d d1" "ref_ok d1 ref"
    "same_key t k (de_key (ref_entry d1 ref))"
  then have m: "dict_map t d1 = dict_map t d" "dictSize d1 = dictSize d" "dict_wf t d1"
    using same_content_map [OF assms(1,2)] same_content_size [OF assms(2)]
    by (auto simp: same_content_def)
  then have u: "unique_keys t (entries_of d1)" by (simp add: dict_wf_def)
  define e where "e = ref_entry d1 ref"
  have some: "dict_map t d1 k = Some (de_val e)"
    using dict_map_Some [OF assms(1) u ref_entry_in [OF *(3)] *(4)] by (simp add: e_def)
  obtain d2 M where d2: "set_entry_val t d1 ref v = Some d2" "dict_wf t d2"
    "entries_of d1 = add_mset e M" "entries_of d2 = add_mset (e\<lparr>de_val := dictSetVal t v\<rparr>) M"
    using set_entry_val_ok [OF assms(1) m(3) *(3), of v] unfolding e_def by metis
  define dM where "dM = d1\<lparr>ht_table := (\<lambda>h. if h = 0 then [SOME xs. mset xs = M] else [])\<rparr>"
  have "mset (SOME xs. mset xs = M) = M" using ex_mset by (rule someI_ex)
  then have M: "entries_of dM = M" by (simp add: dM_def entries_of_def)
  have uM: "unique_keys t M" using unique_keys_remove(1) u d2(3) by metis
  have "dict_map t dM = map_upd (same_key t) (dict_map t d1) k None"
    by (rule dict_map_remove [OF assms(1) u]) (use d2(3) M *(4) in \<open>simp_all add: e_def\<close>)
  moreover have "dict_map t d2 =
      map_upd (same_key t) (dict_map t dM) k (Some (de_val (e\<lparr>de_val := dictSetVal t v\<rparr>)))"
    by (rule dict_map_add [OF assms(1) _ d2(4) M uM])
      (use d2(2) *(4) in \<open>simp_all add: e_def dict_wf_def\<close>)
  moreover have "dictSize d2 = dictSize d1"
    using dictSize_entries [OF m(3)] dictSize_entries [OF d2(2)] d2(3,4) by simp
  ultimately show ?thesis
    using * m d2(1,2) some get_entry_ok [OF *(3)] by (auto simp: dictReplace_def e_def)
next
  fix d' ref
  assume *: "dictAddRaw t can junk d k = Some (d', Added ref)" "dict_wf t d'" "ref_ok d' ref"
    "ref_entry d' ref = \<lparr>de_key = dictSetKey t k, de_val = junk\<rparr>"
    "entries_of d' = add_mset \<lparr>de_key = dictSetKey t k, de_val = junk\<rparr> (entries_of d)"
    "\<And>e. e \<in># entries_of d \<Longrightarrow> \<not> same_key t k (de_key e)"
  then show ?thesis
    using added_then_set [OF assms(1,2) *(2-6), of v] by (auto simp: dictReplace_def)
qed

lemma dictGenericDelete_ok:
  assumes ty: "dict_type_ok t" and wf: "dict_wf t d"
  obtains (absent) d' where "dictGenericDelete t d key = Some (d', None)" "same_content t d d'"
      "\<And>e. e \<in># entries_of d \<Longrightarrow> \<not> same_key t key (de_key e)"
  | (found) d' e where "dictGenericDelete t d key = Some (d', Some e)" "dict_wf t d'"
      "entries_of d = add_mset e (entries_of d')" "same_key t key (de_key e)"
proof (cases "dictSize d = 0")
  case True
  then show thesis
    using absent [of d] dictSize_entries [OF wf] wf by (simp add: dictGenericDelete_def same_content_def)
next
  case False
  obtain d1 where d1: "(if dictIsRehashing d then dictRehashStep t d else Some d) = Some d1"
    "same_content t d d1" by (rule rehash_prologue_ok [OF wf])
  then have wf1: "dict_wf t d1" and ent: "entries_of d1 = entries_of d" by (simp_all add: same_content_def)
  have "ht_size_exp d1 0 \<noteq> -1"
    using nonempty_allocated [OF wf1] False dictSize_entries [OF wf] ent by auto
  then show thesis
  proof (rule table_search_ok [OF ty wf1, of key 0])
    assume "table_search t d1 key [0, 1] 0 = Some (Inl (bucket_index t (ht_size_exp d1 (active_table d1)) key))"
      "\<And>e. e \<in># entries_of d1 \<Longrightarrow> \<not> same_key t key (de_key e)"
    then show thesis
      using absent [of d1] d1 False ent by (simp add: dictGenericDelete_def)
  next
    fix ref
    assume ts: "table_search t d1 key [0, 1] 0 = Some (Inr ref)" and ref: "ref_ok d1 ref"
      and sk: "same_key t key (de_key (ref_entry d1 ref))"
    obtain h i p where r: "ref = (h, i, p)" by (cases ref)
    define e b where "e = ref_entry d1 ref" and "b = take p (ht_table d1 h ! i) @ drop (Suc p) (ht_table d1 h ! i)"
    have h: "h < 2" "i < length (ht_table d1 h)" "p < length (ht_table d1 h ! i)" and e: "e = ht_table d1 h ! i ! p"
      using ref by (auto simp: ref_ok_def r e_def ref_entry_def)
    define d' where "d' = d1\<lparr>ht_table := (ht_table d1)(h := (ht_table d1 h)[i := b]),
      ht_used := (ht_used d1)(h := ht_used d1 h - 1)\<rparr>"
    have run: "dictGenericDelete t d key = Some (d', Some e)"
      using d1(1) False ts h by (simp add: dictGenericDelete_def r get_bucket_Some set_bucket_Some d'_def b_def e)
    have bb: "mset (ht_table d1 h ! i) = add_mset e (mset b)"
      using h(3) by (subst id_take_nth_drop [of p]) (simp_all add: b_def e)
    then have ent': "entries_of d = add_mset e (entries_of d')"
      using replace_bucket_entries [OF h(1,2), of d' b] ent by (simp add: d'_def)
    then have uniq: "unique_keys t (entries_of d')"
      using unique_keys_remove(1) [of t e "entries_of d'"] wf by (simp add: dict_wf_def)
    have tk: "table_ok t d1 h" using wf1 h(1) by (auto simp: dict_wf_def less_2_cases_iff)
    then have "length (ht_table d1 h ! i) \<le> ht_used d1 h"
      using h(2) by (auto simp: table_ok_def length_concat intro: elem_le_sum_list [of i "map length (ht_table d1 h)", simplified])
    then have "ht_used d1 h - 1 + length (ht_table d1 h ! i) = ht_used d1 h + length b"
      using h(3) by (simp add: b_def)
    moreover have "\<forall>f \<in> set b. bucket_index t (ht_size_exp d1 h) (de_key f) = i"
      using tk h(2) set_take_subset set_drop_subset by (fastforce simp: table_ok_def b_def)
    ultimately have "dict_wf t d'"
      using uniq by (intro replace_bucket_wf [OF wf1 h(1,2) d'_def]) (simp_all add: b_def)
    then show thesis using found [of d' e] run ent' sk by (simp add: e_def)
  qed
qed

lemma dictDelete_ok:
  assumes "dict_type_ok t" "dict_wf t d"
  shows "\<exists>d'. delete_op t d k = Some (d', dict_map t d k \<noteq> None) \<and> dict_wf t d' \<and>
    dict_map t d' = map_upd (same_key t) (dict_map t d) k None \<and> dictSize d' \<le> dictSize d"
proof (rule dictGenericDelete_ok [OF assms, of k])
  fix d'
  assume *: "dictGenericDelete t d k = Some (d', None)" "same_content t d d'"
    "\<And>e. e \<in># entries_of d \<Longrightarrow> \<not> same_key t k (de_key e)"
  have "dict_map t d k' = None" if "same_key t k' k" for k'
    using *(3) dict_map_None [of d t k'] dict_type_okD(1,3) [OF assms(1)] that by metis
  then have "map_upd (same_key t) (dict_map t d) k None = dict_map t d" by (auto simp: map_upd_def)
  then show ?thesis
    using * same_content_map [OF assms *(2)] same_content_size [OF assms(2) *(2)] dict_map_None [OF *(3)]
    by (auto simp: delete_op_def dictDelete_def same_content_def)
next
  fix d' e
  assume *: "dictGenericDelete t d k = Some (d', Some e)" "dict_wf t d'"
    "entries_of d = add_mset e (entries_of d')" "same_key t k (de_key e)"
  have u: "unique_keys t (entries_of d)" using assms(2) by (simp add: dict_wf_def)
  have "dict_map t d k = Some (de_val e)" using dict_map_Some [OF assms(1) u _ *(4)] *(3) by simp
  moreover have "dictSize d' \<le> dictSize d"
    using dictSize_entries [OF assms(2)] dictSize_entries [OF *(2)] *(3) by simp
  ultimately show ?thesis
    using *(1,2) dict_map_remove [OF assms(1) u *(3,4)] by (auto simp: delete_op_def dictDelete_def)
qed

lemma dictFind_ok:
  assumes ty: "dict_type_ok t" and wf: "dict_wf t d"
  obtains (absent) d' where "dictFind t d key = Some (d', None)" "same_content t d d'"
      "dict_map t d key = None"
  | (found) d' ref where "dictFind t d key = Some (d', Some ref)" "same_content t d d'" "ref_ok d' ref"
      "same_key t key (de_key (ref_entry d' ref))" "dict_map t d key = Some (de_val (ref_entry d' ref))"
proof (cases "dictSize d = 0")
  case True
  then have "dict_map t d key = None"
    using dictSize_entries [OF wf] by (intro dict_map_None) simp
  then show thesis
    using True absent [of d] wf by (simp add: dictFind_def same_content_def)
next
  case False
  obtain d1 where d1: "(if dictIsRehashing d then dictRehashStep t d else Some d) = Some d1"
    "same_content t d d1" by (rule rehash_prologue_ok [OF wf])
  then have wf1: "dict_wf t d1" and ent: "entries_of d1 = entries_of d" by (simp_all add: same_content_def)
  have "ht_size_exp d1 0 \<noteq> -1"
    using nonempty_allocated [OF wf1] False dictSize_entries [OF wf] ent by auto
  then show thesis
  proof (rule table_search_ok [OF ty wf1, of key 0])
    assume "table_search t d1 key [0, 1] 0 = Some (Inl (bucket_index t (ht_size_exp d1 (active_table d1)) key))"
      "\<And>e. e \<in># entries_of d1 \<Longrightarrow> \<not> same_key t key (de_key e)"
    then show thesis
      using absent [of d1] d1 False ent dict_map_None [of d t key] by (simp add: dictFind_def)
  next
    fix ref
    assume *: "table_search t d1 key [0, 1] 0 = Some (Inr ref)" "ref_ok d1 ref"
      "same_key t key (de_key (ref_entry d1 ref))"
    have "dict_map t d key = Some (de_val (ref_entry d1 ref))"
      using dict_map_Some [OF ty _ _ *(3), of d] ref_entry_in [OF *(2)] ent wf by (simp add: dict_wf_def)
    then show thesis
      using found [of d1 ref] d1 False * by (simp add: dictFind_def)
  qed
qed

lemma dictFetchValue_ok:
  assumes "dict_type_ok t" "dict_wf t d"
  shows "\<exists>d'. dictFetchValue t d k = Some (d', dict_map t d k) \<and> same_content t d d'"
  by (rule dictFind_ok [OF assms, of k]) (auto simp: dictFetchValue_def get_entry_ok)

section \<open>The map interface\<close>

text \<open>Housekeeping a caller may interleave with its operations.\<close>

datatype dict_maint = MRehash nat | MResize bool | MExpand nat | MTryExpand bool nat | MPause | MResume

fun run_maint :: "('k, 'v) dictType \<Rightarrow> dict_maint \<Rightarrow> ('k, 'v) dict \<Rightarrow> ('k, 'v) dict option" where
  "run_maint t (MRehash n) d = map_option fst (dictRehash t d n)"
| "run_maint t (MResize can) d = Some (fst (dictResize can d))"
| "run_maint t (MExpand sz) d = Some (fst (dictExpand d sz))"
| "run_maint t (MTryExpand fails sz) d = Some (fst (dictTryExpand fails d sz))"
| "run_maint t MPause d = Some (dictPauseRehashing d)"
| "run_maint t MResume d = Some (dictResumeRehashing d)"

lemma pause_irrelevant [simp]:
  "table_ok t (d\<lparr>pauserehash := x\<rparr>) h = table_ok t d h" "rehash_ok (d\<lparr>pauserehash := x\<rparr>) = rehash_ok d"
  "entries_of (d\<lparr>pauserehash := x\<rparr>) = entries_of d"
  by (simp_all add: table_ok_def rehash_ok_def entries_of_def dictIsRehashing_def)

lemma same_content_pause: "dict_wf t d \<Longrightarrow> same_content t d (d\<lparr>pauserehash := x\<rparr>)"
  by (simp add: same_content_def dict_wf_def)

lemma dictExpand_content: "dict_wf t d \<Longrightarrow> same_content t d (fst (dictExpand d sz))"
  using dictExpand_ok(1) by (metis prod.collapse)

lemma dict_maint_ok:
  assumes "dict_wf t d"
  shows "\<exists>d'. run_maint t m d = Some d' \<and> same_content t d d'"
proof (cases m)
  case (MRehash n)
  then show ?thesis
    using dictRehash_ok [OF assms, of n] by (auto simp: rehash_step_rel_def same_content_def)
next
  case (MResize can)
  then show ?thesis
    using dictExpand_content [OF assms] assms by (auto simp: dictResize_def Let_def same_content_def)
next
  case (MTryExpand fails sz)
  then show ?thesis
    using dictExpand'_ok [OF assms, of True fails sz]
    by (cases "dictExpand' True fails d sz") (simp add: dictTryExpand_def)
qed (use dictExpand_content [OF assms] same_content_pause [OF assms] in
    \<open>simp_all add: dictPauseRehashing_def dictResumeRehashing_def\<close>)

lemma same_content_maint:
  assumes "dict_type_ok t" "dict_wf t d" "same_content t d d'"
  shows "dict_wf t d'" "dict_map t d' = dict_map t d" "dictSize d' \<le> dictSize d"
  using assms same_content_map [OF assms] same_content_size [OF assms(2,3)]
  by (simp_all add: same_content_def)

interpretation dictm: kv_map "same_key t" "dictSetVal t" "\<lambda>d. dict_type_ok t \<and> dict_wf t d" "dict_map t"
    dictSize dict_cap "add_op t can junk" "replace_op t can junk" "delete_op t" "dictFetchValue t" "run_maint t"
  for t :: "('k, 'v) dictType" and can junk
proof (unfold_locales, goal_cases)
  case (1 d k v)
  then show ?case using dictAdd_ok [of t d can junk k v] by auto
next
  case (2 d k v)
  then show ?case using dictReplace_ok [of t d can junk k v] by (auto simp: replace_op_def)
next
  case (3 d k)
  then show ?case using dictDelete_ok [of t d k] by auto
next
  case (4 d k)
  then show ?case
    using dictFetchValue_ok [of t d k] same_content_maint [of t d] by auto
next
  case (5 d m)
  then show ?case
    using dict_maint_ok [of t d m] same_content_maint [of t d] by auto
qed

lemma dictInit_ok: "dict_wf t (dictInit d0)" "dict_map t (dictInit d0) = Map.empty" "dictSize (dictInit d0) = 0"
proof -
  have e: "entries_of (dictInit d0) = {#}" by (simp add: entries_of_def dictInit_def dictReset_def)
  then show wf: "dict_wf t (dictInit d0)"
    by (simp add: dict_wf_def unique_keys_def)
      (simp add: table_ok_def rehash_ok_def dictInit_def dictReset_def dictIsRehashing_def DICTHT_SIZE_def)
  show "dict_map t (dictInit d0) = Map.empty" using e by (intro ext dict_map_None) simp
  show "dictSize (dictInit d0) = 0" using e dictSize_entries [OF wf] by simp
qed

definition dict_steps where
  "dict_steps t can junk = run_steps (kv_step (add_op t can junk) (replace_op t can junk) (delete_op t)
     (dictFetchValue t) (run_maint t))"

section \<open>Properties\<close>

text \<open>
  C1. Starting from a fresh dictionary, any sequence of \<open>dictAdd\<close>, \<open>dictReplace\<close>, \<open>dictDelete\<close> and
  \<open>dictFetchValue\<close> calls, interleaved in any way with rehash steps, resizes, expansions (with or without
  allocation failure) and pauses of the rehashing, runs without a bad table access or failed assertion,
  answers exactly as a mathematical map does, and ends in a well-formed dictionary that represents that
  map. The callbacks are only required to make the comparison an equivalence that the hash respects.
\<close>

theorem dict_run_refines_map:
  assumes "dict_type_ok t" "length ops \<le> dict_cap"
  shows "\<exists>d. dict_steps t can junk (dictInit d0) ops =
      Some (d, snd (kv_spec (same_key t) (dictSetVal t) Map.empty ops)) \<and>
    dict_wf t d \<and> dict_map t d = fst (kv_spec (same_key t) (dictSetVal t) Map.empty ops)"
  using dictm.run_refines [of t "dictInit d0" ops can junk] assms
  by (simp add: dictInit_ok dict_steps_def)

definition nat_type :: "(nat, nat) dictType" where
  "nat_type = \<lparr>hashFunction = (\<lambda>n. of_nat n * 5), keyDup = None, valDup = None,
     keyCompare = Some (\<lambda>a b. a = b), expandAllowed = None\<rparr>"

definition blank_dict :: "(nat, nat) dict" where
  "blank_dict = \<lparr>ht_table = (\<lambda>h. [[]]), ht_used = (\<lambda>h. 7), rehashidx = 3, pauserehash = 9, ht_size_exp = (\<lambda>h. 0)\<rparr>"

lemma nat_type_ok: "dict_type_ok nat_type"
  by (simp add: dict_type_ok_def same_key_def nat_type_def dictSetKey_def)

theorem dict_run_refines_map_witness:
  "\<exists>d. dict_steps nat_type True 0 (dictInit blank_dict)
      [KAdd 1 10, KAdd 2 20, KMaint (MExpand 9), KReplace 1 11, KDelete 2, KFetch 1, KFetch 2] =
      Some (d, [RBool True, RBool True, RNone, RBool False, RBool True, RVal (Some 11), RVal None]) \<and>
    dict_wf nat_type d"
  using dict_run_refines_map [OF nat_type_ok, of
    "[KAdd 1 10, KAdd 2 20, KMaint (MExpand 9), KReplace 1 11, KDelete 2, KFetch 1, KFetch 2]" True 0 blank_dict]
  by (auto simp: dict_cap_def map_upd_def same_key_def nat_type_def dictSetVal_def)

section \<open>Rehashing finishes, clearing frees everything\<close>

fun dictRehash_calls :: "('k, 'v) dictType \<Rightarrow> ('k, 'v) dict \<Rightarrow> nat \<Rightarrow> nat \<Rightarrow> ('k, 'v) dict option" where
  "dictRehash_calls t d n 0 = Some d"
| "dictRehash_calls t d n (Suc m) = do { (d', _) \<leftarrow> dictRehash t d n; dictRehash_calls t d' n m }"

lemma dictRehash_calls_done:
  assumes "dict_wf t d" "\<not> dictIsRehashing d"
  shows "dictRehash_calls t d n m = Some d"
  using assms by (induction m) (simp_all add: dictRehash_def)

text \<open>Table 0 still has entries, so the rehash index is inside it.\<close>

lemma rehashidx_bound:
  assumes "dict_wf t d" "dictIsRehashing d" "ht_used d 0 \<noteq> 0"
  shows "rehashidx d < int (DICTHT_SIZE (ht_size_exp d 0))"
proof (rule ccontr)
  assume "\<not> ?thesis"
  then have "\<forall>i < length (ht_table d 0). ht_table d 0 ! i = []"
    using assms(1,2) by (auto simp: dict_wf_def rehash_ok_def table_ok_def)
  then have "concat (ht_table d 0) = []" by (auto simp: in_set_conv_nth)
  then show False using assms(1,3) by (auto simp: dict_wf_def table_ok_def)
qed

lemma dictRehash_calls_finish:
  assumes "dict_wf t d" "n > 0" "dictIsRehashing d \<Longrightarrow> int (DICTHT_SIZE (ht_size_exp d 0)) < rehashidx d + int m"
    "m > 0"
  shows "\<exists>d'. dictRehash_calls t d n m = Some d' \<and> same_content t d d' \<and> \<not> dictIsRehashing d'"
  using assms
proof (induction m arbitrary: d)
  case (Suc m)
  obtain d1 more where d1: "dictRehash t d n = Some (d1, more)" "rehash_step_rel t d d1"
    "dictIsRehashing d1 \<longrightarrow> dictIsRehashing d \<and> rehashidx d < rehashidx d1 \<and>
      ht_size_exp d1 = ht_size_exp d \<and> ht_used d1 0 \<noteq> 0"
    using dictRehash_ok [OF Suc.prems(1), of n] Suc.prems(2) by auto
  have wf1: "dict_wf t d1" and con: "same_content t d d1"
    using d1(2) by (simp_all add: rehash_step_rel_def same_content_def)
  show ?case
  proof (cases "dictIsRehashing d1")
    case False
    then show ?thesis using d1(1) con dictRehash_calls_done [OF wf1] by simp
  next
    case True
    then have "int (DICTHT_SIZE (ht_size_exp d1 0)) < rehashidx d1 + int m"
      using Suc.prems(3) d1(3) by auto
    moreover have "m > 0" using calculation rehashidx_bound [OF wf1 True] d1(3) True by auto
    ultimately obtain d' where "dictRehash_calls t d1 n m = Some d'" "same_content t d1 d'" "\<not> dictIsRehashing d'"
      using Suc.IH [OF wf1 Suc.prems(2)] by auto
    then show ?thesis using d1(1) con same_content_trans by auto
  qed
qed simp

text \<open>
  C24. Incremental rehashing terminates: in a well-formed dictionary, calling \<open>dictRehash\<close> once more often
  than the old table has buckets completes any rehash in progress, without faults and with the same
  entries, however few steps \<open>n\<close> each call may take.
\<close>

theorem dictRehash_terminates:
  assumes "dict_wf t d" "n > 0"
  shows "\<exists>d'. dictRehash_calls t d n (DICTHT_SIZE (ht_size_exp d 0) + 1) = Some d' \<and>
    dict_wf t d' \<and> entries_of d' = entries_of d \<and> \<not> dictIsRehashing d'"
proof -
  have "dictIsRehashing d \<Longrightarrow> 0 \<le> rehashidx d" using assms(1) by (simp add: dict_wf_def rehash_ok_def)
  then show ?thesis
    using dictRehash_calls_finish [OF assms, of "DICTHT_SIZE (ht_size_exp d 0) + 1"]
    by (auto simp: same_content_def)
qed

text \<open>A dictionary in the middle of a rehash from four to eight buckets.\<close>

definition sample_dict :: "(nat, nat) dict" where
  "sample_dict = \<lparr>ht_table = (\<lambda>h. if h = 0 then [[], [], [\<lparr>de_key = 2, de_val = 20\<rparr>], []]
       else if h = 1 then [[], [], [], [], [], [\<lparr>de_key = 1, de_val = 10\<rparr>], [], []] else []),
     ht_used = (\<lambda>h. 1), rehashidx = 1, pauserehash = 0, ht_size_exp = (\<lambda>h. if h = 0 then 2 else 3)\<rparr>"

lemma sample_dict_wf: "dict_wf nat_type sample_dict"
proof -
  have b: "bucket_index nat_type 2 2 = 2" "bucket_index nat_type 3 1 = 5"
    by (simp_all add: bucket_index_mod nat_type_def)
  have "table_ok nat_type sample_dict 0" "table_ok nat_type sample_dict 1"
    using b by (simp_all add: table_ok_def sample_dict_def DICTHT_SIZE_def nth_Cons')
  moreover have "rehash_ok sample_dict"
    by (simp add: rehash_ok_def sample_dict_def dictIsRehashing_def nth_Cons')
  moreover have "unique_keys nat_type (entries_of sample_dict)"
    by (simp add: unique_keys_def entries_of_def sample_dict_def same_key_def nat_type_def)
  ultimately show ?thesis by (simp add: dict_wf_def)
qed

theorem dictRehash_terminates_witness:
  "\<exists>d'. dictRehash_calls nat_type sample_dict 1 5 = Some d' \<and> dict_wf nat_type d' \<and>
    entries_of d' = entries_of sample_dict \<and> \<not> dictIsRehashing d'"
  using dictRehash_terminates [OF sample_dict_wf, of 1] by (simp add: sample_dict_def DICTHT_SIZE_def)

lemma dictClear_loop_all: "length (concat bs) = n \<Longrightarrow> dictClear_loop bs n = concat bs"
proof (induction bs arbitrary: n)
  case (Cons b bs)
  then show ?case
    by (cases "n = 0") (auto simp del: length_concat)
qed simp

text \<open>
  C37. \<open>dictEmpty\<close> frees every entry of both tables exactly once, although its loops stop as soon as the
  counter of used entries is zero, and leaves a well-formed empty dictionary.
\<close>

theorem dictEmpty_frees_all:
  assumes "dict_wf t d"
  shows "mset (snd (dictEmpty d)) = entries_of d \<and> dict_wf t (fst (dictEmpty d)) \<and>
    entries_of (fst (dictEmpty d)) = {#} \<and> \<not> dictIsRehashing (fst (dictEmpty d))"
proof -
  have "table_ok t d h \<Longrightarrow> snd (dictClear d h) = concat (ht_table d h)" for h
    by (simp add: dictClear_def table_ok_def dictClear_loop_all)
  then have f: "snd (dictClear d 0) = concat (ht_table d 0)"
    "snd (dictClear (dictReset d 0) 1) = concat (ht_table d 1)"
    using assms by (auto simp: dict_wf_def dictClear_def dictReset_def table_ok_def dictClear_loop_all)
  have st: "fst (dictEmpty d) = dictInit d"
    by (simp add: dictEmpty_def dictClear_def dictInit_def)
  have "snd (dictEmpty d) = concat (ht_table d 0) @ concat (ht_table d 1)"
    using f by (simp add: dictEmpty_def dictClear_def)
  then show ?thesis
    using dictInit_ok(1) [of t d] unfolding st
    by (simp add: entries_of_def dictInit_def dictReset_def dictIsRehashing_def)
qed

theorem dictEmpty_frees_all_witness:
  "mset (snd (dictEmpty sample_dict)) = {#\<lparr>de_key = 1, de_val = 10\<rparr>, \<lparr>de_key = 2, de_val = 20\<rparr>#} \<and>
    dict_wf nat_type (fst (dictEmpty sample_dict))"
  using dictEmpty_frees_all [OF sample_dict_wf]
  by (simp add: entries_of_def) (simp add: sample_dict_def add_mset_commute)

end
