(* ===== verification/DictScan.thy ===== *)
theory DictScan
  imports DictMap
begin

text \<open>
  \<open>dictScan\<close>, the stateless cursor iteration of \<^verbatim>\<open>redis/src/dict.c\<close>, with its bit-reversed cursor. The
  callback is an observer: a call yields the entries it was given, in order. The main result is the
  guarantee the source states: whatever happens to the table between the calls (expansions, shrinks,
  rehash steps), an element that stays in the dictionary is returned before the cursor is back at 0.
\<close>

section \<open>Model\<close>

text \<open>The loop of \<open>rev\<close>: \<open>s\<close> halves, the mask selects the low half of every group of bits.\<close>

function rev_loop :: "nat \<Rightarrow> 64 word \<Rightarrow> 64 word \<Rightarrow> 64 word" where
  "rev_loop s m v =
     (let s = s div 2 in
      if s > 0 then
        let m = m XOR push_bit s m
        in rev_loop s m ((drop_bit s v AND m) OR (push_bit s v AND NOT m))
      else v)"
  by pat_completeness auto
termination by (relation "measure (\<lambda>(s, _, _). s)") auto

definition rev' :: "64 word \<Rightarrow> 64 word" where
  "rev' v = rev_loop 64 (NOT 0) v"

declare rev_loop.simps [simp del]

text \<open>\<open>v |= ~m; v = rev(v); v++; v = rev(v);\<close>\<close>

definition scan_next :: "64 word \<Rightarrow> 64 word \<Rightarrow> 64 word" where
  "scan_next m v = (let v = v OR NOT m; v = rev' v; v = v + 1 in rev' v)"

text \<open>The \<open>do ... while (v & (m0 ^ m1))\<close> over the expansions of the cursor in the larger table.\<close>

partial_function (option) scan_loop ::
    "('k, 'v) dict \<Rightarrow> nat \<Rightarrow> 64 word \<Rightarrow> 64 word \<Rightarrow> 64 word \<Rightarrow> (64 word \<times> ('k, 'v) bucket) option" where
  "scan_loop d htidx1 m0 m1 v =
     do {
       de \<leftarrow> get_bucket d htidx1 (unat (v AND m1));
       let v' = scan_next m1 v;
       if v' AND (m0 XOR m1) \<noteq> 0 then do {
         (v'', es) \<leftarrow> scan_loop d htidx1 m0 m1 v';
         Some (v'', de @ es)
       } else Some (v', de)
     }"

definition dictScan :: "('k, 'v) dict \<Rightarrow> 64 word \<Rightarrow> (('k, 'v) dict \<times> 64 word \<times> ('k, 'v) bucket) option" where
  "dictScan d v =
     (if dictSize d = 0 then Some (d, 0, [])
      else
        let d = dictPauseRehashing d in
        if \<not> dictIsRehashing d then
          let m0 = DICTHT_SIZE_MASK (ht_size_exp d 0) in do {
            de \<leftarrow> get_bucket d 0 (unat (v AND m0));
            Some (dictResumeRehashing d, scan_next m0 v, de)
          }
        else
          let (htidx0, htidx1) =
                (if DICTHT_SIZE (ht_size_exp d 0) > DICTHT_SIZE (ht_size_exp d 1) then (1, 0) else (0, 1));
              m0 = DICTHT_SIZE_MASK (ht_size_exp d htidx0);
              m1 = DICTHT_SIZE_MASK (ht_size_exp d htidx1)
          in do {
            de \<leftarrow> get_bucket d htidx0 (unat (v AND m0));
            (v', es) \<leftarrow> scan_loop d htidx1 m0 m1 v;
            Some (dictResumeRehashing d, v', de @ es)
          })"

section \<open>Bit reversal\<close>

definition rstep :: "nat \<Rightarrow> 64 word \<Rightarrow> 64 word \<Rightarrow> 64 word" where
  "rstep s m v = (drop_bit s v AND m) OR (push_bit s v AND NOT m)"

lemma rev_loop_step:
  "s div 2 > 0 \<Longrightarrow> rev_loop s m v =
     rev_loop (s div 2) (m XOR push_bit (s div 2) m) (rstep (s div 2) (m XOR push_bit (s div 2) m) v)"
  by (subst rev_loop.simps) (simp add: Let_def rstep_def)

lemma rev_unroll: "rev' v = rstep 1 0x5555555555555555 (rstep 2 0x3333333333333333 (rstep 4 0x0F0F0F0F0F0F0F0F
   (rstep 8 0x00FF00FF00FF00FF (rstep 16 0x0000FFFF0000FFFF (rstep 32 0x00000000FFFFFFFF v)))))"
  unfolding rev'_def
  by (simp add: rev_loop_step push_bit_eq_mult) (subst rev_loop.simps, simp)

lemma all_less_64: "(\<forall>n < 64::nat. P n) \<longleftrightarrow> list_all P [0,1,2,3,4,5,6,7,8,9,10,11,12,13,14,15,16,17,18,19,20,21,22,23,24,25,26,27,28,29,30,31,32,33,34,35,36,37,38,39,40,41,42,43,44,45,46,47,48,49,50,51,52,53,54,55,56,57,58,59,60,61,62,63]"
proof -
  have "[0..<64] = [0,1,2,3,4,5,6,7,8,9,10,11,12,13,14,15,16,17,18,19,20,21,22,23,24,25,26,27,28,29,30,31,32,33,34,35,36,37,38,39,40,41,42,43,44,45,46,47,48,49,50,51,52,53,54,55,56,57,58,59,60,61,62,63]" by code_simp
  then have "n < 64 \<longleftrightarrow> n \<in> set [0,1,2,3,4,5,6,7,8,9,10,11,12,13,14,15,16,17,18,19,20,21,22,23,24,25,26,27,28,29,30,31,32,33,34,35,36,37,38,39,40,41,42,43,44,45,46,47,48,49,50,51,52,53,54,55,56,57,58,59,60,61,62,63]" for n :: nat by (metis atLeastLessThan_iff set_upt zero_le)
  then show ?thesis unfolding list_all_iff by blast
qed

lemma bit_rstep: "bit (rstep s m v) n \<longleftrightarrow>
  (if bit m n then bit v (s + n) else n < 64 \<and> s \<le> n \<and> bit v (n - s))"
  by (auto simp: rstep_def bit_simps)

definition swap_pos :: "nat \<Rightarrow> nat \<Rightarrow> nat" where
  "swap_pos s n = (if even (n div s) then n + s else n - s)"

lemma bit_rstep_masks:
  "\<forall>n < 64. bit (0x00000000FFFFFFFF :: 64 word) n \<longleftrightarrow> even (n div 32)"
  "\<forall>n < 64. bit (0x0000FFFF0000FFFF :: 64 word) n \<longleftrightarrow> even (n div 16)"
  "\<forall>n < 64. bit (0x00FF00FF00FF00FF :: 64 word) n \<longleftrightarrow> even (n div 8)"
  "\<forall>n < 64. bit (0x0F0F0F0F0F0F0F0F :: 64 word) n \<longleftrightarrow> even (n div 4)"
  "\<forall>n < 64. bit (0x3333333333333333 :: 64 word) n \<longleftrightarrow> even (n div 2)"
  "\<forall>n < 64. bit (0x5555555555555555 :: 64 word) n \<longleftrightarrow> even (n div 1)"
  unfolding all_less_64 by simp_all

lemma bit_rstep_swap:
  assumes "\<forall>n < 64. bit m n \<longleftrightarrow> even (n div s)" "n < 64" "0 < s"
  shows "bit (rstep s m v) n = bit v (swap_pos s n)"
proof -
  have "s \<le> n" if "odd (n div s)"
    using that by (metis div_less even_zero not_less)
  then show ?thesis using assms by (auto simp: bit_rstep swap_pos_def add.commute)
qed


lemma swap_pos_all:
  "\<forall>n < 64. swap_pos 1 n < 64 \<and> swap_pos 2 (swap_pos 1 n) < 64 \<and> swap_pos 4 (swap_pos 2 (swap_pos 1 n)) < 64 \<and>
    swap_pos 8 (swap_pos 4 (swap_pos 2 (swap_pos 1 n))) < 64 \<and>
    swap_pos 16 (swap_pos 8 (swap_pos 4 (swap_pos 2 (swap_pos 1 n)))) < 64 \<and>
    swap_pos 32 (swap_pos 16 (swap_pos 8 (swap_pos 4 (swap_pos 2 (swap_pos 1 n))))) = 63 - n"
  unfolding all_less_64 by code_simp

lemma bit_rev:
  assumes "n < 64"
  shows "bit (rev' v) n = bit v (63 - n)"
proof -
  note sw = swap_pos_all [rule_format, OF assms]
  note st = bit_rstep_swap [OF bit_rstep_masks(6) assms] bit_rstep_swap [OF bit_rstep_masks(5)]
    bit_rstep_swap [OF bit_rstep_masks(4)] bit_rstep_swap [OF bit_rstep_masks(3)]
    bit_rstep_swap [OF bit_rstep_masks(2)] bit_rstep_swap [OF bit_rstep_masks(1)]
  show ?thesis
    by (simp only: rev_unroll st sw zero_less_numeral zero_less_one)
qed

section \<open>The cursor as a reversed number\<close>

text \<open>
  Reversed, a cursor is a position in \<open>0 .. 2^64\<close>; the bucket a cursor selects in a table of exponent \<open>e\<close>
  holds the hashes whose reversal lies in the same aligned block of \<open>2^(64-e)\<close> positions.
\<close>

definition rpos :: "64 word \<Rightarrow> nat" where "rpos v = unat (rev' v)"

lemma bit_rev_iff: "bit (rev' v) n \<longleftrightarrow> n < 64 \<and> bit v (63 - n)"
  using bit_rev [of n v] bit_imp_le_length [of "rev' v" n] by auto

lemma bit_64: "bit (v :: 64 word) n \<Longrightarrow> n < 64"
  using bit_imp_le_length [of v n] by simp

lemma rev_rev [simp]: "rev' (rev' v) = v"
  by (rule bit_word_eqI) (simp add: bit_rev)

lemma rpos_less [simp]: "rpos v < 2 ^ 64"
  unfolding rpos_def using unsigned_less [of "rev' v"] by simp

lemma rpos_0 [simp]: "rpos v = 0 \<longleftrightarrow> v = 0"
proof -
  have "rev' 0 = 0" by (rule bit_word_eqI) (simp add: bit_rev)
  then show ?thesis unfolding rpos_def by (metis rev_rev unat_eq_zero)
qed

lemma rev_or_not_mask: "e \<le> 64 \<Longrightarrow> rev' (v OR NOT (mask e)) = rev' v OR mask (64 - e)"
  by (rule bit_word_eqI) (auto simp: bit_rev bit_simps)

lemma unat_or_mask: "k \<le> 64 \<Longrightarrow> unat ((w :: 64 word) OR mask k) = unat w div 2 ^ k * 2 ^ k + (2 ^ k - 1)"
proof -
  assume k: "k \<le> 64"
  have "unat (w OR mask k) = unat w OR mask k"
    using k by (intro bit_eqI) (auto simp: bit_simps bit_unsigned_iff)
  also have "\<dots> = push_bit k (drop_bit k (unat w)) OR mask k"
    by (rule bit_eqI) (auto simp: bit_simps)
  also have "\<dots> = push_bit k (drop_bit k (unat w)) + mask k"
    by (subst disjunctive_add) (auto simp: bit_simps)
  finally show ?thesis by (simp add: push_bit_eq_mult drop_bit_eq_div mask_eq_exp_minus_1)
qed

lemma rpos_scan_next:
  assumes "e \<le> 64"
  shows "rpos (scan_next (mask e) v) = (rpos v div 2 ^ (64 - e) + 1) * 2 ^ (64 - e) mod 2 ^ 64"
proof -
  define B :: nat where "B = 2 ^ (64 - e)"
  have "rpos (scan_next (mask e) v) = (unat (rev' (v OR NOT (mask e))) + 1) mod 2 ^ 64"
    by (simp add: rpos_def scan_next_def unat_word_ariths)
  also have "unat (rev' (v OR NOT (mask e))) + 1 = (rpos v div B + 1) * B"
    using assms by (simp add: rev_or_not_mask unat_or_mask rpos_def B_def algebra_simps)
  finally show ?thesis by (simp add: B_def)
qed

lemma same_bucket_iff:
  assumes "e \<le> 64"
  shows "v AND mask e = w AND mask e \<longleftrightarrow> rpos v div 2 ^ (64 - e) = rpos w div 2 ^ (64 - e)"
proof -
  have "rpos x div 2 ^ k = unat (drop_bit k (rev' x))" for x k
    by (simp add: rpos_def unat_drop_bit_eq flip: drop_bit_eq_div)
  then have "rpos v div 2 ^ (64 - e) = rpos w div 2 ^ (64 - e) \<longleftrightarrow>
      drop_bit (64 - e) (rev' v) = drop_bit (64 - e) (rev' w)"
    by (simp only: unsigned_word_eqI word_unat_eq_iff)
  also have "\<dots> \<longleftrightarrow> (\<forall>n < e. bit v n = bit w n)"
  proof
    assume eq: "drop_bit (64 - e) (rev' v) = drop_bit (64 - e) (rev' w)"
    show "\<forall>n < e. bit v n = bit w n"
    proof (intro allI impI)
      fix n
      assume "n < e"
      then show "bit v n = bit w n"
        using arg_cong [OF eq, of "\<lambda>x. bit x (e - 1 - n)"] assms by (simp add: bit_simps bit_rev)
    qed
  next
    assume "\<forall>n < e. bit v n = bit w n"
    then show "drop_bit (64 - e) (rev' v) = drop_bit (64 - e) (rev' w)"
      using assms by (intro bit_word_eqI) (simp add: bit_simps bit_rev_iff, fastforce)
  qed
  also have "\<dots> \<longleftrightarrow> v AND mask e = w AND mask e"
    using assms by (auto simp: bit_eq_iff bit_simps dest: bit_64)
  finally show ?thesis by simp
qed

text \<open>The loop condition: on a multiple of the larger table's block, the tested bits are zero exactly on
  a multiple of the smaller table's block.\<close>

lemma loop_test_iff:
  assumes "e0 \<le> e1" "e1 \<le> 64" "2 ^ (64 - e1) dvd rpos v"
  shows "v AND (mask e0 XOR mask e1) = 0 \<longleftrightarrow> 2 ^ (64 - e0) dvd rpos v"
proof -
  have bits: "2 ^ k dvd rpos v \<longleftrightarrow> (\<forall>n < 64. 63 < n + k \<longrightarrow> \<not> bit v n)" for k
  proof -
    have "2 ^ k dvd rpos v \<longleftrightarrow> take_bit k (rpos v) = 0" by (simp add: take_bit_eq_0_iff)
    also have "\<dots> \<longleftrightarrow> (\<forall>m < k. \<not> bit (rev' v) m)"
      by (auto simp: bit_eq_iff bit_simps rpos_def bit_unsigned_iff dest: bit_64)
    also have "\<dots> \<longleftrightarrow> (\<forall>n < 64. 63 < n + k \<longrightarrow> \<not> bit v n)"
    proof (intro iffI allI impI)
      fix n assume "\<forall>m < k. \<not> bit (rev' v) m" "n < 64" "63 < n + k"
      then show "\<not> bit v n" using bit_rev_iff [of v "63 - n"] by auto
    next
      fix m assume *: "\<forall>n < 64. 63 < n + k \<longrightarrow> \<not> bit v n" "m < k"
      then show "\<not> bit (rev' v) m" using *(1) [rule_format, of "63 - m"] bit_rev_iff [of v m] by auto
    qed
    finally show ?thesis .
  qed
  have "v AND (mask e0 XOR mask e1) = 0 \<longleftrightarrow> (\<forall>n < 64. e0 \<le> n \<and> n < e1 \<longrightarrow> \<not> bit v n)"
    using assms(1,2) by (auto simp: bit_eq_iff bit_simps not_less)
  moreover have "63 < n + (64 - e) \<longleftrightarrow> e \<le> n" if "e \<le> 64" for n e :: nat using that by auto
  ultimately show ?thesis
    using assms(1,2) assms(3) unfolding bits by (simp add: le_trans [OF assms(1,2)]) (meson not_less)
qed

section \<open>What one call covers\<close>

definition hpos :: "('k, 'v) dictType \<Rightarrow> ('k, 'v) dictEntry \<Rightarrow> nat" where
  "hpos t e = rpos (hashFunction t (de_key e))"

lemma cursor_bucket:
  assumes "table_ok t d h" "ht_size_exp d h = int e" "e \<le> 60"
  shows "get_bucket d h (unat (v AND mask e)) = Some (ht_table d h ! unat (v AND mask e))"
    "set (ht_table d h ! unat (v AND mask e)) =
      {x \<in> set (concat (ht_table d h)). hpos t x div 2 ^ (64 - e) = rpos v div 2 ^ (64 - e)}"
proof -
  let ?i = "unat (v AND mask e)"
  have m: "DICTHT_SIZE_MASK (ht_size_exp d h) = mask e" by (simp add: assms(2) mask_as_mask)
  have "?i < 2 ^ e"
    using assms(3) by (simp add: unsigned_take_bit_eq flip: take_bit_eq_mask)
  then have i: "?i < length (ht_table d h)" using assms(1,2) by (simp add: table_ok_def)
  then show "get_bucket d h ?i = Some (ht_table d h ! ?i)" by (rule get_bucket_Some)
  have eq: "bucket_index t (ht_size_exp d h) (de_key x) = ?i \<longleftrightarrow> hpos t x div 2 ^ (64 - e) = rpos v div 2 ^ (64 - e)" for x
    using same_bucket_iff [of e "hashFunction t (de_key x)" v] assms(3)
    by (simp add: bucket_index_def m hpos_def word_unat_eq_iff)
  have at: "x \<in> set (ht_table d h ! ?i) \<longleftrightarrow> x \<in> set (concat (ht_table d h)) \<and>
      bucket_index t (ht_size_exp d h) (de_key x) = ?i" for x
    unfolding in_concat_nth using assms(1) i by (auto simp: table_ok_def)
  show "set (ht_table d h ! ?i) =
      {x \<in> set (concat (ht_table d h)). hpos t x div 2 ^ (64 - e) = rpos v div 2 ^ (64 - e)}"
    using at eq by auto
qed

lemma block_bounds:
  fixes r B :: nat
  assumes "0 < B"
  shows "r div B * B \<le> r" "r < (r div B + 1) * B"
    "q div B = r div B \<longleftrightarrow> r div B * B \<le> q \<and> q < (r div B + 1) * B"
proof -
  show "r div B * B \<le> r" by simp
  show "r < (r div B + 1) * B" using assms by (simp add: dividend_less_div_times)
  show "q div B = r div B \<longleftrightarrow> r div B * B \<le> q \<and> q < (r div B + 1) * B"
    using assms by (metis div_less_iff_less_mult less_eq_div_iff_mult_less_eq less_Suc_eq_le Suc_eq_plus1 eq_iff)
qed

lemma block_top_le:
  assumes "e \<le> 64"
  shows "(rpos v div 2 ^ (64 - e) + 1) * 2 ^ (64 - e) \<le> 2 ^ 64"
proof -
  define B :: nat where "B = 2 ^ (64 - e)"
  have "2 ^ e * B = 2 ^ 64" using assms by (simp add: B_def flip: power_add)
  moreover have "rpos v div B < 2 ^ e"
    using rpos_less [of v] calculation by (simp add: div_less_iff_less_mult B_def)
  ultimately show ?thesis unfolding B_def [symmetric] by (metis Suc_eq_plus1 Suc_leI mult_le_mono1)
qed

lemma cursor_covers:
  assumes "table_ok t d h" "ht_size_exp d h = int e" "e \<le> 60" "x \<in> set (concat (ht_table d h))"
    "rpos v \<le> hpos t x" "hpos t x < (rpos v div 2 ^ (64 - e) + 1) * 2 ^ (64 - e)"
  shows "x \<in> set (ht_table d h ! unat (v AND mask e))"
proof -
  define B :: nat where "B = 2 ^ (64 - e)"
  have pos: "0 < B" by (simp add: B_def)
  have "hpos t x div B = rpos v div B"
    unfolding block_bounds(3) [OF pos]
    using assms(5) assms(6) [folded B_def] block_bounds(1) [OF pos, of "rpos v"] by (intro conjI; linarith)
  then show ?thesis unfolding cursor_bucket(2) [OF assms(1-3)] B_def using assms(4) by blast
qed

text \<open>Blocks of two sizes, the smaller dividing the larger.\<close>

lemma block_arith:
  fixes r B0 B1 W :: nat
  assumes "0 < B1" "0 < B0" "B1 dvd B0" "B0 dvd W"
  defines "nx \<equiv> (r div B1 + 1) * B1" and "tp \<equiv> (r div B0 + 1) * B0"
  shows "r < nx" "r < tp" "nx \<le> tp" "B1 dvd nx mod W" "B0 dvd tp mod W"
    "nx \<noteq> tp \<Longrightarrow> nx div B0 = r div B0" "nx \<noteq> tp \<Longrightarrow> \<not> B0 dvd nx"
proof -
  show lt: "r < nx" "r < tp" using block_bounds(2) assms(1,2) by (simp_all add: nx_def tp_def)
  show "B1 dvd nx mod W" by (metis assms(3,4) dvd_mod dvd_trans dvd_triv_right nx_def)
  show "B0 dvd tp mod W" by (metis assms(4) dvd_mod dvd_triv_right tp_def)
  have "B1 dvd tp" by (metis assms(3) dvd_trans dvd_triv_right tp_def)
  then obtain k where k: "tp = k * B1" by (metis dvdE mult.commute)
  then have "r div B1 < k" using lt(2) assms(1) by (simp add: div_less_iff_less_mult)
  then have "(r div B1 + 1) * B1 \<le> k * B1" by (intro mult_le_mono1) simp
  then show le: "nx \<le> tp" using k by (simp add: nx_def)
  show q: "nx div B0 = r div B0" if "nx \<noteq> tp"
    unfolding block_bounds(3) [OF assms(2)] using lt(1) le that block_bounds(1) [OF assms(2), of r]
    unfolding tp_def by (intro conjI; linarith)
  show "\<not> B0 dvd nx" if "nx \<noteq> tp"
  proof
    assume "B0 dvd nx"
    then have "nx = r div B0 * B0" using q [OF that] by (metis dvd_div_mult_self)
    then show False using lt(1) block_bounds(1) [OF assms(2), of r] by linarith
  qed
qed

lemma scan_loop_ok:
  assumes ok: "table_ok t d h" "ht_size_exp d h = int e1" and e: "e0 \<le> e1" "e1 \<le> 60"
    and tp: "tp = (rpos v div 2 ^ (64 - e0) + 1) * 2 ^ (64 - e0)"
  shows "\<exists>v' es. scan_loop d h (mask e0) (mask e1) v = Some (v', es) \<and> rpos v' = tp mod 2 ^ 64 \<and>
    set es \<subseteq> set (concat (ht_table d h)) \<and>
    (\<forall>x \<in> set (concat (ht_table d h)). rpos v \<le> hpos t x \<and> hpos t x < tp \<longrightarrow> x \<in> set es)"
  using tp
proof (induction "tp - rpos v" arbitrary: v rule: less_induct)
  case less
  define B0 B1 :: nat where "B0 = 2 ^ (64 - e0)" and "B1 = 2 ^ (64 - e1)"
  define W :: nat where "W = 2 ^ 64"
  have pos: "0 < B0" "0 < B1" by (simp_all add: B0_def B1_def)
  have dvd: "B1 dvd B0" "B0 dvd W" unfolding B0_def B1_def W_def using e by (intro le_imp_power_dvd; simp)+
  define r where "r = rpos v"
  define nx where "nx = (r div B1 + 1) * B1"
  have t: "tp = (r div B0 + 1) * B0" using less.prems by (simp add: B0_def r_def)
  note ar = block_arith [OF pos(2,1) dvd, of r, folded nx_def t]
  have tp64: "tp \<le> W" using block_top_le [of e0 v] e less.prems by (simp add: W_def)
  define de where "de = ht_table d h ! unat (v AND mask e1)"
  have de: "get_bucket d h (unat (v AND mask e1)) = Some de"
    "set de = {x \<in> set (concat (ht_table d h)). hpos t x div B1 = r div B1}"
    using cursor_bucket [OF ok e(2)] by (simp_all add: de_def B1_def r_def)
  have here: "x \<in> set de" if "x \<in> set (concat (ht_table d h))" "r \<le> hpos t x" "hpos t x < nx" for x
    using cursor_covers [OF ok e(2) that(1), of v] that(2,3) by (simp add: de_def nx_def r_def B1_def)
  define v1 where "v1 = scan_next (mask e1) v"
  have v1: "rpos v1 = nx mod W"
    using rpos_scan_next [of e1 v] e by (simp add: v1_def nx_def r_def B1_def W_def)
  have "B1 dvd rpos v1" using ar(4) v1 by simp
  then have test: "v1 AND (mask e0 XOR mask e1) = 0 \<longleftrightarrow> B0 dvd rpos v1"
    using loop_test_iff [of e0 e1 v1] e by (simp add: B0_def B1_def)
  have unfold: "scan_loop d h (mask e0) (mask e1) v =
      (if v1 AND (mask e0 XOR mask e1) \<noteq> 0 then
         do { (v'', es) \<leftarrow> scan_loop d h (mask e0) (mask e1) v1; Some (v'', de @ es) }
       else Some (v1, de))"
    by (subst scan_loop.simps) (simp add: de(1) v1_def)
  show ?case
  proof (cases "nx = tp")
    case True
    then have "B0 dvd rpos v1" using ar(5) by (simp add: v1)
    then show ?thesis
      using unfold test True v1 de(2) here by (auto simp: r_def W_def)
  next
    case False
    then have "nx < tp" using ar(3) by simp
    then have r1: "rpos v1 = nx" using v1 tp64 by simp
    then have cont: "v1 AND (mask e0 XOR mask e1) \<noteq> 0" using test ar(7) [OF False] by simp
    have tp1: "tp = (rpos v1 div 2 ^ (64 - e0) + 1) * 2 ^ (64 - e0)"
      using t ar(6) [OF False] r1 by (simp add: B0_def)
    have "tp - rpos v1 < tp - rpos v" using r1 ar(1,2) \<open>nx < tp\<close> r_def by linarith
    from less.hyps [OF this tp1] obtain v' es where ih: "scan_loop d h (mask e0) (mask e1) v1 = Some (v', es)" "rpos v' = tp mod 2 ^ 64"
      "set es \<subseteq> set (concat (ht_table d h))"
      "\<forall>x \<in> set (concat (ht_table d h)). nx \<le> hpos t x \<and> hpos t x < tp \<longrightarrow> x \<in> set es"
      unfolding r1 by blast
    have "x \<in> set (de @ es)" if "x \<in> set (concat (ht_table d h))" "rpos v \<le> hpos t x" "hpos t x < tp" for x
      using that here [of x] ih(4) by (cases "hpos t x < nx") (auto simp: r_def)
    then show ?thesis
      using unfold cont ih(1-3) de(2) by (intro exI [of _ v'] exI [of _ "de @ es"]) auto
  qed
qed

text \<open>
  A call at cursor \<open>v\<close> covers an interval of reversed hashes that starts at the cursor, and the next
  cursor is the end of the interval.
\<close>

definition scan_covers :: "('k, 'v) dictType \<Rightarrow> ('k, 'v) dict \<Rightarrow> 64 word \<Rightarrow> 64 word \<Rightarrow> ('k, 'v) bucket \<Rightarrow> bool" where
  "scan_covers t d v v' es \<longleftrightarrow>
     (\<exists>tp. rpos v < tp \<and> tp \<le> 2 ^ 64 \<and> rpos v' = tp mod 2 ^ 64 \<and> set es \<subseteq> set_mset (entries_of d) \<and>
       (\<forall>x \<in># entries_of d. rpos v \<le> hpos t x \<and> hpos t x < tp \<longrightarrow> x \<in> set es))"

lemma scan_two_tables:
  assumes "table_ok t d h0" "table_ok t d h1" "ht_size_exp d h0 = int a" "ht_size_exp d h1 = int b"
    "a \<le> b" "b \<le> 60" "entries_of d = mset (concat (ht_table d h0)) + mset (concat (ht_table d h1))"
  shows "\<exists>de v' es. get_bucket d h0 (unat (v AND mask a)) = Some de \<and>
    scan_loop d h1 (mask a) (mask b) v = Some (v', es) \<and> scan_covers t d v v' (de @ es)"
proof -
  define tp where "tp = (rpos v div 2 ^ (64 - a) + 1) * 2 ^ (64 - a)"
  obtain v' es where es: "scan_loop d h1 (mask a) (mask b) v = Some (v', es)" "rpos v' = tp mod 2 ^ 64"
    "set es \<subseteq> set (concat (ht_table d h1))"
    "\<forall>x \<in> set (concat (ht_table d h1)). rpos v \<le> hpos t x \<and> hpos t x < tp \<longrightarrow> x \<in> set es"
    using scan_loop_ok [OF assms(2,4,5,6) tp_def] by blast
  have le: "a \<le> 60" "a \<le> 64" using assms(5,6) by simp_all
  define de where "de = ht_table d h0 ! unat (v AND mask a)"
  have de: "get_bucket d h0 (unat (v AND mask a)) = Some de" "set de \<subseteq> set (concat (ht_table d h0))"
    unfolding de_def using cursor_bucket [OF assms(1,3) le(1)] by blast+
  have cov: "x \<in> set de" if "x \<in> set (concat (ht_table d h0))" "rpos v \<le> hpos t x" "hpos t x < tp" for x
    unfolding de_def by (rule cursor_covers [OF assms(1,3) le(1) that(1,2) that(3) [unfolded tp_def]])
  have "rpos v < tp" "tp \<le> 2 ^ 64"
    unfolding tp_def by (rule block_bounds(2), simp) (rule block_top_le [OF le(2)])
  moreover have "set (de @ es) \<subseteq> set_mset (entries_of d)" using de(2) es(3) assms(7) by auto
  moreover have "\<forall>x \<in># entries_of d. rpos v \<le> hpos t x \<and> hpos t x < tp \<longrightarrow> x \<in> set (de @ es)"
    unfolding assms(7) using cov es(4) by (simp only: set_mset_union set_mset_mset set_append) blast
  ultimately have "scan_covers t d v v' (de @ es)" unfolding scan_covers_def using es(2) by blast
  then show ?thesis using de(1) es(1) by blast
qed

lemma scan_one_table:
  assumes "table_ok t d h" "ht_size_exp d h = int a" "a \<le> 60" "entries_of d = mset (concat (ht_table d h))"
  shows "\<exists>de. get_bucket d h (unat (v AND mask a)) = Some de \<and> scan_covers t d v (scan_next (mask a) v) de"
proof -
  define tp where "tp = (rpos v div 2 ^ (64 - a) + 1) * 2 ^ (64 - a)"
  define de where "de = ht_table d h ! unat (v AND mask a)"
  have le: "a \<le> 64" using assms(3) by simp
  have de: "get_bucket d h (unat (v AND mask a)) = Some de" "set de \<subseteq> set (concat (ht_table d h))"
    unfolding de_def using cursor_bucket [OF assms(1-3)] by blast+
  have cov: "x \<in> set de" if "x \<in> set (concat (ht_table d h))" "rpos v \<le> hpos t x" "hpos t x < tp" for x
    unfolding de_def by (rule cursor_covers [OF assms(1-3) that(1,2) that(3) [unfolded tp_def]])
  have "rpos v < tp" "tp \<le> 2 ^ 64"
    unfolding tp_def by (rule block_bounds(2), simp) (rule block_top_le [OF le])
  then have "scan_covers t d v (scan_next (mask a) v) de"
    unfolding scan_covers_def assms(4) using rpos_scan_next [OF le, of v, folded tp_def] de(2) cov
    by (intro exI [of _ tp]) (simp only: set_mset_mset, blast)
  then show ?thesis using de(1) by blast
qed

lemma dictScan_ok:
  assumes wf: "dict_wf t d"
  shows "\<exists>v' es. dictScan d v = Some (d, v', es) \<and> scan_covers t d v v' es"
proof (cases "dictSize d = 0")
  case True
  then have "entries_of d = {#}" using dictSize_entries [OF wf] by simp
  then have "scan_covers t d v 0 []"
    using rpos_less [of v] unfolding scan_covers_def by (intro exI [of _ "2 ^ 64"]) simp
  then show ?thesis using True by (simp add: dictScan_def)
next
  case False
  note tb = dict_wf_tables [OF wf]
  have ok: "table_ok t d 0" "table_ok t d 1" using wf by (simp_all add: dict_wf_def)
  have pr [simp]: "dictResumeRehashing (dictPauseRehashing d) = d" "ht_size_exp (dictPauseRehashing d) = ht_size_exp d"
    "dictIsRehashing (dictPauseRehashing d) = dictIsRehashing d"
    "get_bucket (dictPauseRehashing d) = get_bucket d"
    by (simp_all add: dictPauseRehashing_def dictResumeRehashing_def dictIsRehashing_def get_bucket_def fun_eq_iff)
  have "ht_size_exp d 0 \<noteq> -1" using nonempty_allocated [OF wf] False dictSize_entries [OF wf] by auto
  then obtain a where a: "ht_size_exp d 0 = int a" "a \<le> 60"
    using tb(7) by (cases "ht_size_exp d 0") auto
  show ?thesis
  proof (cases "dictIsRehashing d")
    case nr: False
    have "entries_of d = mset (concat (ht_table d 0))" using tb(2) [OF nr] by (simp add: entries_of_def)
    from scan_one_table [OF ok(1) a this, of v] show ?thesis
      using False nr a by (auto simp: dictScan_def mask_as_mask)
  next
    case True
    then obtain b where b: "ht_size_exp d 1 = int b" "b \<le> 60"
      using tb(5) ok(2) by (cases "ht_size_exp d 1") (auto simp: table_ok_def)
    let ?d = "dictPauseRehashing d"
    have okp: "table_ok t ?d 0" "table_ok t ?d 1" and ep: "entries_of ?d = entries_of d"
      using ok by (simp_all add: dictPauseRehashing_def)
    have cp: "scan_covers t ?d v v' es = scan_covers t d v v' es" for v' es
      by (simp only: scan_covers_def ep)
    have ab: "ht_size_exp ?d 0 = int a" "ht_size_exp ?d 1 = int b" using a b by simp_all
    show ?thesis
    proof (cases "a \<le> b")
      case le: True
      have "entries_of ?d = mset (concat (ht_table ?d 0)) + mset (concat (ht_table ?d 1))"
        by (simp add: entries_of_def)
      from scan_two_tables [OF okp ab le b(2) this, of v] obtain de v' es where
        "get_bucket d 0 (unat (v AND mask a)) = Some de"
        "scan_loop ?d 1 (mask a) (mask b) v = Some (v', es)" "scan_covers t d v v' (de @ es)"
        unfolding cp pr(4) by blast
      then show ?thesis
        using False True le a b by (auto simp: dictScan_def mask_as_mask)
    next
      case gt: False
      then have "b \<le> a" by simp
      moreover have "entries_of ?d = mset (concat (ht_table ?d 1)) + mset (concat (ht_table ?d 0))"
        by (simp add: entries_of_def)
      ultimately obtain de v' es where "get_bucket d 1 (unat (v AND mask b)) = Some de"
        "scan_loop ?d 0 (mask b) (mask a) v = Some (v', es)" "scan_covers t d v v' (de @ es)"
        using scan_two_tables [OF okp(2,1) ab(2,1) _ a(2), of v] unfolding cp pr(4) by blast
      then show ?thesis
        using False True gt a b by (auto simp: dictScan_def mask_as_mask)
    qed
  qed
qed

section \<open>Whole iterations\<close>

text \<open>Successive calls, each on the state the dictionary then has; the emitted entries in order.\<close>

fun scan_calls :: "('k, 'v) dict list \<Rightarrow> 64 word \<Rightarrow> (64 word \<times> ('k, 'v) bucket) option" where
  "scan_calls [] v = Some (v, [])"
| "scan_calls (d # ds) v = do {
     (_, v', es) \<leftarrow> dictScan d v;
     (v'', es') \<leftarrow> scan_calls ds v';
     Some (v'', es @ es') }"

lemma scan_calls_total:
  assumes "\<forall>d \<in> set ds. dict_wf t d"
  shows "\<exists>v' es. scan_calls ds v = Some (v', es) \<and> set es \<subseteq> (\<Union>d \<in> set ds. set_mset (entries_of d))"
  using assms
proof (induction ds arbitrary: v)
  case (Cons d ds)
  obtain v1 es1 where 1: "dictScan d v = Some (d, v1, es1)" "set es1 \<subseteq> set_mset (entries_of d)"
    using dictScan_ok [of t d v] Cons.prems by (auto simp: scan_covers_def)
  obtain v2 es2 where "scan_calls ds v1 = Some (v2, es2)" "set es2 \<subseteq> (\<Union>d \<in> set ds. set_mset (entries_of d))"
    using Cons.IH [of v1] Cons.prems by fastforce
  then show ?case using 1 by auto
qed simp

lemma scan_calls_complete:
  assumes "\<forall>d \<in> set ds. dict_wf t d \<and> (\<exists>x \<in># entries_of d. P x \<and> hpos t x = p)"
    "scan_calls ds v = Some (0, es)" "ds \<noteq> []" "rpos v \<le> p"
  shows "\<exists>x \<in> set es. P x"
  using assms
proof (induction ds arbitrary: v es)
  case (Cons d ds)
  obtain v1 es1 where 1: "dictScan d v = Some (d, v1, es1)" "scan_covers t d v v1 es1"
    using dictScan_ok [of t d v] Cons.prems(1) by auto
  then obtain tp where tp: "tp \<le> 2 ^ 64" "rpos v < tp" "rpos v1 = tp mod 2 ^ 64"
    "\<forall>x \<in># entries_of d. rpos v \<le> hpos t x \<and> hpos t x < tp \<longrightarrow> x \<in> set es1"
    unfolding scan_covers_def by blast
  obtain es2 where es: "scan_calls ds v1 = Some (0, es2)" "es = es1 @ es2"
    using Cons.prems(2) 1(1) by (auto split: bind_splits)
  obtain x where x: "x \<in># entries_of d" "P x" "hpos t x = p" using Cons.prems(1) by auto
  show ?case
  proof (cases "p < tp")
    case True
    then have "x \<in> set es1" using tp(4) x Cons.prems(4) by blast
    then show ?thesis using x es(2) by auto
  next
    case False
    have "p < 2 ^ 64" using x(3) rpos_less unfolding hpos_def by metis
    then have r1: "rpos v1 = tp" "tp \<noteq> 0" using False tp(2,3) by (simp_all add: not_less)
    then have "v1 \<noteq> 0" using rpos_0 [of v1] by linarith
    then have "ds \<noteq> []" using es(1) by auto
    then obtain x where "x \<in> set es2" "P x"
      using Cons.IH [OF _ es(1)] Cons.prems(1) r1(1) False by auto
    then show ?thesis using es(2) by auto
  qed
qed simp

text \<open>
  C4. The guarantee of \<open>dictScan\<close>: call it first with cursor 0 and then with the cursor it returned, on
  whatever well-formed states \<open>ds\<close> the dictionary has at the successive calls (grown, shrunk or in the
  middle of a rehash). No call faults and only entries of the dictionary are reported; and when the
  cursor is 0 again, every key that was present at all the calls has been reported.
\<close>

theorem dictScan_complete:
  assumes "dict_type_ok t" "\<forall>d \<in> set ds. dict_wf t d"
  shows "\<exists>v es. scan_calls ds 0 = Some (v, es) \<and> set es \<subseteq> (\<Union>d \<in> set ds. set_mset (entries_of d)) \<and>
    (v = 0 \<and> ds \<noteq> [] \<longrightarrow> (\<forall>k. (\<forall>d \<in> set ds. dict_map t d k \<noteq> None) \<longrightarrow> (\<exists>e \<in> set es. same_key t k (de_key e))))"
proof -
  obtain v es where run: "scan_calls ds 0 = Some (v, es)" "set es \<subseteq> (\<Union>d \<in> set ds. set_mset (entries_of d))"
    using scan_calls_total [OF assms(2)] by blast
  have "\<exists>e \<in> set es. same_key t k (de_key e)"
    if *: "v = 0" "ds \<noteq> []" "\<forall>d \<in> set ds. dict_map t d k \<noteq> None" for k
  proof (rule scan_calls_complete [of ds t _ "rpos (hashFunction t k)" 0])
    show "\<forall>d \<in> set ds. dict_wf t d \<and>
        (\<exists>x \<in># entries_of d. same_key t k (de_key x) \<and> hpos t x = rpos (hashFunction t k))"
    proof
      fix d assume "d \<in> set ds"
      then have wf: "dict_wf t d" and "dict_map t d k \<noteq> None" using assms(2) *(3) by auto
      then obtain x where "x \<in># entries_of d" "same_key t k (de_key x)"
        using dict_map_None [of d t k] by metis
      then show "dict_wf t d \<and> (\<exists>x \<in># entries_of d. same_key t k (de_key x) \<and> hpos t x = rpos (hashFunction t k))"
        using wf dict_type_okD(2) [OF assms(1)] by (metis hpos_def)
    qed
    have "rpos (0 :: 64 word) = 0" by simp
    then show "rpos 0 \<le> rpos (hashFunction t k)" by linarith
  qed (use run * in simp_all)
  then show ?thesis using run by blast
qed

section \<open>Iterating over an unchanged dictionary\<close>

definition cursor_at :: "nat \<Rightarrow> nat \<Rightarrow> 64 word" where
  "cursor_at e j = rev' (of_nat (j * 2 ^ (64 - e)))"

lemma rpos_cursor_at:
  assumes "e \<le> 64" "j < 2 ^ e"
  shows "rpos (cursor_at e j) = j * 2 ^ (64 - e)"
proof -
  have "j * 2 ^ (64 - e) < 2 ^ e * 2 ^ (64 - e)" using assms(2) by (intro mult_strict_right_mono) auto
  also have "(2::nat) ^ e * 2 ^ (64 - e) = 2 ^ 64" using assms(1) by (simp flip: power_add)
  finally have "j * 2 ^ (64 - e) < 2 ^ 64" .
  moreover have "unat (of_nat n :: 64 word) = n" if "n < 2 ^ 64" for n
    using that by (simp add: unsigned_of_nat take_bit_eq_mod)
  ultimately show ?thesis unfolding rpos_def cursor_at_def rev_rev by blast
qed

lemma rpos_inject: "rpos v = rpos w \<Longrightarrow> v = w"
  unfolding rpos_def by (metis rev_rev word_unat_eq_iff)

lemma scan_next_cursor_at:
  assumes "e \<le> 64" "j < 2 ^ e"
  shows "scan_next (mask e) (cursor_at e j) = (if j + 1 < 2 ^ e then cursor_at e (j + 1) else 0)"
proof (rule rpos_inject)
  have "rpos 0 = 0" by simp
  have "rpos (scan_next (mask e) (cursor_at e j)) = (j + 1) * 2 ^ (64 - e) mod 2 ^ 64"
    by (simp add: rpos_scan_next [OF assms(1)] rpos_cursor_at [OF assms])
  moreover have "(2::nat) ^ e * 2 ^ (64 - e) = 2 ^ 64" using assms(1) by (simp flip: power_add)
  ultimately show "rpos (scan_next (mask e) (cursor_at e j)) =
      rpos (if j + 1 < 2 ^ e then cursor_at e (j + 1) else 0)"
  proof (cases "j + 1 < 2 ^ e")
    case True
    then have "rpos (cursor_at e (j + 1)) = (j + 1) * 2 ^ (64 - e)" using rpos_cursor_at [OF assms(1)] by blast
    moreover have "(j + 1) * 2 ^ (64 - e) < 2 ^ 64" using rpos_less [of "cursor_at e (j + 1)"] calculation by simp
    ultimately show ?thesis
      using \<open>rpos (scan_next _ _) = _\<close> True by (simp only: if_True mod_less)
  next
    case False
    then have "j + 1 = 2 ^ e" using assms(2) by simp
    then show ?thesis
      using \<open>rpos (scan_next _ _) = _\<close> \<open>2 ^ e * 2 ^ (64 - e) = 2 ^ 64\<close> False \<open>rpos 0 = 0\<close>
      by (simp only: if_False mod_self)
  qed
qed

lemma bucket_order_bij:
  assumes "e \<le> 60"
  shows "bij_betw (\<lambda>j. unat (cursor_at e j AND mask e)) {..<2 ^ e} {..<2 ^ e}"
proof -
  let ?f = "\<lambda>j. unat (cursor_at e j AND mask e)"
  have e: "e \<le> 64" using assms by simp
  have inj: "inj_on ?f {..<2 ^ e}"
  proof (rule inj_onI)
    fix i j
    assume "i \<in> {..<2 ^ e}" "j \<in> {..<2 ^ e}" "?f i = ?f j"
    then have "rpos (cursor_at e i) div 2 ^ (64 - e) = rpos (cursor_at e j) div 2 ^ (64 - e)"
      and "rpos (cursor_at e i) = i * 2 ^ (64 - e)" "rpos (cursor_at e j) = j * 2 ^ (64 - e)"
      using same_bucket_iff [OF e] rpos_cursor_at [OF e] by (simp_all add: word_unat_eq_iff)
    then show "i = j" by simp
  qed
  moreover have "?f ` {..<2 ^ e} \<subseteq> {..<2 ^ e}"
    using assms by (auto simp: unsigned_take_bit_eq simp flip: take_bit_eq_mask)
  ultimately show ?thesis by (simp add: bij_betw_def endo_inj_surj)
qed

lemma mset_concat_permuted:
  assumes "bij_betw f {..<length xss} {..<length xss}"
  shows "mset (concat (map (\<lambda>j. xss ! f j) [0..<length xss])) = mset (concat xss)"
proof -
  have "mset (map f [0..<length xss]) = mset [0..<length xss]"
    using assms by (intro set_eq_iff_mset_eq_distinct [THEN iffD1])
      (auto simp: distinct_map bij_betw_def atLeast0LessThan)
  then have "mset (map (nth xss) (map f [0..<length xss])) = mset (map (nth xss) [0..<length xss])"
    by (simp only: mset_map)
  then have "mset (map (nth xss) (map f [0..<length xss])) = mset xss" by (simp only: map_nth)
  then have "mset (concat (map (nth xss) (map f [0..<length xss]))) = mset (concat xss)"
    unfolding mset_concat by (metis mset_map sum_mset_sum_list)
  then show ?thesis by (simp add: comp_def)
qed

lemma scan_calls_static:
  assumes wf: "dict_wf t d" and nr: "\<not> dictIsRehashing d" and ne: "dictSize d \<noteq> 0"
    and e: "ht_size_exp d 0 = int e" "e \<le> 60"
  shows "j + n \<le> 2 ^ e \<Longrightarrow> n > 0 \<Longrightarrow> scan_calls (replicate n d) (cursor_at e j) =
    Some (if j + n < 2 ^ e then cursor_at e (j + n) else 0,
      concat (map (\<lambda>i. ht_table d 0 ! unat (cursor_at e i AND mask e)) [j..<j + n]))"
proof (induction n arbitrary: j)
  case (Suc n)
  have ok: "table_ok t d 0" using wf by (simp add: dict_wf_def)
  have "dictScan d (cursor_at e j) = Some (d, scan_next (mask e) (cursor_at e j),
      ht_table d 0 ! unat (cursor_at e j AND mask e))"
    using ne nr e cursor_bucket(1) [OF ok e, of "cursor_at e j"]
    by (simp add: dictScan_def mask_as_mask dictPauseRehashing_def dictResumeRehashing_def
      dictIsRehashing_def get_bucket_def Let_def split: if_splits)
  moreover have "scan_next (mask e) (cursor_at e j) = (if j + 1 < 2 ^ e then cursor_at e (j + 1) else 0)"
    using scan_next_cursor_at [of e j] e(2) Suc.prems by simp
  moreover have "[j..<j + Suc n] = j # [Suc j..<Suc j + n]" by (simp add: upt_conv_Cons)
  ultimately show ?case
    using Suc.IH [of "Suc j"] Suc.prems by (cases "n = 0") auto
qed simp

text \<open>
  C23. While the dictionary does not change and is not being rehashed, the iteration returns to cursor 0
  after exactly as many calls as there are buckets, and reports every entry exactly once.
\<close>

theorem dictScan_exact:
  assumes "dict_wf t d" "\<not> dictIsRehashing d" "dictSize d \<noteq> 0"
  shows "\<exists>es. scan_calls (replicate (DICTHT_SIZE (ht_size_exp d 0)) d) 0 = Some (0, es) \<and>
    mset es = entries_of d \<and>
    (\<forall>n v es'. 0 < n \<and> n < DICTHT_SIZE (ht_size_exp d 0) \<and> scan_calls (replicate n d) 0 = Some (v, es') \<longrightarrow> v \<noteq> 0)"
proof -
  note tb = dict_wf_tables [OF assms(1)]
  have "ht_size_exp d 0 \<noteq> -1"
    using nonempty_allocated [OF assms(1)] assms(3) dictSize_entries [OF assms(1)] by auto
  then obtain e where e: "ht_size_exp d 0 = int e" "e \<le> 60"
    using tb(7) by (cases "ht_size_exp d 0") auto
  have sz: "DICTHT_SIZE (ht_size_exp d 0) = 2 ^ e" "length (ht_table d 0) = 2 ^ e"
    using assms(1) e by (simp_all add: dict_wf_def table_ok_def)
  have c0: "cursor_at e 0 = 0"
    by (rule rpos_inject) (use rpos_cursor_at [of e 0] e(2) in simp)
  note st = scan_calls_static [OF assms e, of 0, unfolded c0, simplified]
  have "mset (concat (map (\<lambda>i. ht_table d 0 ! unat (cursor_at e i AND mask e)) [0..<2 ^ e])) = entries_of d"
    using mset_concat_permuted [of _ "ht_table d 0", unfolded sz(2), OF bucket_order_bij [OF e(2)]]
      tb(2) [OF assms(2)] by (simp add: entries_of_def)
  moreover have "v \<noteq> 0" if "0 < n" "n < 2 ^ e" "scan_calls (replicate n d) 0 = Some (v, es')" for n v es'
  proof -
    have "v = cursor_at e n" using st [of n] that by simp
    then have "rpos v \<noteq> 0" using rpos_cursor_at [of e n] that e(2) by simp
    then show ?thesis by simp
  qed
  ultimately show ?thesis using st [of "2 ^ e"] unfolding sz(1) by (auto simp del: replicate.simps)
qed

text \<open>A dictionary of four buckets with two entries.\<close>

definition small_dict :: "(nat, nat) dict" where
  "small_dict = \<lparr>ht_table = (\<lambda>h. if h = 0 then [[], [\<lparr>de_key = 1, de_val = 10\<rparr>], [\<lparr>de_key = 2, de_val = 20\<rparr>], []] else []),
     ht_used = (\<lambda>h. if h = 0 then 2 else 0), rehashidx = -1, pauserehash = 0,
     ht_size_exp = (\<lambda>h. if h = 0 then 2 else -1)\<rparr>"

lemma small_dict_wf: "dict_wf nat_type small_dict"
proof -
  have b: "bucket_index nat_type 2 1 = 1" "bucket_index nat_type 2 2 = 2"
    by (simp_all add: bucket_index_mod nat_type_def)
  have "table_ok nat_type small_dict 0" "table_ok nat_type small_dict 1"
    using b by (simp_all add: table_ok_def small_dict_def DICTHT_SIZE_def nth_Cons')
  moreover have "rehash_ok small_dict" by (simp add: rehash_ok_def small_dict_def dictIsRehashing_def)
  moreover have "unique_keys nat_type (entries_of small_dict)"
    by (simp add: unique_keys_def entries_of_def small_dict_def same_key_def nat_type_def)
  ultimately show ?thesis by (simp add: dict_wf_def)
qed

lemma small_dict_facts: "\<not> dictIsRehashing small_dict" "dictSize small_dict \<noteq> 0" "ht_size_exp small_dict 0 = int 2"
  by (simp_all add: small_dict_def dictIsRehashing_def dictSize_def)

lemma small_dict_scan: "\<exists>es. scan_calls (replicate 4 small_dict) 0 = Some (0, es)"
proof -
  have "cursor_at 2 0 = 0" by (rule rpos_inject) (use rpos_cursor_at [of 2 0] in simp)
  then show ?thesis
    using scan_calls_static [OF small_dict_wf small_dict_facts, of 0 4] by (simp del: replicate.simps)
qed

theorem dictScan_complete_witness:
  "\<exists>es. scan_calls (replicate 4 small_dict) 0 = Some (0, es) \<and> (\<exists>e \<in> set es. same_key nat_type 2 (de_key e))"
proof -
  have m: "dict_map nat_type small_dict 2 \<noteq> None"
    by (simp add: dict_map_def small_dict_def same_key_def nat_type_def)
  show ?thesis
    using dictScan_complete [OF nat_type_ok, of "replicate 4 small_dict"] small_dict_scan small_dict_wf m
    by fastforce
qed

theorem dictScan_exact_witness:
  "\<exists>es. scan_calls (replicate 4 small_dict) 0 = Some (0, es) \<and>
    mset es = {#\<lparr>de_key = 1, de_val = 10\<rparr>, \<lparr>de_key = 2, de_val = 20\<rparr>#}"
proof -
  have "DICTHT_SIZE (ht_size_exp small_dict 0) = 4"
    "entries_of small_dict = {#\<lparr>de_key = 1, de_val = 10\<rparr>, \<lparr>de_key = 2, de_val = 20\<rparr>#}"
    by (simp_all add: small_dict_def DICTHT_SIZE_def entries_of_def)
  then show ?thesis
    using dictScan_exact [OF small_dict_wf small_dict_facts(1,2)] by auto
qed

end
