(* ===== verification/DictIter.thy ===== *)
theory DictIter
  imports DictMap
begin

text \<open>
  The iterators and the sampling functions of \<^verbatim>\<open>redis/src/dict.c\<close>. An entry pointer held by an iterator
  is the entry with the chain that follows it. The numbers that \<open>randomULong\<close>, \<open>random\<close> and \<open>rand\<close>
  return are parameters; the address of a table, which the fingerprint hashes, is one as well.
\<close>

section \<open>Fingerprint\<close>

definition fingerprint_step :: "64 word \<Rightarrow> 64 word \<Rightarrow> 64 word" where
  "fingerprint_step hash x =
     (let hash = hash + x;
          hash = (NOT hash) + push_bit 21 hash;
          hash = hash XOR drop_bit 24 hash;
          hash = (hash + push_bit 3 hash) + push_bit 8 hash;
          hash = hash XOR drop_bit 14 hash;
          hash = (hash + push_bit 2 hash) + push_bit 4 hash;
          hash = hash XOR drop_bit 28 hash;
          hash = hash + push_bit 31 hash
      in hash)"

definition dictFingerprint :: "(nat \<Rightarrow> 64 word) \<Rightarrow> ('k, 'v) dict \<Rightarrow> 64 word" where
  "dictFingerprint addr d =
     foldl fingerprint_step 0
       [addr 0, word_of_int (ht_size_exp d 0), of_nat (ht_used d 0),
        addr 1, word_of_int (ht_size_exp d 1), of_nat (ht_used d 1)]"

section \<open>Iterators\<close>

record ('k, 'v) dictIterator =
  it_index :: int
  it_table :: nat
  it_safe :: bool
  it_entry :: "('k, 'v) dictEntry option"
  it_nextEntry :: "('k, 'v) bucket"
  it_fingerprint :: "64 word"

text \<open>The fingerprint field of a fresh iterator is not initialised.\<close>

definition dictGetIterator :: "64 word \<Rightarrow> ('k, 'v) dictIterator" where
  "dictGetIterator junk = \<lparr>it_index = -1, it_table = 0, it_safe = False, it_entry = None,
     it_nextEntry = [], it_fingerprint = junk\<rparr>"

definition dictGetSafeIterator :: "64 word \<Rightarrow> ('k, 'v) dictIterator" where
  "dictGetSafeIterator junk = (dictGetIterator junk)\<lparr>it_safe := True\<rparr>"

text \<open>
  One round of the \<open>while (1)\<close> up to the test of \<open>iter->entry\<close>: the chain \<open>iter->entry\<close> points to, or
  \<open>None\<close> for the \<open>break\<close>.
\<close>

definition dictNext_advance :: "(nat \<Rightarrow> 64 word) \<Rightarrow> ('k, 'v) dict \<Rightarrow> ('k, 'v) dictIterator \<Rightarrow>
    (('k, 'v) dict \<times> ('k, 'v) dictIterator \<times> ('k, 'v) bucket option) option" where
  "dictNext_advance addr d iter =
     (case it_entry iter of
        Some _ \<Rightarrow> Some (d, iter, Some (it_nextEntry iter))
      | None \<Rightarrow>
          let first = (it_index iter = -1 \<and> it_table iter = 0);
              d' = (if first \<and> it_safe iter then dictPauseRehashing d else d);
              iter = (if first \<and> \<not> it_safe iter
                      then iter\<lparr>it_fingerprint := dictFingerprint addr d\<rparr> else iter);
              iter = iter\<lparr>it_index := it_index iter + 1\<rparr>
          in if it_index iter \<ge> int (DICTHT_SIZE (ht_size_exp d' (it_table iter))) then
               if dictIsRehashing d' \<and> it_table iter = 0 then
                 let iter = iter\<lparr>it_table := it_table iter + 1, it_index := 0\<rparr> in do {
                   b \<leftarrow> get_bucket d' (it_table iter) (nat (it_index iter));
                   Some (d', iter, Some b) }
               else Some (d', iter, None)
             else do {
               b \<leftarrow> get_bucket d' (it_table iter) (nat (it_index iter));
               Some (d', iter, Some b) })"

partial_function (option) dictNext :: "(nat \<Rightarrow> 64 word) \<Rightarrow> ('k, 'v) dict \<Rightarrow> ('k, 'v) dictIterator \<Rightarrow>
    (('k, 'v) dict \<times> ('k, 'v) dictIterator \<times> ('k, 'v) dictEntry option) option" where
  "dictNext addr d iter = do {
     (d', iter', r) \<leftarrow> dictNext_advance addr d iter;
     (case r of
        None \<Rightarrow> Some (d', iter', None)
      | Some [] \<Rightarrow> dictNext addr d' (iter'\<lparr>it_entry := None\<rparr>)
      | Some (e # nx) \<Rightarrow> Some (d', iter'\<lparr>it_entry := Some e, it_nextEntry := nx\<rparr>, Some e))
   }"

text \<open>\<open>None\<close> is the failed assertion that the dictionary has the fingerprint it had at the start.\<close>

definition dictReleaseIterator :: "(nat \<Rightarrow> 64 word) \<Rightarrow> ('k, 'v) dict \<Rightarrow> ('k, 'v) dictIterator \<Rightarrow> ('k, 'v) dict option" where
  "dictReleaseIterator addr d iter =
     (if \<not> (it_index iter = -1 \<and> it_table iter = 0) then
        if it_safe iter then Some (dictResumeRehashing d)
        else if it_fingerprint iter = dictFingerprint addr d then Some d else None
      else Some d)"

section \<open>Sampling\<close>

text \<open>The next random number of a sequence, and the rest of the sequence.\<close>

definition next_rnd :: "(nat \<Rightarrow> 64 word) \<Rightarrow> 64 word \<times> (nat \<Rightarrow> 64 word)" where
  "next_rnd rs = (rs 0, \<lambda>n. rs (Suc n))"

definition random_bucket :: "('k, 'v) dict \<Rightarrow> 64 word \<Rightarrow> ('k, 'v) bucket option" where
  "random_bucket d r =
     (if dictIsRehashing d then
        let s0 = DICTHT_SIZE (ht_size_exp d 0);
            h = nat (rehashidx d) + unat r mod (dictSlots d - nat (rehashidx d))
        in if h \<ge> s0 then get_bucket d 1 (h - s0) else get_bucket d 0 h
      else get_bucket d 0 (unat (r AND DICTHT_SIZE_MASK (ht_size_exp d 0))))"

partial_function (option) random_bucket_loop :: "('k, 'v) dict \<Rightarrow> (nat \<Rightarrow> 64 word) \<Rightarrow> ('k, 'v) bucket option" where
  "random_bucket_loop d rs = do {
     he \<leftarrow> random_bucket d (rs 0);
     if he = [] then random_bucket_loop d (\<lambda>n. rs (Suc n)) else Some he
   }"

text \<open>\<open>rs\<close> are the values of \<open>randomULong\<close>, \<open>r\<close> is the value of \<open>random\<close>.\<close>

definition dictGetRandomKey :: "('k, 'v) dictType \<Rightarrow> (nat \<Rightarrow> 64 word) \<Rightarrow> nat \<Rightarrow> ('k, 'v) dict \<Rightarrow>
    (('k, 'v) dict \<times> ('k, 'v) dictEntry option) option" where
  "dictGetRandomKey t rs r d =
     (if dictSize d = 0 then Some (d, None)
      else do {
        d1 \<leftarrow> (if dictIsRehashing d then dictRehashStep t d else Some d);
        he \<leftarrow> random_bucket_loop d1 rs;
        let listlen = length he;
        Some (d1, Some (he ! (r mod listlen)))
      })"

text \<open>Collecting a chain; the flag says that \<open>cnt\<close> entries are stored.\<close>

fun collect_chain :: "nat \<Rightarrow> ('k, 'v) bucket \<Rightarrow> ('k, 'v) bucket \<Rightarrow> ('k, 'v) bucket \<times> bool" where
  "collect_chain cnt des [] = (des, False)"
| "collect_chain cnt des (he # b) =
     (if length des + 1 = cnt then (des @ [he], True) else collect_chain cnt (des @ [he]) b)"

record ('k, 'v) sampling =
  sm_i :: nat
  sm_emptylen :: nat
  sm_des :: "('k, 'v) bucket"
  sm_rnd :: "nat \<Rightarrow> 64 word"

text \<open>The body of the loop over the tables at table \<open>j\<close>; the flag says that the function returned.\<close>

definition someKeys_table :: "('k, 'v) dict \<Rightarrow> nat \<Rightarrow> nat \<Rightarrow> 64 word \<Rightarrow> nat \<Rightarrow> ('k, 'v) sampling \<Rightarrow>
    (('k, 'v) sampling \<times> bool) option" where
  "someKeys_table d cnt tables maxsizemask j s =
     (let skip = (tables = 2 \<and> j = 0 \<and> int (sm_i s) < rehashidx d) in
      if skip \<and> \<not> sm_i s \<ge> DICTHT_SIZE (ht_size_exp d 1) then Some (s, False)
      else
        let s = (if skip then s\<lparr>sm_i := nat (rehashidx d)\<rparr> else s) in
        if sm_i s \<ge> DICTHT_SIZE (ht_size_exp d j) then Some (s, False)
        else do {
          he \<leftarrow> get_bucket d j (sm_i s);
          (if he = [] then
             let s = s\<lparr>sm_emptylen := sm_emptylen s + 1\<rparr> in
             if sm_emptylen s \<ge> 5 \<and> sm_emptylen s > cnt then
               let (r, rs) = next_rnd (sm_rnd s)
               in Some (s\<lparr>sm_i := unat (r AND maxsizemask), sm_emptylen := 0, sm_rnd := rs\<rparr>, False)
             else Some (s, False)
           else
             let (des, full) = collect_chain cnt (sm_des s) he
             in Some (s\<lparr>sm_emptylen := 0, sm_des := des\<rparr>, full))
        })"

fun someKeys_tables :: "('k, 'v) dict \<Rightarrow> nat \<Rightarrow> nat \<Rightarrow> 64 word \<Rightarrow> nat list \<Rightarrow> ('k, 'v) sampling \<Rightarrow>
    (('k, 'v) sampling \<times> bool) option" where
  "someKeys_tables d cnt tables maxsizemask [] s = Some (s, False)"
| "someKeys_tables d cnt tables maxsizemask (j # js) s = do {
     (s', returned) \<leftarrow> someKeys_table d cnt tables maxsizemask j s;
     if returned then Some (s', True) else someKeys_tables d cnt tables maxsizemask js s'
   }"

fun someKeys_loop :: "('k, 'v) dict \<Rightarrow> nat \<Rightarrow> nat \<Rightarrow> 64 word \<Rightarrow> nat \<Rightarrow> ('k, 'v) sampling \<Rightarrow> ('k, 'v) sampling option" where
  "someKeys_loop d cnt tables maxsizemask 0 s = Some s"
| "someKeys_loop d cnt tables maxsizemask (Suc maxsteps) s =
     (if \<not> length (sm_des s) < cnt then Some s
      else do {
        (s', returned) \<leftarrow> someKeys_tables d cnt tables maxsizemask [0..<tables] s;
        if returned then Some s'
        else someKeys_loop d cnt tables maxsizemask maxsteps
               (s'\<lparr>sm_i := unat ((of_nat (sm_i s') + 1) AND maxsizemask)\<rparr>)
      })"

fun rehash_steps :: "('k, 'v) dictType \<Rightarrow> nat \<Rightarrow> ('k, 'v) dict \<Rightarrow> ('k, 'v) dict option" where
  "rehash_steps t 0 d = Some d"
| "rehash_steps t (Suc cnt) d =
     (if dictIsRehashing d then do { d' \<leftarrow> dictRehashStep t d; rehash_steps t cnt d' } else Some d)"

definition dictGetSomeKeys :: "('k, 'v) dictType \<Rightarrow> (nat \<Rightarrow> 64 word) \<Rightarrow> ('k, 'v) dict \<Rightarrow> nat \<Rightarrow>
    (('k, 'v) dict \<times> ('k, 'v) bucket \<times> (nat \<Rightarrow> 64 word)) option" where
  "dictGetSomeKeys t rs d cnt =
     (let cnt = (if dictSize d < cnt then dictSize d else cnt);
          maxsteps = cnt * 10 in do {
        d1 \<leftarrow> rehash_steps t cnt d;
        let tables = (if dictIsRehashing d1 then 2 else 1);
        let m0 = DICTHT_SIZE_MASK (ht_size_exp d1 0);
        let m1 = DICTHT_SIZE_MASK (ht_size_exp d1 1);
        let maxsizemask = (if tables > 1 \<and> m0 < m1 then m1 else m0);
        let (r, rs) = next_rnd rs;
        s \<leftarrow> someKeys_loop d1 cnt tables maxsizemask maxsteps
               \<lparr>sm_i = unat (r AND maxsizemask), sm_emptylen = 0, sm_des = [], sm_rnd = rs\<rparr>;
        Some (d1, sm_des s, sm_rnd s)
      })"

definition GETFAIR_NUM_ENTRIES :: nat where "GETFAIR_NUM_ENTRIES = 15"

definition dictGetFairRandomKey :: "('k, 'v) dictType \<Rightarrow> (nat \<Rightarrow> 64 word) \<Rightarrow> nat \<Rightarrow> ('k, 'v) dict \<Rightarrow>
    (('k, 'v) dict \<times> ('k, 'v) dictEntry option) option" where
  "dictGetFairRandomKey t rs r d = do {
     (d1, entries, rs') \<leftarrow> dictGetSomeKeys t rs d GETFAIR_NUM_ENTRIES;
     if length entries = 0 then dictGetRandomKey t rs' r d1
     else Some (d1, Some (entries ! (r mod length entries)))
   }"

section \<open>An iterator visits every entry once\<close>

definition it_ok :: "('k, 'v) dict \<Rightarrow> ('k, 'v) dictIterator \<Rightarrow> bool" where
  "it_ok d iter \<longleftrightarrow> -1 \<le> it_index iter \<and>
     (it_table iter = 0 \<or> it_table iter = 1 \<and> dictIsRehashing d \<and> 0 \<le> it_index iter) \<and>
     (it_index iter = -1 \<longrightarrow> it_entry iter = None)"

text \<open>The entries an iterator has still to return.\<close>

definition it_rest :: "('k, 'v) dict \<Rightarrow> ('k, 'v) dictIterator \<Rightarrow> ('k, 'v) bucket" where
  "it_rest d iter =
     (if it_entry iter = None then [] else it_nextEntry iter) @
     concat (drop (nat (it_index iter + 1)) (ht_table d (it_table iter))) @
     (if dictIsRehashing d \<and> it_table iter = 0 then concat (ht_table d 1) else [])"

definition it_first :: "('k, 'v) dictIterator \<Rightarrow> bool" where
  "it_first iter \<longleftrightarrow> it_index iter = -1 \<and> it_table iter = 0"

definition it_size :: "('k, 'v) dict \<Rightarrow> ('k, 'v) dictIterator \<Rightarrow> nat" where
  "it_size d iter =
     (if it_entry iter = None then 0 else 1) +
     2 * (length (ht_table d (it_table iter)) - nat (it_index iter + 1)) +
     (if dictIsRehashing d \<and> it_table iter = 0 then 2 * length (ht_table d 1) + 2 else 0)"

text \<open>What a call leaves of the dictionary and of the bookkeeping fields of the iterator.\<close>

definition it_step :: "(nat \<Rightarrow> 64 word) \<Rightarrow> ('k, 'v) dict \<Rightarrow> ('k, 'v) dictIterator \<Rightarrow> ('k, 'v) dict \<Rightarrow>
    ('k, 'v) dictIterator \<Rightarrow> bool" where
  "it_step addr d iter d' iter' \<longleftrightarrow>
     d' = (if it_first iter \<and> it_safe iter then dictPauseRehashing d else d) \<and>
     it_ok d' iter' \<and> \<not> it_first iter' \<and> it_safe iter' = it_safe iter \<and>
     it_fingerprint iter' =
       (if it_first iter \<and> \<not> it_safe iter then dictFingerprint addr d else it_fingerprint iter)"

lemma pause_fields [simp]:
  "ht_table (dictPauseRehashing d) = ht_table d" "ht_size_exp (dictPauseRehashing d) = ht_size_exp d"
  "dictIsRehashing (dictPauseRehashing d) = dictIsRehashing d" "ht_used (dictPauseRehashing d) = ht_used d"
  "get_bucket (dictPauseRehashing d) = get_bucket d"
  "dict_wf t (dictPauseRehashing d) = dict_wf t d"
  by (simp_all add: dictPauseRehashing_def dictIsRehashing_def get_bucket_def dict_wf_def fun_eq_iff)

lemma drop_nth_concat: "i < length xss \<Longrightarrow> concat (drop i xss) = xss ! i @ concat (drop (Suc i) xss)"
  by (metis Cons_nth_drop_Suc concat.simps(2))

lemma dictNext_advance_ok:
  assumes wf: "dict_wf t d" and ok: "it_ok d iter"
  obtains (chain) d' iter' b where "dictNext_advance addr d iter = Some (d', iter', Some b)"
      "it_step addr d iter d' iter'"
      "it_rest d iter = b @ it_rest d' (iter'\<lparr>it_entry := None\<rparr>)"
      "it_size d' (iter'\<lparr>it_entry := None\<rparr>) < it_size d iter"
  | (finish) d' iter' where "dictNext_advance addr d iter = Some (d', iter', None)"
      "it_step addr d iter d' iter'" "it_rest d iter = []" "it_rest d' iter' = []"
proof (cases "it_entry iter")
  case (Some e)
  then show thesis
    using chain [of d iter "it_nextEntry iter"] ok
    by (auto simp: dictNext_advance_def it_step_def it_first_def it_ok_def it_rest_def it_size_def)
next
  case None
  define d' where "d' = (if it_first iter \<and> it_safe iter then dictPauseRehashing d else d)"
  define it1 where "it1 = (if it_first iter \<and> \<not> it_safe iter
    then iter\<lparr>it_fingerprint := dictFingerprint addr d\<rparr> else iter)\<lparr>it_index := it_index iter + 1\<rparr>"
  let ?i = "nat (it_index iter + 1)" and ?h = "it_table iter"
  have fields: "it_index it1 = it_index iter + 1" "it_table it1 = ?h" "it_entry it1 = None"
    "it_safe it1 = it_safe iter" "0 \<le> it_index iter + 1"
    using None ok by (simp_all add: it1_def it_ok_def)
  have sn: "nat (2 + it_index iter) = Suc ?i" using fields(5) by simp
  have step: "it_step addr d iter d' it1"
    using ok None by (auto simp: it_step_def d'_def it1_def it_ok_def it_first_def)
  have len: "length (ht_table d 0) = DICTHT_SIZE (ht_size_exp d 0)"
    "length (ht_table d 1) = DICTHT_SIZE (ht_size_exp d 1)"
    using wf by (simp_all add: dict_wf_def table_ok_def)
  have hh: "?h = 0 \<or> ?h = 1" using ok by (auto simp: it_ok_def)
  have same: "ht_table d' = ht_table d" "ht_size_exp d' = ht_size_exp d" "dictIsRehashing d' = dictIsRehashing d"
    "get_bucket d' = get_bucket d" by (simp_all add: d'_def)
  have adv: "dictNext_advance addr d iter =
      (if it_index it1 \<ge> int (DICTHT_SIZE (ht_size_exp d ?h)) then
         if dictIsRehashing d \<and> ?h = 0 then
           do { b \<leftarrow> get_bucket d 1 0; Some (d', it1\<lparr>it_table := 1, it_index := 0\<rparr>, Some b) }
         else Some (d', it1, None)
       else do { b \<leftarrow> get_bucket d ?h ?i; Some (d', it1, Some b) })"
    by (cases "it_first iter"; cases "it_safe iter")
      (auto simp: dictNext_advance_def None Let_def it_first_def d'_def it1_def)
  show thesis
  proof (cases "?i < length (ht_table d ?h)")
    case True
    then have "dictNext_advance addr d iter = Some (d', it1, Some (ht_table d ?h ! ?i))"
      using adv hh len fields(1,5) by (auto simp: get_bucket_Some)
    moreover have "it_rest d iter = ht_table d ?h ! ?i @ it_rest d' (it1\<lparr>it_entry := None\<rparr>)"
      using True fields drop_nth_concat [OF True] None by (simp add: it_rest_def same sn)
    moreover have "it_size d' (it1\<lparr>it_entry := None\<rparr>) < it_size d iter"
      using True fields by (auto simp: it_size_def same None sn)
    ultimately show thesis using step by (intro chain)
  next
    case False
    then have out: "it_index it1 \<ge> int (DICTHT_SIZE (ht_size_exp d ?h))"
      using hh len fields(1,5) by auto
    show thesis
    proof (cases "dictIsRehashing d \<and> ?h = 0")
      case True
      let ?it = "it1\<lparr>it_table := 1, it_index := 0\<rparr>"
      have l1: "0 < length (ht_table d 1)"
        using True dict_wf_tables(5) [OF wf] len(2) by (simp add: DICTHT_SIZE_def)
      then have "dictNext_advance addr d iter = Some (d', ?it, Some (ht_table d 1 ! 0))"
        using adv out True by (simp add: get_bucket_Some)
      moreover have "it_step addr d iter d' ?it"
        using step True fields same by (simp add: it_step_def it_ok_def it_first_def)
      moreover have "it_rest d iter = ht_table d 1 ! 0 @ it_rest d' (?it\<lparr>it_entry := None\<rparr>)"
        using True False None drop_nth_concat [OF l1] by (simp add: it_rest_def same)
      moreover have "it_size d' (?it\<lparr>it_entry := None\<rparr>) < it_size d iter"
        using True False l1 by (simp add: it_size_def same None)
      ultimately show thesis by (intro chain)
    next
      case no: False
      then have "dictNext_advance addr d iter = Some (d', it1, None)" using adv out by auto
      moreover have "it_rest d iter = []" "it_rest d' it1 = []"
        using no False None fields by (auto simp: it_rest_def same)
      ultimately show thesis using step by (intro finish)
    qed
  qed
qed

lemma it_first_entry [simp]: "it_first (iter\<lparr>it_entry := x\<rparr>) = it_first iter"
  by (simp add: it_first_def)

lemma it_step_trans:
  assumes "it_step addr d iter d1 it1" "it_step addr d1 (it1\<lparr>it_entry := None\<rparr>) d2 it2"
  shows "it_step addr d iter d2 it2"
  using assms unfolding it_step_def by auto

lemma dictNext_ok:
  assumes "dict_wf t d" "it_ok d iter"
  shows "\<exists>d' iter'. dictNext addr d iter =
      Some (d', iter', case it_rest d iter of [] \<Rightarrow> None | e # _ \<Rightarrow> Some e) \<and>
    it_step addr d iter d' iter' \<and> it_rest d' iter' = tl (it_rest d iter)"
  using assms
proof (induction "it_size d iter" arbitrary: d iter rule: less_induct)
  case less
  show ?case
  proof (rule dictNext_advance_ok [OF less.prems, of addr])
    fix d' iter'
    assume "dictNext_advance addr d iter = Some (d', iter', None)"
      "it_step addr d iter d' iter'" "it_rest d iter = []" "it_rest d' iter' = []"
    then show ?thesis by (subst dictNext.simps) auto
  next
    fix d' iter' b
    assume adv: "dictNext_advance addr d iter = Some (d', iter', Some b)" and st: "it_step addr d iter d' iter'"
      and rest: "it_rest d iter = b @ it_rest d' (iter'\<lparr>it_entry := None\<rparr>)"
      and sz: "it_size d' (iter'\<lparr>it_entry := None\<rparr>) < it_size d iter"
    let ?it = "iter'\<lparr>it_entry := None\<rparr>"
    show ?thesis
    proof (cases b)
      case Nil
      have "dict_wf t d'" "it_ok d' ?it" using st less.prems(1) by (auto simp: it_step_def it_ok_def)
      then obtain d2 it2 where "dictNext addr d' ?it =
          Some (d2, it2, case it_rest d' ?it of [] \<Rightarrow> None | e # _ \<Rightarrow> Some e)"
        "it_step addr d' ?it d2 it2" "it_rest d2 it2 = tl (it_rest d' ?it)"
        using less.hyps [OF sz] by blast
      then show ?thesis
        using adv rest Nil it_step_trans [OF st] by (subst dictNext.simps) auto
    next
      case (Cons e nx)
      let ?r = "iter'\<lparr>it_entry := Some e, it_nextEntry := nx\<rparr>"
      have "it_step addr d iter d' ?r" using st by (auto simp: it_step_def it_ok_def it_first_def)
      moreover have "it_rest d' ?r = tl (it_rest d iter)" using rest Cons by (simp add: it_rest_def)
      ultimately show ?thesis using adv rest Cons by (subst dictNext.simps) auto
    qed
  qed
qed

text \<open>The loop of a caller: \<open>while ((de = dictNext(di)) != NULL)\<close>, at most \<open>n\<close> times.\<close>

fun iter_collect :: "(nat \<Rightarrow> 64 word) \<Rightarrow> ('k, 'v) dict \<Rightarrow> ('k, 'v) dictIterator \<Rightarrow> nat \<Rightarrow>
    (('k, 'v) dict \<times> ('k, 'v) dictIterator \<times> ('k, 'v) bucket \<times> bool) option" where
  "iter_collect addr d iter 0 = Some (d, iter, [], False)"
| "iter_collect addr d iter (Suc n) = do {
     (d', iter', r) \<leftarrow> dictNext addr d iter;
     (case r of
        None \<Rightarrow> Some (d', iter', [], True)
      | Some e \<Rightarrow> do { (d'', iter'', es, fin) \<leftarrow> iter_collect addr d' iter' n; Some (d'', iter'', e # es, fin) })
   }"

lemma iter_collect_ok:
  assumes "dict_wf t d" "it_ok d iter" "length (it_rest d iter) < n"
  shows "\<exists>d' iter'. iter_collect addr d iter n = Some (d', iter', it_rest d iter, True) \<and>
    it_step addr d iter d' iter'"
  using assms
proof (induction n arbitrary: d iter)
  case (Suc n)
  obtain d1 it1 where 1: "dictNext addr d iter =
      Some (d1, it1, case it_rest d iter of [] \<Rightarrow> None | e # _ \<Rightarrow> Some e)"
    "it_step addr d iter d1 it1" "it_rest d1 it1 = tl (it_rest d iter)"
    using dictNext_ok [OF Suc.prems(1,2)] by blast
  show ?case
  proof (cases "it_rest d iter")
    case Nil
    then show ?thesis using 1 by auto
  next
    case (Cons e es)
    have w: "dict_wf t d1" "it_ok d1 it1" using 1(2) Suc.prems(1) by (auto simp: it_step_def)
    moreover have "length (it_rest d1 it1) < n" using 1(3) Cons Suc.prems(3) by simp
    ultimately obtain d2 it2 where 2: "iter_collect addr d1 it1 n = Some (d2, it2, it_rest d1 it1, True)"
      "it_step addr d1 it1 d2 it2" using Suc.IH by blast
    have "it_step addr d iter d2 it2" using 1(2) 2(2) unfolding it_step_def by auto
    then show ?thesis using 1 2(1) Cons by auto
  qed
qed simp

definition dict_iterate :: "(nat \<Rightarrow> 64 word) \<Rightarrow> ('k, 'v) dict \<Rightarrow> ('k, 'v) dictIterator \<Rightarrow> nat \<Rightarrow>
    (('k, 'v) dict \<times> ('k, 'v) bucket \<times> bool) option" where
  "dict_iterate addr d iter n = do {
     (d', iter', es, fin) \<leftarrow> iter_collect addr d iter n;
     d'' \<leftarrow> dictReleaseIterator addr d' iter';
     Some (d'', es, fin)
   }"

text \<open>
  C20. A safe or unsafe iterator over a dictionary that is not modified meanwhile, also one in the middle
  of a rehash, returns every entry exactly once and then \<open>NULL\<close>; its release passes the fingerprint
  assertion and gives back the dictionary as it was, with the pause of the rehashing undone.
\<close>

theorem dictIterator_visits_once:
  assumes "dict_wf t d" "iter = dictGetIterator junk \<or> iter = dictGetSafeIterator junk"
  shows "\<exists>es. dict_iterate addr d iter (dictSize d + 1) = Some (d, es, True) \<and> mset es = entries_of d"
proof -
  have it: "it_ok d iter" "it_first iter"
    using assms(2) by (auto simp: it_ok_def it_first_def dictGetIterator_def dictGetSafeIterator_def)
  have rest: "mset (it_rest d iter) = entries_of d"
    using assms(2) dict_wf_tables(2) [OF assms(1)]
    by (auto simp: it_rest_def dictGetIterator_def dictGetSafeIterator_def entries_of_def)
  have "length (it_rest d iter) < dictSize d + 1"
    using arg_cong [OF rest, of size] dictSize_entries [OF assms(1)] by simp
  then obtain d' iter' where run: "iter_collect addr d iter (dictSize d + 1) = Some (d', iter', it_rest d iter, True)"
    "it_step addr d iter d' iter'" using iter_collect_ok [OF assms(1) it(1)] by blast
  have "dictReleaseIterator addr d' iter' = Some d"
    using run(2) it(2)
    by (auto simp: dictReleaseIterator_def it_step_def it_first_def dictPauseRehashing_def
      dictResumeRehashing_def dictFingerprint_def split: if_splits)
  then show ?thesis using run(1) rest by (simp add: dict_iterate_def)
qed

theorem dictIterator_visits_once_witness:
  "\<exists>es. dict_iterate (\<lambda>h. of_nat h) sample_dict (dictGetSafeIterator 7) 3 = Some (sample_dict, es, True) \<and>
    mset es = {#\<lparr>de_key = 1, de_val = 10\<rparr>, \<lparr>de_key = 2, de_val = 20\<rparr>#}"
proof -
  have "dictSize sample_dict + 1 = 3"
    "entries_of sample_dict = {#\<lparr>de_key = 1, de_val = 10\<rparr>, \<lparr>de_key = 2, de_val = 20\<rparr>#}"
    by (simp_all add: sample_dict_def dictSize_def entries_of_def add_mset_commute)
  then show ?thesis
    using dictIterator_visits_once [OF sample_dict_wf, of "dictGetSafeIterator 7" 7 "\<lambda>h. of_nat h"] by simp
qed

section \<open>Sampling returns entries of the dictionary\<close>

lemma rehash_steps_ok:
  assumes "dict_wf t d"
  shows "\<exists>d'. rehash_steps t n d = Some d' \<and> same_content t d d'"
  using assms
proof (induction n arbitrary: d)
  case (Suc n)
  obtain d1 where "dictRehashStep t d = Some d1" "same_content t d d1"
    using dictRehashStep_ok [OF Suc.prems] by blast
  then show ?case
    using Suc.IH [of d1] Suc.prems same_content_trans by (fastforce simp: same_content_def)
qed (simp add: same_content_def)

lemma collect_chain_ok:
  assumes "collect_chain cnt des b = (des', full)" "length des < cnt"
  shows "set des' \<subseteq> set des \<union> set b \<and> length des' \<le> cnt \<and> (\<not> full \<longrightarrow> length des' < cnt)"
  using assms
proof (induction b arbitrary: des)
  case (Cons e b)
  then show ?case by (fastforce split: if_splits)
qed simp

definition sampled :: "('k, 'v) dict \<Rightarrow> nat \<Rightarrow> ('k, 'v) sampling \<Rightarrow> bool" where
  "sampled d cnt s \<longleftrightarrow> set (sm_des s) \<subseteq> set_mset (entries_of d) \<and> length (sm_des s) \<le> cnt"

lemma someKeys_table_ok:
  assumes wf: "dict_wf t d" and s: "sampled d cnt s" "length (sm_des s) < cnt" and j: "j < 2"
  shows "\<exists>s' ret. someKeys_table d cnt tables m j s = Some (s', ret) \<and> sampled d cnt s' \<and>
    (\<not> ret \<longrightarrow> length (sm_des s') < cnt)"
proof -
  define s1 where "s1 = (if tables = 2 \<and> j = 0 \<and> int (sm_i s) < rehashidx d
    then s\<lparr>sm_i := nat (rehashidx d)\<rparr> else s)"
  have des: "sm_des s1 = sm_des s" by (simp add: s1_def)
  have len: "length (ht_table d j) = DICTHT_SIZE (ht_size_exp d j)"
    using wf j by (auto simp: dict_wf_def table_ok_def less_2_cases_iff)
  show ?thesis
  proof (cases "tables = 2 \<and> j = 0 \<and> int (sm_i s) < rehashidx d \<and> \<not> sm_i s \<ge> DICTHT_SIZE (ht_size_exp d 1) \<or>
      sm_i s1 \<ge> DICTHT_SIZE (ht_size_exp d j)")
    case True
    then show ?thesis using s des by (auto simp: someKeys_table_def s1_def Let_def sampled_def)
  next
    case False
    define he where "he = ht_table d j ! sm_i s1"
    have he: "get_bucket d j (sm_i s1) = Some he" using False len by (simp add: get_bucket_Some he_def)
    have sub: "set he \<subseteq> set_mset (entries_of d)"
      using False len j nth_mem [of "sm_i s1" "ht_table d j"]
      by (auto simp: he_def entries_of_def less_2_cases_iff)
    obtain des' full where cc: "collect_chain cnt (sm_des s) he = (des', full)" by fastforce
    have run: "someKeys_table d cnt tables m j s =
        (if he = [] then
           if sm_emptylen s1 + 1 \<ge> 5 \<and> sm_emptylen s1 + 1 > cnt then
             Some (s1\<lparr>sm_i := unat (sm_rnd s1 0 AND m), sm_emptylen := 0, sm_rnd := \<lambda>n. sm_rnd s1 (Suc n)\<rparr>, False)
           else Some (s1\<lparr>sm_emptylen := sm_emptylen s1 + 1\<rparr>, False)
         else Some (s1\<lparr>sm_emptylen := 0, sm_des := des'\<rparr>, full))"
      using False he cc des by (auto simp: someKeys_table_def Let_def next_rnd_def s1_def)
    show ?thesis
      using s sub collect_chain_ok [OF cc s(2)] des unfolding run by (auto simp: sampled_def)
  qed
qed

lemma someKeys_tables_ok:
  assumes "dict_wf t d" "sampled d cnt s" "length (sm_des s) < cnt" "\<forall>j \<in> set js. j < 2"
  shows "\<exists>s' ret. someKeys_tables d cnt tables m js s = Some (s', ret) \<and> sampled d cnt s'"
  using assms
proof (induction js arbitrary: s)
  case (Cons j js)
  obtain s1 ret where "someKeys_table d cnt tables m j s = Some (s1, ret)" "sampled d cnt s1"
    "\<not> ret \<longrightarrow> length (sm_des s1) < cnt"
    using someKeys_table_ok [OF Cons.prems(1-3), of j tables m] Cons.prems(4) by auto
  then show ?case using Cons.IH [of s1] Cons.prems(1,4) by (cases ret) (auto intro: exI [of _ True])
qed (auto intro: exI [of _ False])

lemma someKeys_loop_ok:
  assumes "dict_wf t d" "sampled d cnt s" "tables \<le> 2"
  shows "\<exists>s'. someKeys_loop d cnt tables m n s = Some s' \<and> sampled d cnt s'"
  using assms
proof (induction n arbitrary: s)
  case (Suc n)
  show ?case
  proof (cases "length (sm_des s) < cnt")
    case True
    then obtain s1 ret where 1: "someKeys_tables d cnt tables m [0..<tables] s = Some (s1, ret)" "sampled d cnt s1"
      using someKeys_tables_ok [OF Suc.prems(1,2) True, of "[0..<tables]" tables m] Suc.prems(3) by auto
    then have "sampled d cnt (s1\<lparr>sm_i := x\<rparr>)" for x by (simp add: sampled_def)
    then show ?thesis using 1 True Suc.IH Suc.prems(1,3) by (cases ret) auto
  qed (use Suc.prems in simp)
qed simp

text \<open>
  C36. \<open>dictGetSomeKeys\<close> never reads outside a table, whatever the random numbers and the state of a
  rehash, stores at most \<open>cnt\<close> entries (and at most as many as there are), and everything it stores is an
  entry of the dictionary, whose content its rehash steps do not change.
\<close>

theorem dictGetSomeKeys_sound:
  assumes "dict_wf t d"
  shows "\<exists>d' des rs'. dictGetSomeKeys t rs d cnt = Some (d', des, rs') \<and> dict_wf t d' \<and>
    entries_of d' = entries_of d \<and> set des \<subseteq> set_mset (entries_of d) \<and> length des \<le> min cnt (dictSize d)"
proof -
  define c where "c = (if dictSize d < cnt then dictSize d else cnt)"
  obtain d1 where d1: "rehash_steps t c d = Some d1" "dict_wf t d1" "entries_of d1 = entries_of d"
    using rehash_steps_ok [OF assms] by (auto simp: same_content_def)
  define tables :: nat where "tables = (if dictIsRehashing d1 then 2 else 1)"
  define m where "m = (if tables > 1 \<and> DICTHT_SIZE_MASK (ht_size_exp d1 0) < DICTHT_SIZE_MASK (ht_size_exp d1 1)
    then DICTHT_SIZE_MASK (ht_size_exp d1 1) else DICTHT_SIZE_MASK (ht_size_exp d1 0))"
  have "tables \<le> 2" by (simp add: tables_def)
  moreover define s0 :: "('a, 'b) sampling" where
    "s0 = \<lparr>sm_i = unat (rs 0 AND m), sm_emptylen = 0, sm_des = [], sm_rnd = \<lambda>n. rs (Suc n)\<rparr>"
  moreover have "sampled d1 c s0" by (simp add: sampled_def s0_def)
  ultimately obtain s where s: "someKeys_loop d1 c tables m (c * 10) s0 = Some s" "sampled d1 c s"
    using someKeys_loop_ok [OF d1(2)] by blast
  have "dictGetSomeKeys t rs d cnt = Some (d1, sm_des s, sm_rnd s)"
    unfolding dictGetSomeKeys_def c_def [symmetric] Let_def
    using d1(1) s(1) [unfolded s0_def]
    by (simp only: next_rnd_def tables_def [symmetric] m_def [symmetric] prod.case bind.bind_lunit)
  then show ?thesis using s(2) d1(2,3) by (auto simp: sampled_def c_def min_def split: if_splits)
qed

theorem dictGetSomeKeys_sound_witness:
  "\<exists>d' des rs'. dictGetSomeKeys nat_type (\<lambda>n. of_nat n) sample_dict 3 = Some (d', des, rs') \<and> length des \<le> 2"
  using dictGetSomeKeys_sound [OF sample_dict_wf, of "\<lambda>n. of_nat n" 3]
  by (force simp: sample_dict_def dictSize_def)

section \<open>A random key\<close>

lemma random_bucket_loop_const:
  assumes "random_bucket d r = Some he" "he \<noteq> []"
  shows "random_bucket_loop d (\<lambda>_. r) = Some he"
  using assms by (subst random_bucket_loop.simps) simp

lemma dictSlots_bound:
  assumes "dict_wf t d"
  shows "dictSlots d \<le> 2 ^ 61" "length (ht_table d 0) + length (ht_table d 1) = dictSlots d"
proof -
  have b: "DICTHT_SIZE (ht_size_exp d h) \<le> 2 ^ 60" if "table_ok t d h" for h
    using that power_increasing [of "nat (ht_size_exp d h)" 60 "2::nat"] by (auto simp: table_ok_def DICTHT_SIZE_def)
  have ok: "table_ok t d 0" "table_ok t d 1" using assms by (simp_all add: dict_wf_def)
  show "dictSlots d \<le> 2 ^ 61" using b [OF ok(1)] b [OF ok(2)] by (simp add: dictSlots_def)
  show "length (ht_table d 0) + length (ht_table d 1) = dictSlots d"
    using ok by (simp add: table_ok_def dictSlots_def)
qed

text \<open>Every non-empty bucket is selected by some random number.\<close>

lemma random_bucket_reaches:
  assumes wf: "dict_wf t d" and h: "h < 2" "i < length (ht_table d h)" "ht_table d h ! i \<noteq> []"
  shows "\<exists>r. random_bucket d r = Some (ht_table d h ! i)"
proof (cases "dictIsRehashing d")
  case False
  then have "h = 0" using h dict_wf_tables(2) [OF wf] by (auto simp: less_2_cases_iff)
  obtain e where e: "ht_size_exp d 0 = int e" "e \<le> 60" "length (ht_table d 0) = 2 ^ e"
    using wf h(2) \<open>h = 0\<close> by (cases "ht_size_exp d 0") (auto simp: dict_wf_def table_ok_def DICTHT_SIZE_def split: if_splits)
  have "(of_nat i :: 64 word) AND mask e = of_nat i"
    using h(2) e \<open>h = 0\<close> by (simp add: of_nat_take_bit flip: take_bit_eq_mask)
      (metis nat_take_bit_eq of_nat_take_bit take_bit_nat_eq_self)
  moreover have "i < 2 ^ 64" using h(2) e(3) \<open>h = 0\<close> power_increasing [of e 64 "2::nat"] e(2) by simp
  ultimately have "random_bucket d (of_nat i) = Some (ht_table d h ! i)"
    using False e h(2) \<open>h = 0\<close>
    by (simp add: random_bucket_def mask_as_mask get_bucket_Some unsigned_of_nat take_bit_eq_mod)
  then show ?thesis by blast
next
  case True
  note sl = dictSlots_bound [OF wf]
  define x where "x = nat (rehashidx d)"
  define p where "p = (if h = 0 then i else length (ht_table d 0) + i)"
  have ix: "0 \<le> rehashidx d" "\<forall>i < length (ht_table d 0). int i < rehashidx d \<longrightarrow> ht_table d 0 ! i = []"
    using wf True by (simp_all add: dict_wf_def rehash_ok_def)
  have len: "length (ht_table d 0) = DICTHT_SIZE (ht_size_exp d 0)" using wf by (simp add: dict_wf_def table_ok_def)
  have "i \<ge> x" if "h = 0"
  proof (rule ccontr)
    assume "\<not> i \<ge> x"
    then have "int i < rehashidx d" using ix(1) by (simp add: x_def)
    then show False using ix(2) h(2,3) that by blast
  qed
  moreover have "x \<le> length (ht_table d 0)"
    using wf True by (auto simp: dict_wf_def rehash_ok_def x_def)
  ultimately have px: "x \<le> p" "p < dictSlots d"
    using sl(2) h(1,2) by (auto simp: p_def less_2_cases_iff)
  then have "p - x < 2 ^ 64" using sl(1) by simp
  then have "unat (of_nat (p - x) :: 64 word) = p - x"
    by (simp add: unsigned_of_nat take_bit_eq_mod del: of_nat_diff)
  then have "random_bucket d (of_nat (p - x)) =
      (if p \<ge> DICTHT_SIZE (ht_size_exp d 0) then get_bucket d 1 (p - DICTHT_SIZE (ht_size_exp d 0)) else get_bucket d 0 p)"
    using px True by (simp add: random_bucket_def x_def [symmetric] Let_def del: of_nat_diff)
  also have "\<dots> = Some (ht_table d h ! i)"
    using h(1,2) len by (auto simp: p_def get_bucket_Some less_2_cases_iff)
  finally show ?thesis by blast
qed

lemma random_bucket_loop_Some:
  assumes "random_bucket_loop d rs = Some he"
  shows "\<exists>n. random_bucket d (rs n) = Some he \<and> he \<noteq> []"
proof (rule random_bucket_loop.raw_induct
    [of "\<lambda>d rs he. \<exists>n. random_bucket d (rs n) = Some he \<and> he \<noteq> []", OF _ assms])
  fix loop d rs he
  assume ih: "\<And>d rs he. loop d rs = Some he \<Longrightarrow> \<exists>n. random_bucket d (rs n) = Some he \<and> he \<noteq> []"
    and run: "do { he \<leftarrow> random_bucket d (rs 0);
      if he = [] then loop d (\<lambda>n. rs (Suc n)) else Some he } = Some he"
  show "\<exists>n. random_bucket d (rs n) = Some he \<and> he \<noteq> []"
  proof (cases "random_bucket d (rs 0)")
    case None
    then show ?thesis using run by simp
  next
    case (Some b)
    show ?thesis
    proof (cases "b = []")
      case True
      have "loop d (\<lambda>n. rs (Suc n)) = Some he" using run unfolding Some True by simp
      then show ?thesis using ih by blast
    next
      case False
      then have "b = he" using run unfolding Some by simp
      then show ?thesis using Some False by blast
    qed
  qed
qed

lemma bucket_entries: "get_bucket d h i = Some he \<Longrightarrow> h < 2 \<Longrightarrow> set he \<subseteq> set_mset (entries_of d)"
  by (auto simp: get_bucket_def entries_of_def less_2_cases_iff split: if_splits)

lemma random_bucket_entries: "random_bucket d r = Some he \<Longrightarrow> set he \<subseteq> set_mset (entries_of d)"
  using bucket_entries [of d 0 _ he] bucket_entries [of d 1 _ he]
  unfolding random_bucket_def Let_def by (simp split: if_splits)



end
