(* ===== verification/Coroutine.thy ===== *)
theory Coroutine
  imports Prelude
begin

text \<open>
  The coroutine library of \<^verbatim>\<open>coroutine/coroutine.c\<close>: a scheduler whose coroutines run on one shared stack
  that is copied out on a yield and copied back on a resume. The stack is \<open>STACK_SIZE\<close> bytes, used from
  its end downwards. \<open>None\<close> is a failed assertion or a \<open>NULL\<close> dereference. The machine contexts of
  \<open>ucontext\<close> are an opaque type \<open>'c\<close>, a coroutine's function with its argument is an opaque \<open>'f\<close>; \<open>mk\<close> is the context that \<open>makecontext\<close> prepares from the one
  \<open>getcontext\<close> stored. What a running coroutine does to the stack and the registers is arbitrary.
\<close>

section \<open>Data\<close>

definition STACK_SIZE :: nat where "STACK_SIZE = 1024 * 1024"

definition DEFAULT_COROUTINE :: nat where "DEFAULT_COROUTINE = 16"

datatype co_status = COROUTINE_DEAD | COROUTINE_READY | COROUTINE_RUNNING | COROUTINE_SUSPEND

record ('f, 'c) coroutine =
  co_func :: 'f
  co_ctx :: 'c
  co_cap :: nat
  co_size :: nat
  co_stat :: co_status
  co_stack :: "byte list"

record ('f, 'c) schedule =
  s_stack :: "byte list"
  s_main :: 'c
  s_nco :: nat
  s_cap :: nat
  s_running :: int
  s_co :: "('f, 'c) coroutine option list"

section \<open>Operations\<close>

text \<open>\<open>ctx\<close> is what the uninitialised context field of a fresh coroutine holds.\<close>

definition co_new :: "'c \<Rightarrow> 'f \<Rightarrow> ('f, 'c) coroutine" where
  "co_new ctx f = \<lparr>co_func = f, co_ctx = ctx, co_cap = 0, co_size = 0, co_stat = COROUTINE_READY, co_stack = []\<rparr>"

definition coroutine_open :: "byte list \<Rightarrow> 'c \<Rightarrow> ('f, 'c) schedule" where
  "coroutine_open junk ctx = \<lparr>s_stack = junk, s_main = ctx, s_nco = 0, s_cap = DEFAULT_COROUTINE,
     s_running = -1, s_co = replicate DEFAULT_COROUTINE None\<rparr>"

text \<open>The search for a free slot, starting at index \<open>nco\<close>; \<open>i\<close> counts up to the capacity.\<close>

function free_slot :: "('f, 'c) schedule \<Rightarrow> nat \<Rightarrow> nat option" where
  "free_slot S i =
     (if i < s_cap S then
        let cid = (i + s_nco S) mod s_cap S
        in if s_co S ! cid = None then Some cid else free_slot S (i + 1)
      else None)"
  by pat_completeness auto
termination by (relation "measure (\<lambda>(S, i). s_cap S - i)") auto

definition coroutine_new :: "'c \<Rightarrow> ('f, 'c) schedule \<Rightarrow> 'f \<Rightarrow> (('f, 'c) schedule \<times> nat) option" where
  "coroutine_new ctx S f =
     (let co = co_new ctx f in
      if s_nco S \<ge> s_cap S then
        let cid = s_cap S;
            grown = take (s_cap S) (s_co S) @ replicate (s_cap S) None
        in Some (S\<lparr>s_co := grown[cid := Some co], s_cap := s_cap S * 2, s_nco := s_nco S + 1\<rparr>, cid)
      else
        case free_slot S 0 of
          Some cid \<Rightarrow> Some (S\<lparr>s_co := (s_co S)[cid := Some co], s_nco := s_nco S + 1\<rparr>, cid)
        | None \<Rightarrow> None)"

text \<open>
  The scheduler's address travels to \<open>mainfunc\<close> as two 32-bit arguments: the casts in
  \<open>coroutine_resume\<close> and the assembly in \<open>mainfunc\<close>.
\<close>

definition ptr_args :: "64 word \<Rightarrow> 32 word \<times> 32 word" where
  "ptr_args ptr = (ucast ptr, ucast (drop_bit 32 ptr))"

definition mainfunc_ptr :: "32 word \<Rightarrow> 32 word \<Rightarrow> 64 word" where
  "mainfunc_ptr low32 hi32 = ucast low32 OR push_bit 32 (ucast hi32)"

text \<open>
  The end of \<open>mainfunc\<close>, once the coroutine's function has returned: the coroutine is deleted and the
  context it links to, the scheduler's, becomes the current one.
\<close>

definition mainfunc_end :: "('f, 'c) schedule \<Rightarrow> (('f, 'c) schedule \<times> 'c) option" where
  "mainfunc_end S =
     (let cid = nat (s_running S) in
      if s_running S < 0 \<or> \<not> cid < length (s_co S) \<or> s_co S ! cid = None then None
      else Some (S\<lparr>s_co := (s_co S)[cid := None], s_nco := s_nco S - 1, s_running := -1\<rparr>, s_main S))"

text \<open>
  \<open>coroutine_resume\<close> up to and including its context switch; \<open>regs\<close> is the current context of the caller.
  The result is the scheduler and the context that runs next.
\<close>

definition coroutine_resume :: "('c \<Rightarrow> 'c) \<Rightarrow> 'c \<Rightarrow> ('f, 'c) schedule \<Rightarrow> int \<Rightarrow> (('f, 'c) schedule \<times> 'c) option" where
  "coroutine_resume mk regs S cid =
     (if s_running S \<noteq> -1 then None
      else if \<not> (cid \<ge> 0 \<and> cid < int (s_cap S)) then None
      else case s_co S ! nat cid of
        None \<Rightarrow> Some (S, regs)
      | Some C \<Rightarrow>
          (case co_stat C of
             COROUTINE_READY \<Rightarrow>
               let C = C\<lparr>co_ctx := mk regs, co_stat := COROUTINE_RUNNING\<rparr>
               in Some (S\<lparr>s_running := cid, s_co := (s_co S)[nat cid := Some C], s_main := regs\<rparr>, co_ctx C)
           | COROUTINE_SUSPEND \<Rightarrow>
               let stk = take (STACK_SIZE - co_size C) (s_stack S) @ take (co_size C) (co_stack C);
                   C = C\<lparr>co_stat := COROUTINE_RUNNING\<rparr>
               in Some (S\<lparr>s_stack := stk, s_running := cid, s_co := (s_co S)[nat cid := Some C], s_main := regs\<rparr>,
                        co_ctx C)
           | _ \<Rightarrow> None))"

text \<open>
  \<open>_save_stack\<close>: \<open>depth\<close> is \<open>top - &dummy\<close>, the number of bytes from the end of the shared stack to the
  current frame; \<open>junk\<close> is what freshly allocated memory holds.
\<close>

definition save_stack :: "(nat \<Rightarrow> byte) \<Rightarrow> byte list \<Rightarrow> ('f, 'c) coroutine \<Rightarrow> nat \<Rightarrow> ('f, 'c) coroutine option" where
  "save_stack junk shared C depth =
     (if depth > STACK_SIZE then None
      else
        let C = (if co_cap C < depth
                 then C\<lparr>co_cap := depth, co_stack := map junk [0..<depth]\<rparr> else C);
            C = C\<lparr>co_size := depth\<rparr>
        in Some (C\<lparr>co_stack := drop (STACK_SIZE - depth) shared @ drop depth (co_stack C)\<rparr>))"

text \<open>\<open>pos\<close> is \<open>S->stack + STACK_SIZE - (char *)&C\<close>, for the assertion that the caller runs on the shared stack.\<close>

definition coroutine_yield :: "(nat \<Rightarrow> byte) \<Rightarrow> 'c \<Rightarrow> ('f, 'c) schedule \<Rightarrow> nat \<Rightarrow> nat \<Rightarrow>
    (('f, 'c) schedule \<times> 'c) option" where
  "coroutine_yield junk regs S pos depth =
     (let cid = nat (s_running S) in
      if s_running S < 0 then None
      else if \<not> cid < length (s_co S) then None
      else case s_co S ! cid of
        None \<Rightarrow> None
      | Some C \<Rightarrow>
          if \<not> pos < STACK_SIZE then None
          else (case save_stack junk (s_stack S) C depth of
            None \<Rightarrow> None
          | Some C \<Rightarrow>
              let C = C\<lparr>co_stat := COROUTINE_SUSPEND, co_ctx := regs\<rparr>
              in Some (S\<lparr>s_co := (s_co S)[cid := Some C], s_running := -1\<rparr>, s_main S)))"

definition coroutine_status :: "('f, 'c) schedule \<Rightarrow> int \<Rightarrow> co_status option" where
  "coroutine_status S cid =
     (if \<not> (cid \<ge> 0 \<and> cid < int (s_cap S)) then None
      else case s_co S ! nat cid of None \<Rightarrow> Some COROUTINE_DEAD | Some C \<Rightarrow> Some (co_stat C))"

definition coroutine_running :: "('f, 'c) schedule \<Rightarrow> int" where
  "coroutine_running S = s_running S"

text \<open>\<open>coroutine_close\<close>: the coroutines it deletes, in order.\<close>

definition coroutine_close :: "('f, 'c) schedule \<Rightarrow> ('f, 'c) coroutine list" where
  "coroutine_close S = List.map_filter (\<lambda>i. s_co S ! i) [0..<s_cap S]"

declare free_slot.simps [simp del]

section \<open>The system\<close>

text \<open>
  The steps of a program that uses the scheduler. \<open>ERun\<close> is anything the running coroutine does between
  calls: it may write its whole shared stack and change its registers. \<open>EMain\<close> is the same for the main
  program, which runs on its own stack.
\<close>

datatype ('f, 'c) co_event =
  ENew 'f | EResume int | EYield nat nat | EFinish | ERun "byte list" 'c | EMain 'c

type_synonym ('f, 'c) co_sys = "('f, 'c) schedule \<times> 'c"

inductive co_step :: "('c \<Rightarrow> 'c) \<Rightarrow> 'c \<Rightarrow> (nat \<Rightarrow> byte) \<Rightarrow> ('f, 'c) co_sys \<Rightarrow> ('f, 'c) co_event \<Rightarrow> ('f, 'c) co_sys \<Rightarrow> bool"
  for mk :: "'c \<Rightarrow> 'c" and ctx :: 'c and junk :: "nat \<Rightarrow> byte" where
  step_new: "coroutine_new ctx S f = Some (S', cid) \<Longrightarrow> co_step mk ctx junk (S, r) (ENew f) (S', r)"
| step_resume: "coroutine_resume mk r S cid = Some (S', r') \<Longrightarrow> co_step mk ctx junk (S, r) (EResume cid) (S', r')"
| step_yield: "coroutine_yield junk r S pos depth = Some (S', r') \<Longrightarrow>
    co_step mk ctx junk (S, r) (EYield pos depth) (S', r')"
| step_finish: "mainfunc_end S = Some (S', r') \<Longrightarrow> co_step mk ctx junk (S, r) EFinish (S', r')"
| step_run: "s_running S \<noteq> -1 \<Longrightarrow> length stk = STACK_SIZE \<Longrightarrow>
    co_step mk ctx junk (S, r) (ERun stk r') (S\<lparr>s_stack := stk\<rparr>, r')"
| step_main: "s_running S = -1 \<Longrightarrow> co_step mk ctx junk (S, r) (EMain r') (S, r')"

inductive co_steps :: "('c \<Rightarrow> 'c) \<Rightarrow> 'c \<Rightarrow> (nat \<Rightarrow> byte) \<Rightarrow> ('f, 'c) co_sys \<Rightarrow> ('f, 'c) co_event list \<Rightarrow> ('f, 'c) co_sys \<Rightarrow> bool"
  for mk :: "'c \<Rightarrow> 'c" and ctx :: 'c and junk :: "nat \<Rightarrow> byte" where
  steps_nil: "co_steps mk ctx junk s [] s"
| steps_cons: "co_step mk ctx junk s e s1 \<Longrightarrow> co_steps mk ctx junk s1 es s2 \<Longrightarrow> co_steps mk ctx junk s (e # es) s2"

inductive_cases co_stepE: "co_step mk ctx junk s e s'"

inductive_cases co_steps_ConsE: "co_steps mk ctx junk s (e # es) s'"

section \<open>Invariant\<close>

definition live :: "('f, 'c) schedule \<Rightarrow> nat set" where
  "live S = {i. i < length (s_co S) \<and> s_co S ! i \<noteq> None}"

definition co_ok :: "('f, 'c) coroutine \<Rightarrow> bool" where
  "co_ok C \<longleftrightarrow> co_size C \<le> STACK_SIZE \<and> co_size C \<le> co_cap C \<and> length (co_stack C) = co_cap C"

definition sched_ok :: "('f, 'c) schedule \<Rightarrow> bool" where
  "sched_ok S \<longleftrightarrow>
     length (s_co S) = s_cap S \<and> 0 < s_cap S \<and> s_nco S = card (live S) \<and> length (s_stack S) = STACK_SIZE \<and>
     (s_running S = -1 \<or> 0 \<le> s_running S \<and> nat (s_running S) \<in> live S) \<and>
     (\<forall>i < length (s_co S). \<forall>C. s_co S ! i = Some C \<longrightarrow>
        co_ok C \<and> co_stat C \<noteq> COROUTINE_DEAD \<and> (co_stat C = COROUTINE_RUNNING \<longleftrightarrow> s_running S = int i))"

lemma finite_live [simp]: "finite (live S)"
  by (simp add: live_def)

lemma live_update:
  "i < length (s_co S) \<Longrightarrow> s_co S' = (s_co S)[i := x] \<Longrightarrow>
     live S' = (if x = None then live S - {i} else insert i (live S))"
  by (auto simp: live_def nth_list_update split: if_splits)

lemma free_slot_None:
  "free_slot S i = None \<Longrightarrow> i \<le> j \<Longrightarrow> j < s_cap S \<Longrightarrow> s_co S ! ((j + s_nco S) mod s_cap S) \<noteq> None"
proof (induction S i rule: free_slot.induct)
  case (1 S i)
  then have i: "i < s_cap S" by simp
  have "s_co S ! ((i + s_nco S) mod s_cap S) \<noteq> None" "free_slot S (i + 1) = None"
    using "1.prems"(1) i by (subst (asm) free_slot.simps; simp add: Let_def split: if_splits)+
  then show ?case using "1.IH" [OF i refl] "1.prems"(2,3) by (cases "i = j") auto
qed

lemma free_slot_Some:
  "free_slot S i = Some cid \<Longrightarrow> 0 < s_cap S \<Longrightarrow> cid < s_cap S \<and> s_co S ! cid = None"
proof (induction S i rule: free_slot.induct)
  case (1 S i)
  have "i < s_cap S" using "1.prems"(1) by (subst (asm) free_slot.simps) (simp split: if_splits)
  then show ?case
    using 1 by (subst (asm) (2) free_slot.simps) (auto simp: Let_def split: if_splits)
qed

lemma free_slot_ok:
  assumes "sched_ok S" "s_nco S < s_cap S"
  obtains cid where "free_slot S 0 = Some cid" "cid < s_cap S" "s_co S ! cid = None"
proof (cases "free_slot S 0")
  case None
  have cap: "0 < s_cap S" "length (s_co S) = s_cap S" "s_nco S = card (live S)"
    using assms(1) by (auto simp: sched_ok_def)
  have "t \<in> live S" if t: "t < s_cap S" for t
  proof -
    define j where "j = (t + s_cap S - s_nco S) mod s_cap S"
    have "j < s_cap S" using cap(1) by (simp add: j_def)
    moreover have "(j + s_nco S) mod s_cap S = t"
      using t assms(2) by (simp add: j_def mod_add_left_eq)
    ultimately have "s_co S ! t \<noteq> None" using free_slot_None [OF None] by (metis le0)
    then show ?thesis using t cap(2) by (simp add: live_def)
  qed
  then have "{..<s_cap S} \<subseteq> live S" by auto
  then have "s_cap S \<le> card (live S)" using card_mono [of "live S" "{..<s_cap S}"] by simp
  then show thesis using assms(2) cap(3) by simp
next
  case (Some cid)
  then show thesis using that free_slot_Some [OF Some] assms(1) by (auto simp: sched_ok_def)
qed

lemma sched_ok_open: "length junk = STACK_SIZE \<Longrightarrow> sched_ok (coroutine_open junk ctx)"
  by (simp add: sched_ok_def coroutine_open_def live_def DEFAULT_COROUTINE_def)

lemma coroutine_new_ok:
  assumes ok: "sched_ok S"
  shows "\<exists>S' cid. coroutine_new ctx S f = Some (S', cid) \<and> sched_ok S' \<and> cid \<notin> live S \<and>
    live S' = insert cid (live S) \<and> s_co S' ! cid = Some (co_new ctx f) \<and> s_running S' = s_running S \<and>
    s_stack S' = s_stack S \<and> s_main S' = s_main S \<and> (\<forall>i \<in> live S. s_co S' ! i = s_co S ! i)"
proof (cases "s_nco S \<ge> s_cap S")
  case True
  define co where "co = s_co S @ replicate (s_cap S) None"
  define S' where "S' = S\<lparr>s_co := co[s_cap S := Some (co_new ctx f)], s_cap := s_cap S * 2, s_nco := s_nco S + 1\<rparr>"
  have len: "length (s_co S) = s_cap S" "0 < s_cap S" using ok by (auto simp: sched_ok_def)
  have at: "s_co S' ! i = (if i = s_cap S then Some (co_new ctx f) else if i < s_cap S then s_co S ! i else None)"
    if "i < 2 * s_cap S" for i
    using that len by (auto simp: S'_def co_def nth_append nth_list_update)
  have lenS: "length (s_co S') = 2 * s_cap S" using len by (simp add: S'_def co_def)
  have live: "live S' = insert (s_cap S) (live S)"
    using at len lenS by (auto simp: live_def split: if_splits)
  have notin: "s_cap S \<notin> live S" using len by (simp add: live_def)
  have run: "coroutine_new ctx S f = Some (S', s_cap S)"
    using True len by (simp add: coroutine_new_def S'_def co_def Let_def)
  have "sched_ok S'"
    using ok live notin lenS at unfolding sched_ok_def
    by (auto simp: S'_def co_new_def co_ok_def live_def split: if_splits)
  moreover have "\<forall>i \<in> live S. s_co S' ! i = s_co S ! i" "s_co S' ! s_cap S = Some (co_new ctx f)"
    using at len by (auto simp: live_def)
  moreover have "s_running S' = s_running S" "s_stack S' = s_stack S" "s_main S' = s_main S"
    by (simp_all add: S'_def)
  ultimately show ?thesis using run live notin by blast
next
  case False
  obtain cid where cid: "free_slot S 0 = Some cid" "cid < s_cap S" "s_co S ! cid = None"
    using free_slot_ok [OF ok] False by auto
  define S' where "S' = S\<lparr>s_co := (s_co S)[cid := Some (co_new ctx f)], s_nco := s_nco S + 1\<rparr>"
  have len: "length (s_co S) = s_cap S" using ok by (simp add: sched_ok_def)
  have live: "live S' = insert cid (live S)"
    using live_update [of cid S S' "Some (co_new ctx f)"] cid len by (simp add: S'_def)
  have notin: "cid \<notin> live S" using cid by (simp add: live_def)
  have run: "coroutine_new ctx S f = Some (S', cid)" using False cid by (simp add: coroutine_new_def S'_def)
  have "sched_ok S'"
    using ok live notin cid unfolding sched_ok_def
    by (auto simp: S'_def co_new_def co_ok_def nth_list_update live_def split: if_splits)
  then show ?thesis
    using run live notin len cid by (auto simp: S'_def live_def nth_list_update)
qed

lemma coroutine_resume_ok:
  assumes ok: "sched_ok S" and idle: "s_running S = -1" and i: "i < s_cap S" and C: "s_co S ! i = Some C"
  obtains (ready) S' where "co_stat C = COROUTINE_READY"
      "coroutine_resume mk r S (int i) = Some (S', mk r)" "sched_ok S'" "s_running S' = int i"
      "s_main S' = r" "live S' = live S" "\<forall>j. j \<noteq> i \<longrightarrow> s_co S' ! j = s_co S ! j"
  | (suspend) S' where "co_stat C = COROUTINE_SUSPEND"
      "coroutine_resume mk r S (int i) = Some (S', co_ctx C)" "sched_ok S'" "s_running S' = int i"
      "s_main S' = r" "live S' = live S" "\<forall>j. j \<noteq> i \<longrightarrow> s_co S' ! j = s_co S ! j"
      "drop (STACK_SIZE - co_size C) (s_stack S') = take (co_size C) (co_stack C)"
proof -
  have len: "length (s_co S) = s_cap S" "length (s_stack S) = STACK_SIZE" using ok by (simp_all add: sched_ok_def)
  have C': "co_ok C" "co_stat C \<noteq> COROUTINE_DEAD" "co_stat C \<noteq> COROUTINE_RUNNING"
    using ok i C idle len by (auto simp: sched_ok_def)
  have li: "i \<in> live S" using i C len by (simp add: live_def)
  define S1 where "S1 = (\<lambda>stk X. S\<lparr>s_stack := stk, s_running := int i, s_co := (s_co S)[i := Some X], s_main := r\<rparr>)"
  have S1: "sched_ok (S1 stk X)" "live (S1 stk X) = live S"
    if "length stk = STACK_SIZE" "co_ok X" "co_stat X = COROUTINE_RUNNING" for stk X
  proof -
    show l: "live (S1 stk X) = live S"
      using live_update [of i S "S1 stk X" "Some X"] i len li by (auto simp: S1_def)
    have "nat (s_running (S1 stk X)) \<in> live (S1 stk X)" using l li by (simp add: S1_def)
    moreover have "s_nco (S1 stk X) = card (live (S1 stk X))" using l ok by (simp add: S1_def sched_ok_def)
    moreover have "\<forall>j < length (s_co (S1 stk X)). \<forall>Y. s_co (S1 stk X) ! j = Some Y \<longrightarrow>
        co_ok Y \<and> co_stat Y \<noteq> COROUTINE_DEAD \<and> (co_stat Y = COROUTINE_RUNNING \<longleftrightarrow> s_running (S1 stk X) = int j)"
      using ok that idle i by (auto simp: S1_def nth_list_update sched_ok_def split: if_splits)
    ultimately show "sched_ok (S1 stk X)"
      using ok that(1) by (simp add: sched_ok_def) (simp add: S1_def)
  qed
  show thesis
  proof (cases "co_stat C")
    case COROUTINE_READY
    let ?X = "C\<lparr>co_ctx := mk r, co_stat := COROUTINE_RUNNING\<rparr>"
    have "coroutine_resume mk r S (int i) = Some (S1 (s_stack S) ?X, mk r)"
      using COROUTINE_READY idle i C by (simp add: coroutine_resume_def S1_def)
    then show thesis
      using ready [of "S1 (s_stack S) ?X"] COROUTINE_READY S1 [of "s_stack S" ?X] len(2) C'(1)
      by (simp add: S1_def co_ok_def)
  next
    case COROUTINE_SUSPEND
    let ?X = "C\<lparr>co_stat := COROUTINE_RUNNING\<rparr>"
    let ?stk = "take (STACK_SIZE - co_size C) (s_stack S) @ take (co_size C) (co_stack C)"
    have l: "length ?stk = STACK_SIZE" using C'(1) len(2) by (simp add: co_ok_def)
    have "coroutine_resume mk r S (int i) = Some (S1 ?stk ?X, co_ctx C)"
      using COROUTINE_SUSPEND idle i C by (simp add: coroutine_resume_def S1_def)
    then show thesis
      using suspend [of "S1 ?stk ?X"] COROUTINE_SUSPEND S1 [of ?stk ?X] l C'(1) len(2)
      by (simp add: S1_def co_ok_def)
  qed (use C' in auto)
qed

lemma coroutine_resume_dead:
  assumes "sched_ok S" "s_running S = -1" "0 \<le> cid" "cid < int (s_cap S)" "s_co S ! nat cid = None"
  shows "coroutine_resume mk r S cid = Some (S, r)"
  using assms by (simp add: coroutine_resume_def)

lemma coroutine_yield_ok:
  assumes ok: "sched_ok S" and run: "coroutine_yield junk r S pos depth = Some (S', r')"
  obtains i C' where "s_running S = int i" "i \<in> live S" "sched_ok S'" "s_running S' = -1" "r' = s_main S"
    "live S' = live S" "\<forall>j. j \<noteq> i \<longrightarrow> s_co S' ! j = s_co S ! j" "s_stack S' = s_stack S"
    "s_co S' ! i = Some C'" "co_stat C' = COROUTINE_SUSPEND" "co_ctx C' = r" "co_size C' = depth"
    "take depth (co_stack C') = drop (STACK_SIZE - depth) (s_stack S)" "depth \<le> STACK_SIZE"
proof -
  define i where "i = nat (s_running S)"
  obtain C where C: "0 \<le> s_running S" "i < length (s_co S)" "s_co S ! i = Some C" "depth \<le> STACK_SIZE"
    using run by (auto simp: coroutine_yield_def save_stack_def i_def Let_def split: if_splits option.splits)
  have ri: "s_running S = int i" using C(1) by (simp add: i_def)
  have cok: "co_ok C" and len: "length (s_stack S) = STACK_SIZE" using ok C by (auto simp: sched_ok_def)
  define C0 where "C0 = (if co_cap C < depth then C\<lparr>co_cap := depth, co_stack := map junk [0..<depth]\<rparr> else C)"
  have C0: "depth \<le> co_cap C0" "length (co_stack C0) = co_cap C0"
    using cok by (auto simp: C0_def co_ok_def)
  define C' where "C' = C0\<lparr>co_size := depth, co_stack := drop (STACK_SIZE - depth) (s_stack S) @ drop depth (co_stack C0),
    co_stat := COROUTINE_SUSPEND, co_ctx := r\<rparr>"
  have C'_ok: "co_ok C'" using C0 C(4) len by (simp add: co_ok_def C'_def)
  have S': "S' = S\<lparr>s_co := (s_co S)[i := Some C'], s_running := -1\<rparr>" "r' = s_main S"
    using run C by (auto simp: coroutine_yield_def save_stack_def Let_def i_def [symmetric] C0_def C'_def split: if_splits)
  have li: "i \<in> live S" using C by (simp add: live_def)
  have live: "live S' = live S"
    using live_update [of i S S' "Some C'"] C(2) S'(1) li by auto
  have "\<forall>j < length (s_co S'). \<forall>Y. s_co S' ! j = Some Y \<longrightarrow> co_ok Y \<and> co_stat Y \<noteq> COROUTINE_DEAD \<and>
      (co_stat Y = COROUTINE_RUNNING \<longleftrightarrow> s_running S' = int j)"
    using ok C'_ok ri C(2) by (auto simp: S'(1) nth_list_update sched_ok_def C'_def split: if_splits)
  moreover have "length (s_co S') = s_cap S'" "0 < s_cap S'" "s_nco S' = card (live S')" "length (s_stack S') = STACK_SIZE"
    "s_running S' = -1"
    using ok live by (simp_all add: sched_ok_def) (simp_all add: S'(1))
  ultimately have "sched_ok S'" unfolding sched_ok_def by blast
  moreover have "take depth (co_stack C') = drop (STACK_SIZE - depth) (s_stack S)"
    using C(4) len by (simp add: C'_def)
  ultimately show thesis
    using that [of i C'] ri li live S' C(2,4) by (simp add: C'_def)
qed

lemma mainfunc_end_ok:
  assumes ok: "sched_ok S" and run: "mainfunc_end S = Some (S', r')"
  obtains i where "s_running S = int i" "i \<in> live S" "sched_ok S'" "s_running S' = -1" "r' = s_main S"
    "live S' = live S - {i}" "\<forall>j. j \<noteq> i \<longrightarrow> s_co S' ! j = s_co S ! j"
proof -
  define i where "i = nat (s_running S)"
  have i: "0 \<le> s_running S" "i < length (s_co S)" "s_co S ! i \<noteq> None" and
    S': "S' = S\<lparr>s_co := (s_co S)[i := None], s_nco := s_nco S - 1, s_running := -1\<rparr>" "r' = s_main S"
    using run by (auto simp: mainfunc_end_def Let_def i_def split: if_splits)
  have ri: "s_running S = int i" using i(1) by (simp add: i_def)
  have li: "i \<in> live S" using i by (simp add: live_def)
  have live: "live S' = live S - {i}" using live_update [of i S S' None] i(2) S'(1) by simp
  have "\<forall>j < length (s_co S'). \<forall>Y. s_co S' ! j = Some Y \<longrightarrow> co_ok Y \<and> co_stat Y \<noteq> COROUTINE_DEAD \<and>
      (co_stat Y = COROUTINE_RUNNING \<longleftrightarrow> s_running S' = int j)"
    using ok ri i(2) by (auto simp: S'(1) nth_list_update sched_ok_def split: if_splits)
  moreover have "length (s_co S') = s_cap S'" "0 < s_cap S'" "s_nco S' = card (live S')" "length (s_stack S') = STACK_SIZE"
    "s_running S' = -1"
    using ok live li by (simp_all add: sched_ok_def) (simp_all add: S'(1))
  ultimately have "sched_ok S'" unfolding sched_ok_def by blast
  then show thesis using that [of i] ri li live S' by simp
qed

section \<open>Runs\<close>

lemma co_step_ok:
  assumes "co_step mk ctx junk s e s'" "sched_ok (fst s)"
  shows "sched_ok (fst s')"
  using assms
proof (cases rule: co_step.cases)
  case (step_new S f S' cid r)
  then show ?thesis using coroutine_new_ok [of S ctx f] assms(2) by auto
next
  case (step_resume r S cid S' r')
  then have c: "s_running S = -1" "0 \<le> cid" "cid < int (s_cap S)"
    by (auto simp: coroutine_resume_def split: if_splits)
  then obtain i where i: "cid = int i" "i < s_cap S" by (metis nonneg_int_cases of_nat_less_iff)
  show ?thesis
  proof (cases "s_co S ! i")
    case None
    then show ?thesis using step_resume i c(1) assms(2) by (simp add: coroutine_resume_def)
  next
    case (Some C)
    from step_resume assms(2) have "sched_ok S" by simp
    from coroutine_resume_ok [OF this c(1) i(2) Some, of mk r] show ?thesis
      using step_resume i(1) by cases auto
  qed
next
  case (step_yield r S pos depth S' r')
  then show ?thesis using coroutine_yield_ok [of S junk r pos depth S' r'] assms(2) by auto
next
  case (step_finish S S' r' r)
  then show ?thesis using mainfunc_end_ok [of S S' r'] assms(2) by auto
next
  case (step_run S stk r r')
  then show ?thesis using assms(2) by (simp add: sched_ok_def live_def)
next
  case (step_main S r r')
  then show ?thesis using assms(2) by simp
qed

lemma co_steps_ok: "co_steps mk ctx junk s es s' \<Longrightarrow> sched_ok (fst s) \<Longrightarrow> sched_ok (fst s')"
  by (induction rule: co_steps.induct) (auto dest: co_step_ok)

lemma reachable_ok:
  "length stk0 = STACK_SIZE \<Longrightarrow> co_steps mk ctx junk (coroutine_open stk0 m0, r0) es (S, r) \<Longrightarrow> sched_ok S"
  using co_steps_ok [of mk ctx junk "(coroutine_open stk0 m0, r0)" es "(S, r)"] sched_ok_open [of stk0 m0] by simp

text \<open>A coroutine that is not running is untouched by every step but its own resumption.\<close>

definition parked :: "('f, 'c) schedule \<Rightarrow> nat \<Rightarrow> ('f, 'c) coroutine \<Rightarrow> bool" where
  "parked S i C \<longleftrightarrow> i \<in> live S \<and> s_co S ! i = Some C \<and> s_running S \<noteq> int i"

lemma co_step_parked:
  assumes "co_step mk ctx junk s e s'" "sched_ok (fst s)" "parked (fst s) i C" "e \<noteq> EResume (int i)"
  shows "parked (fst s') i C"
  using assms(1)
proof (cases rule: co_step.cases)
  case (step_new S f S' cid r)
  then show ?thesis
    using coroutine_new_ok [of S ctx f] assms(2,3)
    by (auto simp: parked_def)
next
  case (step_resume r S cid S' r')
  then have c: "s_running S = -1" "0 \<le> cid" "cid < int (s_cap S)"
    by (auto simp: coroutine_resume_def split: if_splits)
  then obtain j where j: "cid = int j" "j < s_cap S" by (metis nonneg_int_cases of_nat_less_iff)
  then have ne: "j \<noteq> i" using step_resume assms(4) by auto
  have ok: "sched_ok S" and pk: "parked S i C" using assms(2,3) step_resume by simp_all
  show ?thesis
  proof (cases "s_co S ! j")
    case None
    then show ?thesis using step_resume j c(1) assms(3) by (simp add: coroutine_resume_def)
  next
    case (Some D)
    from coroutine_resume_ok [OF ok c(1) j(2) Some, of mk r] show ?thesis
      using step_resume j(1) ne pk by cases (auto simp: parked_def)
  qed
next
  case (step_yield r S pos depth S' r')
  then have ok: "sched_ok S" and pk: "parked S i C" using assms(2,3) by simp_all
  from coroutine_yield_ok [OF ok step_yield(4)] show ?thesis
    using step_yield(3) pk by cases (auto simp: parked_def)
next
  case (step_finish S S' r' r)
  then have ok: "sched_ok S" and pk: "parked S i C" using assms(2,3) by simp_all
  from mainfunc_end_ok [OF ok step_finish(4)] show ?thesis
    using step_finish(3) pk by cases (auto simp: parked_def)
next
  case (step_run S stk r r')
  then show ?thesis using assms(3) by (simp add: parked_def live_def)
next
  case (step_main S r r')
  then show ?thesis using assms(3) by simp
qed

lemma co_steps_parked:
  "co_steps mk ctx junk s es s' \<Longrightarrow> sched_ok (fst s) \<Longrightarrow> parked (fst s) i C \<Longrightarrow> EResume (int i) \<notin> set es \<Longrightarrow>
     parked (fst s') i C"
  by (induction rule: co_steps.induct) (auto dest: co_step_ok co_step_parked)

section \<open>Properties\<close>

text \<open>
  C6. Isolation on the shared stack. Take any run of the system from a fresh scheduler to a point where
  the running coroutine yields with \<open>depth\<close> bytes in use. Whatever happens next (other coroutines are
  created, resumed, overwrite the whole shared stack, yield and finish) without this coroutine being
  resumed, the next resume of it succeeds, makes it the running one, and gives back exactly the bytes it
  had in use and the machine context it was saved with.
\<close>

theorem coroutine_isolation:
  assumes "length stk0 = STACK_SIZE"
    and "co_steps mk ctx junk (coroutine_open stk0 m0, r0) es0 (S0, r)"
    and "coroutine_yield junk r S0 pos depth = Some (S1, r1)"
    and "co_steps mk ctx junk (S1, r1) es (S2, r2)"
    and "EResume (s_running S0) \<notin> set es" "s_running S2 = -1"
  shows "\<exists>S3. coroutine_resume mk r2 S2 (s_running S0) = Some (S3, r) \<and> s_running S3 = s_running S0 \<and>
    drop (STACK_SIZE - depth) (s_stack S3) = drop (STACK_SIZE - depth) (s_stack S0)"
proof -
  have ok0: "sched_ok S0" using assms(1,2) by (rule reachable_ok)
  show ?thesis
  proof (rule coroutine_yield_ok [OF ok0 assms(3)])
    fix i C
    assume y: "s_running S0 = int i" "i \<in> live S0" "sched_ok S1" "s_running S1 = -1"
      "live S1 = live S0" "s_co S1 ! i = Some C" "co_stat C = COROUTINE_SUSPEND" "co_ctx C = r" "co_size C = depth"
      "take depth (co_stack C) = drop (STACK_SIZE - depth) (s_stack S0)"
    have "parked S1 i C" using y by (simp add: parked_def)
    then have pk: "parked S2 i C" and ok2: "sched_ok S2"
      using co_steps_parked [OF assms(4), of i C] co_steps_ok [OF assms(4)] assms(5) y(1,3) by simp_all
    then have i: "i < s_cap S2" and C: "s_co S2 ! i = Some C"
      by (auto simp: parked_def live_def sched_ok_def)
    from coroutine_resume_ok [OF ok2 assms(6) i C, of mk r2] show ?thesis
      using y by cases auto
  qed
qed


text \<open>
  C40. The address of the scheduler survives its passage through the two 32-bit arguments of \<open>mainfunc\<close>.
\<close>

theorem mainfunc_ptr_roundtrip: "(\<lambda>(low32, hi32). mainfunc_ptr low32 hi32) (ptr_args ptr) = ptr"
  by (rule bit_word_eqI) (auto simp: ptr_args_def mainfunc_ptr_def bit_simps)

text \<open>A run with two coroutines: the first yields, the second overwrites the stack and yields.\<close>

definition demo_stack :: "nat \<Rightarrow> byte list" where "demo_stack b = replicate STACK_SIZE (of_nat b)"

definition demo_sched :: "(bool, nat) schedule" where
  "demo_sched = (coroutine_open (demo_stack 1) 7)\<lparr>s_nco := 2, s_running := 0,
     s_co := [Some ((co_new 0 True)\<lparr>co_ctx := 8, co_stat := COROUTINE_RUNNING\<rparr>), Some (co_new 0 False)] @ replicate 14 None\<rparr>"

lemma demo_run:
  "co_steps Suc 0 (\<lambda>n. 0) (coroutine_open (demo_stack 0) 0, 7)
     [ENew True, ENew False, EResume 0, ERun (demo_stack 1) 9] (demo_sched, 9)"
proof -
  let ?S0 = "coroutine_open (demo_stack 0) 0 :: (bool, nat) schedule"
  define S1 where "S1 = ?S0\<lparr>s_co := Some (co_new 0 True) # replicate 15 None, s_nco := 1\<rparr>"
  define S2 where "S2 = S1\<lparr>s_co := Some (co_new 0 True) # Some (co_new 0 False) # replicate 14 None, s_nco := 2\<rparr>"
  have rep: "replicate 16 None = None # replicate 15 (None :: 'x option)"
    "replicate 15 None = None # replicate 14 (None :: 'x option)" by (simp_all add: numeral_eq_Suc)
  have "coroutine_new 0 ?S0 True = Some (S1, 0)"
    by (simp add: coroutine_new_def free_slot.simps coroutine_open_def DEFAULT_COROUTINE_def S1_def rep)
  moreover have "coroutine_new 0 S1 False = Some (S2, 1)"
    by (simp add: coroutine_new_def free_slot.simps coroutine_open_def DEFAULT_COROUTINE_def S1_def S2_def rep)
  moreover have "coroutine_resume Suc 7 S2 0 = Some (demo_sched\<lparr>s_stack := demo_stack 0\<rparr>, 8)"
    by (simp add: coroutine_resume_def S1_def S2_def coroutine_open_def co_new_def demo_sched_def DEFAULT_COROUTINE_def)
  moreover have "co_step Suc 0 (\<lambda>n. 0) (demo_sched\<lparr>s_stack := demo_stack 0\<rparr>, 8) (ERun (demo_stack 1) 9) (demo_sched, 9)"
    using step_run [of "demo_sched\<lparr>s_stack := demo_stack 0\<rparr>" "demo_stack 1" Suc 0 "\<lambda>n. 0" 8 9]
    by (simp add: demo_sched_def demo_stack_def coroutine_open_def)
  ultimately show ?thesis by (meson steps_cons steps_nil step_new step_resume)
qed

theorem coroutine_isolation_witness:
  "\<exists>S1 S2 S3. coroutine_yield (\<lambda>n. 0) 9 demo_sched 3 4 = Some (S1, 7) \<and>
    co_steps Suc 0 (\<lambda>n. 0) (S1, 7) [EResume 1, ERun (demo_stack 2) 5, EFinish] (S2, 7) \<and>
    coroutine_resume Suc 7 S2 0 = Some (S3, 9) \<and>
    drop (STACK_SIZE - 4) (s_stack S3) = drop (STACK_SIZE - 4) (demo_stack 1)"
proof -
  define C :: "(bool, nat) coroutine" where "C = \<lparr>co_func = True, co_ctx = 9, co_cap = 4, co_size = 4, co_stat = COROUTINE_SUSPEND,
    co_stack = drop (STACK_SIZE - 4) (demo_stack 1)\<rparr>"
  define D where "D = co_new (0 :: nat) False"
  define S1 where "S1 = demo_sched\<lparr>s_co := [Some C, Some D] @ replicate 14 None, s_running := -1\<rparr>"
  define S2 where "S2 = S1\<lparr>s_co := [Some C, None] @ replicate 14 None, s_stack := demo_stack 2, s_nco := 1\<rparr>"
  let ?A = "S1\<lparr>s_running := 1, s_co := [Some C, Some (D\<lparr>co_ctx := 8, co_stat := COROUTINE_RUNNING\<rparr>)] @ replicate 14 None\<rparr>"
  have big: "\<not> STACK_SIZE < 4" "3 < STACK_SIZE" by (simp_all add: STACK_SIZE_def)
  have y: "coroutine_yield (\<lambda>n. 0) 9 demo_sched 3 4 = Some (S1, 7)"
    using big by (simp add: coroutine_yield_def save_stack_def demo_sched_def coroutine_open_def co_new_def S1_def C_def D_def)
  have "coroutine_resume Suc 7 S1 1 = Some (?A, 8)"
    by (simp add: coroutine_resume_def S1_def D_def co_new_def demo_sched_def coroutine_open_def DEFAULT_COROUTINE_def)
  moreover have "co_step Suc 0 (\<lambda>n. 0) (?A, 8) (ERun (demo_stack 2) 5) (?A\<lparr>s_stack := demo_stack 2\<rparr>, 5)"
    by (rule step_run) (simp_all add: demo_stack_def)
  moreover have "mainfunc_end (?A\<lparr>s_stack := demo_stack 2\<rparr>) = Some (S2, 7)"
    by (simp add: mainfunc_end_def S2_def S1_def demo_sched_def coroutine_open_def)
  ultimately have r: "co_steps Suc 0 (\<lambda>n. 0) (S1, 7) [EResume 1, ERun (demo_stack 2) 5, EFinish] (S2, 7)"
    by (meson steps_cons steps_nil step_resume step_finish)
  have "s_running demo_sched = 0" "s_running S2 = -1" "s_stack demo_sched = demo_stack 1" "length (demo_stack 0) = STACK_SIZE"
    by (simp_all add: demo_sched_def S2_def S1_def demo_stack_def coroutine_open_def)
  then show ?thesis
    using coroutine_isolation [OF _ demo_run y r] y r by auto
qed


end
