(* ===== verification/NumStr.thy ===== *)
theory NumStr
  imports Prelude
begin

text \<open>
  The integer to string conversions of \<^verbatim>\<open>redis/src/util.c\<close>, on byte strings (ASCII codes) and checked
  buffers, with the decimal notation they are meant to implement as the reference. The main results are
  that the strict parser accepts exactly the canonical notation of the 64-bit integers and that the
  printer, which writes two digits at a time from the end of the buffer, produces it.
\<close>

section \<open>Model\<close>

definition ULLONG_MAX :: nat where "ULLONG_MAX = 2 ^ 64 - 1"

definition LLONG_MAX :: nat where "LLONG_MAX = 2 ^ 63 - 1"

definition LLONG_MIN :: int where "LLONG_MIN = - (2 ^ 63)"

definition LONG_STR_SIZE :: nat where "LONG_STR_SIZE = 21"

definition ch_minus :: byte where "ch_minus = 45"

definition ch_zero :: byte where "ch_zero = 48"

definition isdigit :: "byte \<Rightarrow> bool" where
  "isdigit c \<longleftrightarrow> 48 \<le> unat c \<and> unat c \<le> 57"

function digits10 :: "nat \<Rightarrow> nat" where
  "digits10 v =
     (if v < 10 then 1
      else if v < 100 then 2
      else if v < 1000 then 3
      else if v < 1000000000000 then
        if v < 100000000 then
          if v < 1000000 then
            if v < 10000 then 4 else 5 + of_bool (v \<ge> 100000)
          else 7 + of_bool (v \<ge> 10000000)
        else if v < 10000000000 then 9 + of_bool (v \<ge> 1000000000)
        else 11 + of_bool (v \<ge> 100000000000)
      else 12 + digits10 (v div 1000000000000))"
  by pat_completeness auto
termination by (relation "measure id") auto

definition sdigits10 :: "int \<Rightarrow> nat" where
  "sdigits10 v =
     (if v < 0 then
        let uv = (if v \<noteq> LLONG_MIN then nat (- v) else LLONG_MAX + 1) in digits10 uv + 1
      else digits10 (nat v))"

text \<open>The table of \<open>ull2string\<close>: the two digits of every number below 100.\<close>

definition digits_table :: "byte list" where
  "digits_table = map of_char
    (''0001020304050607080910111213141516171819'' @
     ''2021222324252627282930313233343536373839'' @
     ''4041424344454647484950515253545556575859'' @
     ''6061626364656667686970717273747576777879'' @
     ''8081828384858687888990919293949596979899'')"

text \<open>A checked byte store at an index that may have run below the buffer.\<close>

definition store :: "byte list \<Rightarrow> int \<Rightarrow> byte \<Rightarrow> byte list option" where
  "store m i b = (if 0 \<le> i \<and> nat i < length m then Some (m[nat i := b]) else None)"

function ull2string_loop :: "byte list \<Rightarrow> int \<Rightarrow> nat \<Rightarrow> (byte list \<times> int \<times> nat) option" where
  "ull2string_loop dst nx v =
     (if v \<ge> 100 then
        let i = (v mod 100) * 2; v' = v div 100 in
        case store dst nx (digits_table ! (i + 1)) of None \<Rightarrow> None | Some dst \<Rightarrow>
        (case store dst (nx - 1) (digits_table ! i) of None \<Rightarrow> None | Some dst \<Rightarrow>
         ull2string_loop dst (nx - 2) v')
      else Some (dst, nx, v))"
  by pat_completeness auto
termination by (relation "measure (\<lambda>(_, _, v). v)") auto

text \<open>
  \<open>dst\<close> is the memory from the destination pointer on; the result has the number of characters, \<open>0\<close> when
  the string and its terminator do not fit in \<open>dstlen\<close>.
\<close>

definition ull2string :: "byte list \<Rightarrow> nat \<Rightarrow> nat \<Rightarrow> (byte list \<times> nat) option" where
  "ull2string dst dstlen value =
     (let len = digits10 value in
      if len \<ge> dstlen then Some (dst, 0)
      else do {
        let nx = int len - 1;
        dst \<leftarrow> store dst (nx + 1) 0;
        (dst, nx, v) \<leftarrow> ull2string_loop dst nx value;
        if v < 10 then do {
          dst \<leftarrow> store dst nx (48 + of_nat v);
          Some (dst, len)
        } else do {
          let i = v * 2;
          dst \<leftarrow> store dst nx (digits_table ! (i + 1));
          dst \<leftarrow> store dst (nx - 1) (digits_table ! i);
          Some (dst, len)
        }
      })"

definition ll2string :: "byte list \<Rightarrow> nat \<Rightarrow> int \<Rightarrow> (byte list \<times> nat) option" where
  "ll2string dst dstlen svalue =
     (if svalue < 0 then
        let value = (if svalue \<noteq> LLONG_MIN then nat (- svalue) else LLONG_MAX + 1) in
        if dstlen < 2 then Some (dst, 0)
        else do {
          dst \<leftarrow> store dst 0 ch_minus;
          (rest, len) \<leftarrow> ull2string (tl dst) (dstlen - 1) value;
          Some (hd dst # rest, if len = 0 then 0 else len + 1)
        }
      else ull2string dst dstlen (nat svalue))"

text \<open>The digit loop of \<open>string2ll\<close>: \<open>None\<close> is the overflow exit, else the value and the unread rest.\<close>

fun string2ll_loop :: "nat \<Rightarrow> byte list \<Rightarrow> (nat \<times> byte list) option" where
  "string2ll_loop v [] = Some (v, [])"
| "string2ll_loop v (c # s) =
     (if isdigit c then
        if v > ULLONG_MAX div 10 then None
        else let v = v * 10 in
          if v > ULLONG_MAX - (unat c - 48) then None
          else string2ll_loop (v + (unat c - 48)) s
      else Some (v, c # s))"

definition string2ll :: "byte list \<Rightarrow> int option" where
  "string2ll s =
     (if length s = 0 \<or> length s \<ge> LONG_STR_SIZE then None
      else if length s = 1 \<and> s ! 0 = ch_zero then Some 0
      else
        let negative = (s ! 0 = ch_minus);
            p = (if negative then tl s else s)
        in case p of
          [] \<Rightarrow> None
        | c # p' \<Rightarrow>
            if 49 \<le> unat c \<and> unat c \<le> 57 then
              (case string2ll_loop (unat c - 48) p' of
                 None \<Rightarrow> None
               | Some (v, rest) \<Rightarrow>
                   if rest \<noteq> [] then None
                   else if negative then
                     if int v > - (LLONG_MIN + 1) + 1 then None else Some (- int v)
                   else if v > LLONG_MAX then None else Some (int v))
            else None)"

text \<open>\<open>string2l\<close> for a 64-bit \<open>long\<close>.\<close>

definition string2l :: "byte list \<Rightarrow> int option" where
  "string2l s = (case string2ll s of
     None \<Rightarrow> None
   | Some llval \<Rightarrow> if llval < - (2 ^ 63) \<or> llval > 2 ^ 63 - 1 then None else Some llval)"

declare digits10.simps [simp del] ull2string_loop.simps [simp del]

section \<open>The decimal notation\<close>

definition digit_char :: "nat \<Rightarrow> byte" where
  "digit_char d = 48 + of_nat d"

function udec :: "nat \<Rightarrow> byte list" where
  "udec n = (if n < 10 then [digit_char n] else udec (n div 10) @ [digit_char (n mod 10)])"
  by pat_completeness auto
termination by (relation "measure id") auto

definition sdec :: "int \<Rightarrow> byte list" where
  "sdec v = (if v < 0 then ch_minus # udec (nat (- v)) else udec (nat v))"

declare udec.simps [simp del]

lemma unat_digit_char [simp]: "d < 10 \<Longrightarrow> unat (digit_char d) = 48 + d"
  by (simp add: digit_char_def unat_word_ariths unsigned_of_nat take_bit_eq_mod)

lemma isdigit_digit_char [simp]: "d < 10 \<Longrightarrow> isdigit (digit_char d)"
  by (simp add: isdigit_def)

lemma digit_char_unat: "isdigit c \<Longrightarrow> digit_char (unat c - 48) = c"
  by (rule word_unat_eq_iff [THEN iffD2]) (auto simp: isdigit_def)

lemma udec_small: "n < 10 \<Longrightarrow> udec n = [digit_char n]"
  by (simp add: udec.simps)

lemma udec_step: "0 < m \<Longrightarrow> d < 10 \<Longrightarrow> udec (m * 10 + d) = udec m @ [digit_char d]"
  by (subst udec.simps) auto

lemma udec_nonempty [simp]: "udec n \<noteq> []"
  by (subst udec.simps) simp

lemma udec_bounds: "n < 10 ^ length (udec n)" "10 \<le> n \<Longrightarrow> 10 ^ (length (udec n) - 1) \<le> n"
proof -
  have "n < 10 ^ length (udec n) \<and> (10 \<le> n \<longrightarrow> 10 ^ (length (udec n) - 1) \<le> n)"
  proof (induction n rule: udec.induct)
    case (1 n)
    show ?case
    proof (cases "n < 10")
      case True
      then show ?thesis by (simp add: udec_small)
    next
      case False
      then have u: "udec n = udec (n div 10) @ [digit_char (n mod 10)]" by (subst udec.simps) simp
      have ih: "n div 10 < 10 ^ length (udec (n div 10))"
        "10 \<le> n div 10 \<Longrightarrow> 10 ^ (length (udec (n div 10)) - 1) \<le> n div 10"
        using "1.IH" [OF False] by auto
      have "n < 10 * 10 ^ length (udec (n div 10))" using ih(1) by (simp add: div_less_iff_less_mult mult.commute)
      moreover have "10 ^ length (udec (n div 10)) \<le> n"
      proof (cases "10 \<le> n div 10")
        case True
        obtain l where l: "length (udec (n div 10)) = Suc l"
          using udec_nonempty [of "n div 10"] by (cases "length (udec (n div 10))") auto
        then show ?thesis using ih(2) [OF True] by simp
      next
        case F: False
        then show ?thesis using False by (simp add: udec_small)
      qed
      ultimately show ?thesis by (simp add: u)
    qed
  qed
  then show "n < 10 ^ length (udec n)" "10 \<le> n \<Longrightarrow> 10 ^ (length (udec n) - 1) \<le> n" by auto
qed

lemma udec_lower: "0 < n \<Longrightarrow> 10 ^ (length (udec n) - 1) \<le> n"
  using udec_bounds(2) [of n] by (cases "n < 10") (auto simp: udec_small)

lemma length_udec:
  assumes "10 ^ k \<le> n" "n < 10 ^ (k + 1)"
  shows "length (udec n) = k + 1"
proof -
  have "0 < n" using assms(1) by (metis gr0I le_zero_eq power_not_zero zero_neq_numeral)
  then have lo: "10 ^ (length (udec n) - 1) \<le> n" by (rule udec_lower)
  have "(10::nat) ^ k < 10 ^ length (udec n)" using assms(1) udec_bounds(1) [of n] by linarith
  then have "k < length (udec n)" by (rule power_less_imp_less_exp [rotated]) simp
  moreover have "(10::nat) ^ (length (udec n) - 1) < 10 ^ (k + 1)" using lo assms(2) by linarith
  then have "length (udec n) - 1 < k + 1" by (rule power_less_imp_less_exp [rotated]) simp
  ultimately show ?thesis by linarith
qed

lemma length_udec_small: "n < 10 \<Longrightarrow> length (udec n) = 1"
  by (simp add: udec_small)

lemma digits10_eq: "digits10 v = length (udec v)"
proof (induction v rule: digits10.induct)
  case (1 v)
  show ?case
  proof (cases "v < 1000000000000")
    case True
    consider "v < 10"
      | "\<not> v < 10" "v < 100"
      | "\<not> v < 100" "v < 1000"
      | "\<not> v < 1000" "v < 10000"
      | "\<not> v < 10000" "v < 100000"
      | "\<not> v < 100000" "v < 1000000"
      | "\<not> v < 1000000" "v < 10000000"
      | "\<not> v < 10000000" "v < 100000000"
      | "\<not> v < 100000000" "v < 1000000000"
      | "\<not> v < 1000000000" "v < 10000000000"
      | "\<not> v < 10000000000" "v < 100000000000"
      | "\<not> v < 100000000000" "v < 1000000000000"
      using True by blast
    then show ?thesis
    proof cases
      case 1
      then show ?thesis using length_udec_small [of v] by (simp add: digits10.simps [of v])
    next
      case 2
      then show ?thesis using length_udec [of 1 v] by (simp add: digits10.simps [of v])
    next
      case 3
      then show ?thesis using length_udec [of 2 v] by (simp add: digits10.simps [of v])
    next
      case 4
      then show ?thesis using length_udec [of 3 v] by (simp add: digits10.simps [of v])
    next
      case 5
      then show ?thesis using length_udec [of 4 v] by (simp add: digits10.simps [of v])
    next
      case 6
      then show ?thesis using length_udec [of 5 v] by (simp add: digits10.simps [of v])
    next
      case 7
      then show ?thesis using length_udec [of 6 v] by (simp add: digits10.simps [of v])
    next
      case 8
      then show ?thesis using length_udec [of 7 v] by (simp add: digits10.simps [of v])
    next
      case 9
      then show ?thesis using length_udec [of 8 v] by (simp add: digits10.simps [of v])
    next
      case 10
      then show ?thesis using length_udec [of 9 v] by (simp add: digits10.simps [of v])
    next
      case 11
      then show ?thesis using length_udec [of 10 v] by (simp add: digits10.simps [of v])
    next
      case 12
      then show ?thesis using length_udec [of 11 v] by (simp add: digits10.simps [of v])
    qed
  next
    case False
    then have big: "1000000000000 \<le> v" by simp
    define q where "q = v div 1000000000000"
    define l where "l = length (udec q) - 1"
    have q: "0 < q" using big by (simp add: q_def div_greater_zero_iff)
    have l: "length (udec q) = l + 1" using udec_nonempty [of q] by (cases "udec q") (simp_all add: l_def)
    have "10 ^ l \<le> q" using udec_lower [OF q] by (simp add: l_def)
    then have "10 ^ l * 1000000000000 \<le> v" by (simp add: q_def less_eq_div_iff_mult_less_eq)
    moreover have "q < 10 ^ (l + 1)" using udec_bounds(1) [of q] l by simp
    then have "v < 10 ^ (l + 1) * 1000000000000" by (simp add: q_def div_less_iff_less_mult)
    moreover have "(10::nat) ^ (l + 12) = 10 ^ l * 1000000000000" "(10::nat) ^ (l + 12 + 1) = 10 ^ (l + 1) * 1000000000000"
      by (simp_all add: power_add)
    ultimately have "length (udec v) = (l + 12) + 1" by (intro length_udec) linarith+
    moreover have "digits10 v = 12 + digits10 q"
      using big by (subst digits10.simps) (simp add: q_def)
    moreover have "digits10 q = length (udec q)"
      using "1.IH" big by (simp add: q_def)
    ultimately show ?thesis using l by simp
  qed
qed

section \<open>Printing\<close>

lemma nth_pair_table:
  assumes "n < k"
  shows "concat (map (\<lambda>n. [f n, g n]) [0..<k]) ! (n * 2) = f n"
    "concat (map (\<lambda>n. [f n, g n]) [0..<k]) ! (n * 2 + 1) = g n"
proof -
  have len: "length (concat (map (\<lambda>n. [f n, g n]) [0..<k])) = 2 * k" for k by (induction k) auto
  show "concat (map (\<lambda>n. [f n, g n]) [0..<k]) ! (n * 2) = f n"
    "concat (map (\<lambda>n. [f n, g n]) [0..<k]) ! (n * 2 + 1) = g n"
    using assms by (induction k) (auto simp: nth_append len less_Suc_eq simp del: length_concat)
qed

lemma digits_table_nth:
  assumes "n < 100"
  shows "digits_table ! (n * 2) = digit_char (n div 10)" "digits_table ! (n * 2 + 1) = digit_char (n mod 10)"
proof -
  have t: "digits_table = concat (map (\<lambda>n. [digit_char (n div 10), digit_char (n mod 10)]) [0..<100])"
  proof -
    have "[0..<100] = 0 # 1 # [2..<100]" by (simp add: upt_conv_Cons numeral_2_eq_2)
    then show ?thesis by (simp add: digits_table_def digit_char_def del: One_nat_def)
  qed
  show "digits_table ! (n * 2) = digit_char (n div 10)" "digits_table ! (n * 2 + 1) = digit_char (n mod 10)"
    unfolding t by (rule nth_pair_table [OF assms])+
qed

lemma udec_two:
  assumes "v \<ge> 100"
  shows "udec v = udec (v div 100) @ [digit_char (v mod 100 div 10), digit_char (v mod 100 mod 10)]"
proof -
  have "udec v = udec (v div 10) @ [digit_char (v mod 10)]" using assms by (subst udec.simps) simp
  also have "udec (v div 10) = udec (v div 10 div 10) @ [digit_char (v div 10 mod 10)]"
    using assms by (subst udec.simps) simp
  finally show ?thesis
    by (simp add: div_mult2_eq [symmetric] mod_mult2_eq [of v 10 10, simplified])
qed

lemma store_nat [simp]: "i < length m \<Longrightarrow> store m (int i) b = Some (m[i := b])"
  by (simp add: store_def)

lemma ull2string_loop_ok:
  assumes "nx = int (length (udec v)) - 1" "length (udec v) \<le> length dst"
  shows "\<exists>dst' w. ull2string_loop dst nx v = Some (dst', int (length (udec w)) - 1, w) \<and> w < 100 \<and>
    length dst' = length dst \<and> length (udec w) \<le> length dst \<and>
    udec w @ drop (length (udec w)) dst' = udec v @ drop (length (udec v)) dst"
  using assms
proof (induction dst nx v rule: ull2string_loop.induct)
  case (1 dst nx v)
  show ?case
  proof (cases "v \<ge> 100")
    case False
    then show ?thesis using "1.prems" by (subst ull2string_loop.simps) auto
  next
    case True
    define q a b k where "q = v div 100" and "a = digit_char (v mod 100 div 10)" and "b = digit_char (v mod 100 mod 10)"
      and "k = length (udec q)"
    have u: "udec v = udec q @ [a, b]" using udec_two [OF True] by (simp add: q_def a_def b_def)
    have nx: "nx = int (k + 1)" "nx - 1 = int k" "k + 2 \<le> length dst" "nx - 2 = int (length (udec q)) - 1"
      using "1.prems" u by (simp_all add: k_def)
    define d1 where "d1 = dst[k + 1 := b]"
    define d2 where "d2 = d1[k := a]"
    have tab: "digits_table ! (v mod 100 * 2) = a" "digits_table ! (v mod 100 * 2 + 1) = b"
      using digits_table_nth [of "v mod 100"] by (simp_all add: a_def b_def)
    have st: "store dst nx b = Some d1" "store d1 (nx - 1) a = Some d2"
      using nx(3) by (auto simp: store_def nx(1,2) d1_def d2_def nat_add_distrib)
    have step: "ull2string_loop dst nx v = ull2string_loop d2 (nx - 2) q"
      using True st by (subst ull2string_loop.simps) (simp only: Let_def tab q_def if_True option.case)
    have len: "length d2 = length dst" by (simp add: d1_def d2_def)
    obtain dst' w where ih: "ull2string_loop d2 (nx - 2) q = Some (dst', int (length (udec w)) - 1, w)" "w < 100"
      "length dst' = length d2" "length (udec w) \<le> length d2"
      "udec w @ drop (length (udec w)) dst' = udec q @ drop (length (udec q)) d2"
      using "1.IH" [OF True refl refl, unfolded tab, OF st(1) st(2)] nx(3,4) len by (auto simp: q_def k_def)
    have "drop k d2 = a # b # drop (k + 2) dst"
      using nx(3) by (simp add: d1_def d2_def drop_update_swap Cons_nth_drop_Suc [symmetric] nth_list_update)
    then show ?thesis using ih step len u by (auto simp: k_def)
  qed
qed

lemma ull2string_eq:
  assumes "dstlen \<le> length dst"
  shows "ull2string dst dstlen v = Some
    (if length (udec v) < dstlen then (udec v @ 0 # drop (length (udec v) + 1) dst, length (udec v)) else (dst, 0))"
proof (cases "length (udec v) < dstlen")
  case False
  then show ?thesis by (simp add: ull2string_def digits10_eq)
next
  case True
  define n where "n = length (udec v)"
  define d0 where "d0 = dst[n := 0]"
  have n: "n < length dst" using True assms by (simp add: n_def)
  have d0: "length d0 = length dst" "drop n d0 = 0 # drop (n + 1) dst"
    using n by (simp_all add: d0_def drop_update_swap Cons_nth_drop_Suc [symmetric])
  obtain d1 w where loop: "ull2string_loop d0 (int n - 1) v = Some (d1, int (length (udec w)) - 1, w)" "w < 100"
    "length d1 = length d0" "length (udec w) \<le> length d0"
    "udec w @ drop (length (udec w)) d1 = udec v @ drop (length (udec v)) d0"
    using ull2string_loop_ok [of "int n - 1" v d0] n d0(1) by (auto simp: n_def)
  have st: "store dst (int n - 1 + 1) 0 = Some d0" using n by (simp add: d0_def)
  have res: "udec w @ drop (length (udec w)) d1 = udec v @ 0 # drop (n + 1) dst" using loop(5) d0(2) by (simp add: n_def)
  show ?thesis
  proof (cases "w < 10")
    case s: True
    then have u: "udec w = [digit_char w]" by (rule udec_small)
    then have "d1[0 := digit_char w] = udec v @ 0 # drop (n + 1) dst"
      using res loop(3,4) by (cases d1) auto
    moreover have "store d1 0 (digit_char w) = Some (d1[0 := digit_char w])"
      using loop(3,4) u by (cases d1) (auto simp: store_def)
    ultimately show ?thesis using True s st loop(1) u
      by (simp add: ull2string_def digits10_eq n_def [symmetric] digit_char_def)
  next
    case s: False
    then have u: "udec w = [digit_char (w div 10), digit_char (w mod 10)]"
      using loop(2) by (subst udec.simps) (simp add: udec_small)
    then have l2: "2 \<le> length d1" using loop(3,4) by simp
    have tab: "digits_table ! (w * 2) = digit_char (w div 10)" "digits_table ! (w * 2 + 1) = digit_char (w mod 10)"
      using digits_table_nth [OF loop(2)] by simp_all
    have "d1[1 := digit_char (w mod 10), 0 := digit_char (w div 10)] = udec v @ 0 # drop (n + 1) dst"
      using res l2 u by (cases d1; cases "tl d1") auto
    moreover have "store d1 1 (digit_char (w mod 10)) = Some (d1[1 := digit_char (w mod 10)])"
      "store (d1[1 := digit_char (w mod 10)]) 0 (digit_char (w div 10)) =
        Some (d1[1 := digit_char (w mod 10), 0 := digit_char (w div 10)])"
      using l2 by (cases d1; auto simp: store_def)+
    ultimately show ?thesis using True s st loop(1) u tab
      by (simp add: ull2string_def digits10_eq n_def [symmetric])
  qed
qed

lemma magnitude_eq: "LLONG_MIN \<le> v \<Longrightarrow> (if v \<noteq> LLONG_MIN then nat (- v) else LLONG_MAX + 1) = nat (- v)"
  by (simp add: LLONG_MIN_def LLONG_MAX_def)

lemma ll2string_eq:
  assumes "dstlen \<le> length dst" "LLONG_MIN \<le> v" "length (sdec v) < dstlen"
  shows "ll2string dst dstlen v = Some (sdec v @ 0 # drop (length (sdec v) + 1) dst, length (sdec v))"
proof (cases "v < 0")
  case False
  then show ?thesis using assms by (simp add: ll2string_def sdec_def ull2string_eq)
next
  case True
  obtain x xs where d: "dst = x # xs" using assms by (cases dst) auto
  have "store dst 0 ch_minus = Some (ch_minus # xs)" by (simp add: store_def d)
  moreover have "ull2string xs (dstlen - 1) (nat (- v)) =
    Some (udec (nat (- v)) @ 0 # drop (length (udec (nat (- v))) + 1) xs, length (udec (nat (- v))))"
    using assms True d by (subst ull2string_eq) (auto simp: sdec_def)
  moreover have "\<not> dstlen < 2" using assms(3) True udec_nonempty [of "nat (- v)"]
    by (cases "udec (nat (- v))") (auto simp: sdec_def)
  ultimately show ?thesis using True magnitude_eq [OF assms(2)]
    by (simp add: ll2string_def sdec_def d)
qed

lemma ll2string_short:
  assumes "dstlen \<le> length dst" "LLONG_MIN \<le> v" "dstlen \<le> length (sdec v)"
  shows "\<exists>dst'. ll2string dst dstlen v = Some (dst', 0) \<and> length dst' = length dst"
proof (cases "v < 0 \<and> 2 \<le> dstlen")
  case False
  show ?thesis
  proof (cases "v < 0")
    case True
    then show ?thesis using False by (simp add: ll2string_def Let_def)
  next
    case F: False
    then show ?thesis using assms by (simp add: ll2string_def sdec_def ull2string_eq)
  qed
next
  case True
  obtain x xs where d: "dst = x # xs" using assms True by (cases dst) auto
  have "store dst 0 ch_minus = Some (ch_minus # xs)" by (simp add: store_def d)
  moreover have "ull2string xs (dstlen - 1) (nat (- v)) = Some (xs, 0)"
    using assms True d by (subst ull2string_eq) (auto simp: sdec_def)
  ultimately show ?thesis using True magnitude_eq [OF assms(2)] d
    by (simp add: ll2string_def)
qed

section \<open>Parsing\<close>

definition uval :: "nat \<Rightarrow> byte list \<Rightarrow> nat" where
  "uval a s = foldl (\<lambda>a c. a * 10 + (unat c - 48)) a s"

lemma uval_simps [simp]: "uval a [] = a" "uval a (c # s) = uval (a * 10 + (unat c - 48)) s" "uval a (s @ t) = uval (uval a s) t"
  by (simp_all add: uval_def)

lemma uval_mono: "a \<le> uval a s"
proof (induction s arbitrary: a)
  case (Cons c s)
  show ?case using Cons.IH [of "a * 10 + (unat c - 48)"] by simp
qed simp

lemma uval_udec [simp]: "uval 0 (udec n) = n"
proof (induction n rule: udec.induct)
  case (1 n)
  show ?case
  proof (cases "n < 10")
    case False
    then have "udec n = udec (n div 10) @ [digit_char (n mod 10)]" by (subst udec.simps) simp
    then show ?thesis using "1.IH" [OF False] by simp
  qed (simp add: udec_small)
qed

lemma udec_digits: "c \<in> set (udec n) \<Longrightarrow> isdigit c"
proof (induction n rule: udec.induct)
  case (1 n)
  show ?case
  proof (cases "n < 10")
    case False
    then have "udec n = udec (n div 10) @ [digit_char (n mod 10)]" by (subst udec.simps) simp
    then show ?thesis using "1.IH" [OF False] "1.prems" by auto
  qed (use "1.prems" in \<open>simp add: udec_small\<close>)
qed

lemma udec_head:
  assumes "0 < n"
  shows "\<exists>d p. udec n = digit_char d # p \<and> 1 \<le> d \<and> d \<le> 9"
  using assms
proof (induction n rule: udec.induct)
  case (1 n)
  show ?case
  proof (cases "n < 10")
    case False
    then have "udec n = udec (n div 10) @ [digit_char (n mod 10)]" by (subst udec.simps) simp
    then show ?thesis using "1.IH" [OF False] False by (auto simp: div_greater_zero_iff)
  qed (use "1.prems" in \<open>auto simp: udec_small\<close>)
qed

lemma udec_uval:
  assumes "0 < a" "\<forall>c \<in> set s. isdigit c"
  shows "udec (uval a s) = udec a @ s"
  using assms
proof (induction s arbitrary: a)
  case (Cons c s)
  have "unat c - 48 < 10" "digit_char (unat c - 48) = c"
    using Cons.prems(2) by (auto simp: isdigit_def digit_char_unat)
  then have "udec (a * 10 + (unat c - 48)) = udec a @ [c]"
    using udec_step [OF Cons.prems(1), of "unat c - 48"] by simp
  then show ?case using Cons.IH [of "a * 10 + (unat c - 48)"] Cons.prems by simp
qed simp

lemma string2ll_loop_sound:
  "string2ll_loop v s = Some (w, []) \<Longrightarrow> w = uval v s \<and> (\<forall>c \<in> set s. isdigit c)"
  by (induction v s rule: string2ll_loop.induct) (auto simp: Let_def split: if_splits)

lemma string2ll_loop_complete:
  "\<forall>c \<in> set s. isdigit c \<Longrightarrow> uval v s \<le> ULLONG_MAX \<Longrightarrow> string2ll_loop v s = Some (uval v s, [])"
proof (induction v s rule: string2ll_loop.induct)
  case (2 v c s)
  define d where "d = unat c - 48"
  have "v * 10 + d \<le> ULLONG_MAX" using "2.prems"(2) uval_mono [of "v * 10 + d" s] by (simp add: d_def)
  then have "\<not> v > ULLONG_MAX div 10" "\<not> v * 10 > ULLONG_MAX - d" by linarith+
  then show ?case using "2.IH" "2.prems" by (simp add: d_def)
qed simp

lemma string2ll_sound:
  assumes "string2ll s = Some v"
  shows "LLONG_MIN \<le> v \<and> v \<le> int LLONG_MAX \<and> s = sdec v"
proof (cases "length s = 1 \<and> s ! 0 = ch_zero")
  case True
  then have "s = [48]" by (cases s) (auto simp: ch_zero_def)
  moreover have "v = 0" using assms True by (simp add: string2ll_def split: if_splits)
  ultimately show ?thesis by (simp add: sdec_def udec_small digit_char_def LLONG_MIN_def LLONG_MAX_def)
next
  case False
  define negative where "negative = (s ! 0 = ch_minus)"
  have len: "s \<noteq> []" "length s < LONG_STR_SIZE" using assms by (auto simp: string2ll_def split: if_splits)
  obtain c p where cp: "(if negative then tl s else s) = c # p"
    using assms False len by (cases "if negative then tl s else s") (auto simp: string2ll_def negative_def Let_def split: if_splits)
  have c: "49 \<le> unat c" "unat c \<le> 57"
    using assms False len cp by (auto simp: string2ll_def negative_def Let_def split: if_splits)
  have "(case string2ll_loop (unat c - 48) p of None \<Rightarrow> None | Some (v, rest) \<Rightarrow>
      if rest \<noteq> [] then None else if negative then if int v > - (LLONG_MIN + 1) + 1 then None else Some (- int v)
      else if v > LLONG_MAX then None else Some (int v)) = Some v"
    using assms False len cp c by (simp add: string2ll_def negative_def [symmetric] split: if_splits)
  then obtain w where w: "string2ll_loop (unat c - 48) p = Some (w, [])"
    "if negative then int w \<le> - (LLONG_MIN + 1) + 1 \<and> v = - int w else w \<le> LLONG_MAX \<and> v = int w"
    by (auto split: option.splits prod.splits if_splits)
  have d: "0 < unat c - 48" "unat c - 48 < 10" "isdigit c" using c by (auto simp: isdigit_def)
  have "udec w = udec (unat c - 48) @ p" "0 < w"
    using string2ll_loop_sound [OF w(1)] udec_uval [OF d(1)] uval_mono [of "unat c - 48" p] d(1) by auto
  then have u: "udec w = c # p" "0 < w" using d by (simp_all add: udec_small digit_char_unat)
  show ?thesis
  proof (cases negative)
    case True
    then have "s = ch_minus # c # p" using cp len(1) by (cases s) (auto simp: negative_def)
    then show ?thesis using True w(2) u by (simp add: sdec_def LLONG_MIN_def)
  next
    case F: False
    then show ?thesis using cp w(2) u by (simp add: sdec_def LLONG_MIN_def)
  qed
qed

lemma length_udec_le: "n < 10 ^ k \<Longrightarrow> 0 < k \<Longrightarrow> length (udec n) \<le> k"
proof (rule ccontr)
  assume n: "n < 10 ^ k" "0 < k" and "\<not> length (udec n) \<le> k"
  then have k: "k \<le> length (udec n) - 1" by simp
  then have "(10::nat) ^ k \<le> 10 ^ (length (udec n) - 1)" by (rule power_increasing) simp
  moreover have "0 < n" using \<open>\<not> length (udec n) \<le> k\<close> \<open>0 < k\<close> by (cases "n = 0") (auto simp: udec_small)
  ultimately show False using udec_lower [of n] n by linarith
qed

lemma length_sdec_le:
  assumes "LLONG_MIN \<le> v" "v \<le> int LLONG_MAX"
  shows "length (sdec v) < LONG_STR_SIZE"
proof -
  have "nat v < 10 ^ 19" "nat (- v) < 10 ^ 19" using assms by (simp_all add: LLONG_MIN_def LLONG_MAX_def)
  then show ?thesis using length_udec_le [of "nat v" 19] length_udec_le [of "nat (- v)" 19]
    by (simp add: sdec_def LONG_STR_SIZE_def)
qed

lemma string2ll_complete:
  assumes "LLONG_MIN \<le> v" "v \<le> int LLONG_MAX"
  shows "string2ll (sdec v) = Some v"
proof (cases "v = 0")
  case True
  then show ?thesis
    by (simp add: string2ll_def sdec_def udec_small digit_char_def ch_zero_def LONG_STR_SIZE_def)
next
  case False
  define w where "w = nat \<bar>v\<bar>"
  have w: "0 < w" using False by (simp add: w_def)
  obtain d p where u: "udec w = digit_char d # p" "1 \<le> d" "d \<le> 9" using udec_head [OF w] by blast
  have un: "unat (digit_char d) = 48 + d" using u by simp
  have "w \<le> ULLONG_MAX" using assms by (simp add: w_def LLONG_MIN_def LLONG_MAX_def ULLONG_MAX_def)
  moreover have "uval d p = w" using uval_udec [of w] u un by simp
  moreover have "\<forall>c \<in> set p. isdigit c" using udec_digits [of _ w] u by auto
  ultimately have loop: "string2ll_loop d p = Some (w, [])" using string2ll_loop_complete [of p d] by simp
  have ne: "digit_char d \<noteq> ch_minus" "digit_char d \<noteq> ch_zero" using un u(2)
    by (auto simp: ch_minus_def ch_zero_def simp del: unat_digit_char)
  have len: "length (sdec v) < LONG_STR_SIZE" using length_sdec_le [OF assms] .
  show ?thesis
  proof (cases "v < 0")
    case True
    then have s: "sdec v = ch_minus # digit_char d # p" using u(1) by (simp add: sdec_def w_def)
    have "\<not> int w > - (LLONG_MIN + 1) + 1" "- int w = v" using assms True by (simp_all add: w_def)
    then show ?thesis using len u(2,3) un loop by (simp add: string2ll_def s)
  next
    case F: False
    then have s: "sdec v = digit_char d # p" using u(1) by (simp add: sdec_def w_def)
    have "\<not> w > LLONG_MAX" "int w = v" using assms F by (simp_all add: w_def)
    then show ?thesis using len u(2,3) un ne loop by (simp add: string2ll_def s)
  qed
qed

section \<open>Properties\<close>

text \<open>
  C13. \<open>string2ll\<close> is strict: it accepts a byte string exactly when it is the canonical decimal notation of a
  64-bit signed integer, and then returns that integer. No leading zero, sign, blank or overflowing
  number gets through and no representable integer, \<open>LLONG_MIN\<close> included, is refused.
\<close>

theorem string2ll_iff_canonical:
  "string2ll s = Some v \<longleftrightarrow> LLONG_MIN \<le> v \<and> v \<le> int LLONG_MAX \<and> s = sdec v"
  using string2ll_sound string2ll_complete by blast

text \<open>
  C33. \<open>ll2string\<close> stays inside the destination, writes the canonical notation of every 64-bit integer,
  \<open>LLONG_MIN\<close> included, followed by a NUL, leaves the bytes after it alone and returns the number of
  characters; it returns \<open>0\<close> exactly when the notation and its terminator do not fit.
\<close>

theorem ll2string_correct:
  assumes "dstlen \<le> length dst" "LLONG_MIN \<le> v" "v \<le> int LLONG_MAX"
  shows "\<exists>dst' n. ll2string dst dstlen v = Some (dst', n) \<and> length dst' = length dst \<and>
    (if length (sdec v) < dstlen
     then n = length (sdec v) \<and> n = sdigits10 v \<and> dst' = sdec v @ 0 # drop (n + 1) dst
     else n = 0)"
proof -
  have "sdigits10 v = length (sdec v)"
    using magnitude_eq [OF assms(2)] by (simp add: sdigits10_def sdec_def digits10_eq)
  then show ?thesis
    using ll2string_eq [OF assms(1,2)] ll2string_short [OF assms(1,2)] assms(1)
    by (cases "length (sdec v) < dstlen") auto
qed

theorem ll2string_correct_witness:
  "\<exists>dst' n. ll2string [1, 2, 3, 4, 5] 5 (- 42) = Some (dst', n) \<and> dst' = [45, 52, 50, 0, 5] \<and> n = 3"
proof -
  have "sdec (- 42) = [45, 52, 50]"
    by (simp add: sdec_def ch_minus_def udec.simps [of 42] udec_small digit_char_def)
  then show ?thesis
    using ll2string_correct [of 5 "[1, 2, 3, 4, 5]" "- 42"] by (simp add: LLONG_MIN_def LLONG_MAX_def)
qed

text \<open>
  C25. Printing and parsing are inverse: into a buffer of \<open>LONG_STR_SIZE\<close> bytes every 64-bit integer is printed
  in full, and \<open>string2ll\<close> and \<open>string2l\<close> read the printed characters back as the same integer.
\<close>

theorem ll2string_string2ll_roundtrip:
  assumes "length dst = LONG_STR_SIZE" "LLONG_MIN \<le> v" "v \<le> int LLONG_MAX"
  shows "\<exists>dst' n. ll2string dst LONG_STR_SIZE v = Some (dst', n) \<and> 0 < n \<and> dst' ! n = 0 \<and>
    string2ll (take n dst') = Some v \<and> string2l (take n dst') = Some v"
proof -
  have len: "length (sdec v) < LONG_STR_SIZE" by (rule length_sdec_le [OF assms(2,3)])
  have "0 < length (sdec v)" by (simp add: sdec_def)
  moreover have "ll2string dst LONG_STR_SIZE v = Some (sdec v @ 0 # drop (length (sdec v) + 1) dst, length (sdec v))"
    using assms len by (intro ll2string_eq) simp_all
  moreover have "string2ll (sdec v) = Some v" by (rule string2ll_complete [OF assms(2,3)])
  moreover have "string2l (sdec v) = Some v"
    using calculation(3) assms by (simp add: string2l_def LLONG_MIN_def LLONG_MAX_def)
  ultimately show ?thesis by (auto simp: nth_append)
qed

theorem ll2string_string2ll_roundtrip_witness:
  "\<exists>dst' n. ll2string (replicate 21 7) LONG_STR_SIZE LLONG_MIN = Some (dst', n) \<and>
     string2ll (take n dst') = Some LLONG_MIN"
  using ll2string_string2ll_roundtrip [of "replicate 21 7" LLONG_MIN]
  by (auto simp: LONG_STR_SIZE_def LLONG_MIN_def LLONG_MAX_def)

end
