(* ===== verification/GlobMatch.thy ===== *)
theory GlobMatch
  imports Prelude "HOL-Library.Sublist"
begin

text \<open>
  The glob-style matcher of \<^verbatim>\<open>redis/src/util.c\<close>. The pattern is memory with an index and the remaining length the
  code keeps in \<open>patternLen\<close> (an \<open>int\<close>, which the code also tests for values it never takes); reading outside
  the pattern's memory is \<open>None\<close>. The reference is a list of tokens with the usual declarative meaning.
\<close>

section \<open>Model\<close>

definition at :: "byte list \<Rightarrow> nat \<Rightarrow> byte option" where
  "at p i = (if i < length p then Some (p ! i) else None)"

text \<open>\<open>tolower\<close> on the values of \<open>char\<close>, which is signed.\<close>

definition tolower :: "int \<Rightarrow> int" where
  "tolower c = (if 65 \<le> c \<and> c \<le> 90 then c + 32 else c)"

definition same_char :: "bool \<Rightarrow> byte \<Rightarrow> byte \<Rightarrow> bool" where
  "same_char nocase a c = (if \<not> nocase then a = c else tolower (sint a) = tolower (sint c))"

definition in_range :: "bool \<Rightarrow> byte \<Rightarrow> byte \<Rightarrow> byte \<Rightarrow> bool" where
  "in_range nocase a b c0 =
     (let start = sint a; e = sint b; c = sint c0;
          (start, e) = (if start > e then (e, start) else (start, e));
          (start, e, c) = (if nocase then (tolower start, tolower e, tolower c) else (start, e, c))
      in c \<ge> start \<and> c \<le> e)"

text \<open>The loop over the members of a class; it leaves the index on the closing bracket or on the last byte.\<close>

function class_loop :: "byte list \<Rightarrow> bool \<Rightarrow> byte \<Rightarrow> nat \<Rightarrow> int \<Rightarrow> bool \<Rightarrow> (nat \<times> int \<times> bool) option" where
  "class_loop p nocase c i n found =
     do {
       c0 \<leftarrow> at p i;
       if c0 = 92 \<and> n \<ge> 2 then do {
         c1 \<leftarrow> at p (i + 1);
         class_loop p nocase c (i + 2) (n - 2) (found \<or> c1 = c)
       }
       else if c0 = 93 then Some (i, n, found)
       else if n = 0 then Some (i - 1, n + 1, found)
       else do {
         c1 \<leftarrow> (if n \<ge> 3 then at p (i + 1) else Some 0);
         if n \<ge> 3 \<and> c1 = 45 then do {
           c2 \<leftarrow> at p (i + 2);
           class_loop p nocase c (i + 3) (n - 3) (found \<or> in_range nocase c0 c2 c)
         }
         else class_loop p nocase c (i + 1) (n - 1) (found \<or> same_char nocase c0 c)
       }
     }"
  by pat_completeness auto
termination by (relation "measure (\<lambda>(p, _, _, i, _, _). length p - i)") (auto simp: at_def split: if_splits)

declare class_loop.simps [simp del]

text \<open>
  The cases of the \<open>switch\<close> that consume one byte of the string: \<open>None\<close> inside is \<open>return 0\<close>, otherwise the
  position of the last byte of the pattern that was used.
\<close>

definition match_one :: "byte list \<Rightarrow> nat \<Rightarrow> int \<Rightarrow> byte \<Rightarrow> bool \<Rightarrow> (nat \<times> int) option option" where
  "match_one p i n c nocase = do {
     c0 \<leftarrow> at p i;
     if c0 = 63 then Some (Some (i, n))
     else if c0 = 91 then do {
       let i = i + 1; let n = n - 1;
       c1 \<leftarrow> at p i;
       let neg = (c1 = 94);
       let i = (if neg then i + 1 else i); let n = (if neg then n - 1 else n);
       (i, n, found) \<leftarrow> class_loop p nocase c i n False;
       let found = (if neg then \<not> found else found);
       Some (if \<not> found then None else Some (i, n))
     }
     else do {
       let esc = (c0 = 92 \<and> n \<ge> 2);
       let i = (if esc then i + 1 else i); let n = (if esc then n - 1 else n);
       c1 \<leftarrow> at p i;
       Some (if same_char nocase c1 c then Some (i, n) else None)
     }
   }"

text \<open>Skipping the stars after a star, and the stars at the end.\<close>

function skip_stars :: "byte list \<Rightarrow> nat \<Rightarrow> int \<Rightarrow> (nat \<times> int) option" where
  "skip_stars p i n =
     (if n \<noteq> 0 then do {
        c1 \<leftarrow> at p (i + 1);
        if c1 = 42 then skip_stars p (i + 1) (n - 1) else Some (i, n)
      } else Some (i, n))"
  by pat_completeness auto
termination by (relation "measure (\<lambda>(p, i, _). length p - i)") (auto simp: at_def split: if_splits)

function skip_trailing :: "byte list \<Rightarrow> nat \<Rightarrow> int \<Rightarrow> (nat \<times> int) option" where
  "skip_trailing p i n = do {
     c \<leftarrow> at p i;
     if c = 42 then skip_trailing p (i + 1) (n - 1) else Some (i, n)
   }"
  by pat_completeness auto
termination by (relation "measure (\<lambda>(p, i, _). length p - i)") (auto simp: at_def split: if_splits)

declare skip_stars.simps [simp del] skip_trailing.simps [simp del]

text \<open>The loop of the star case: try the rest of the pattern on every non-empty suffix.\<close>

fun star_search :: "(byte list \<Rightarrow> bool option) \<Rightarrow> byte list \<Rightarrow> bool option" where
  "star_search f [] = Some False"
| "star_search f (c # s) = do { r \<leftarrow> f (c # s); if r then Some True else star_search f s }"

lemma star_search_cong [fundef_cong]:
  "s = s' \<Longrightarrow> (\<And>t. f t = g t) \<Longrightarrow> star_search f s = star_search g s'"
proof (induction s arbitrary: s')
  case (Cons c s)
  then show ?case by (cases s') auto
qed auto

lemma class_loop_index: "class_loop p nocase c i n found = Some (i', n', found') \<Longrightarrow> i \<le> i' + 1"
proof (induction p nocase c i n found arbitrary: i' n' found' rule: class_loop.induct)
  case (1 p nocase c i n found)
  obtain c0 where c0: "at p i = Some c0" using "1.prems" by (subst (asm) class_loop.simps) (auto split: bind_splits)
  show ?case
  proof (cases "c0 = 92 \<and> n \<ge> 2")
    case True
    then obtain c1 where "at p (i + 1) = Some c1" "class_loop p nocase c (i + 2) (n - 2) (found \<or> c1 = c) = Some (i', n', found')"
      using "1.prems" c0 by (subst (asm) class_loop.simps) (auto split: bind_splits)
    then show ?thesis using "1.IH"(1) [OF c0 True] by fastforce
  next
    case F: False
    show ?thesis
    proof (cases "c0 = 93 \<or> n = 0")
      case True
      then show ?thesis using "1.prems" c0 F by (subst (asm) class_loop.simps) (auto split: if_splits)
    next
      case F2: False
      obtain c1 where c1: "(if n \<ge> 3 then at p (i + 1) else Some 0) = Some c1"
        using "1.prems" c0 F F2 by (subst (asm) class_loop.simps) (auto split: bind_splits if_splits)
      show ?thesis
      proof (cases "n \<ge> 3 \<and> c1 = 45")
        case True
        then obtain c2 where "at p (i + 2) = Some c2"
          "class_loop p nocase c (i + 3) (n - 3) (found \<or> in_range nocase c0 c2 c) = Some (i', n', found')"
          using "1.prems" c0 c1 F F2 by (subst (asm) class_loop.simps) (auto split: bind_splits)
        then show ?thesis using "1.IH"(2) [OF c0 F _ _ c1 True] F2 by fastforce
      next
        case F3: False
        then have "class_loop p nocase c (i + 1) (n - 1) (found \<or> same_char nocase c0 c) = Some (i', n', found')"
          using "1.prems" c0 c1 F F2 by (subst (asm) class_loop.simps) (auto split: if_splits)
        then show ?thesis using "1.IH"(3) [OF c0 F _ _ c1 F3] F2 by fastforce
      qed
    qed
  qed
qed

lemma match_one_index: "match_one p i n c nocase = Some (Some (i', n')) \<Longrightarrow> i \<le> i' \<and> i < length p"
  using class_loop_index
  by (fastforce simp: match_one_def at_def Let_def split: if_splits bind_splits)

lemma skip_stars_index: "skip_stars p i n = Some (i', n') \<Longrightarrow> i \<le> i'"
proof (induction p i n arbitrary: i' n' rule: skip_stars.induct)
  case (1 p i n)
  show ?case
    using "1.prems" by (subst (asm) skip_stars.simps) (use "1.IH" in \<open>fastforce split: if_splits bind_splits\<close>)
qed

function stringmatchlen :: "byte list \<Rightarrow> nat \<Rightarrow> int \<Rightarrow> byte list \<Rightarrow> bool \<Rightarrow> bool option" where
  "stringmatchlen p i n s nocase =
     (if n \<noteq> 0 \<and> s \<noteq> [] then do {
        c0 \<leftarrow> at p i;
        if c0 = 42 then do {
          (i', n') \<leftarrow> skip_stars p i n;
          if n' = 1 then Some True
          else star_search (\<lambda>t. stringmatchlen p (i' + 1) (n' - 1) t nocase) s
        }
        else do {
          step \<leftarrow> match_one p i n (hd s) nocase;
          case step of
            None \<Rightarrow> Some False
          | Some (i', n') \<Rightarrow>
              if tl s = [] then do {
                (_, n') \<leftarrow> skip_trailing p (i' + 1) (n' - 1);
                Some (n' = 0)
              }
              else stringmatchlen p (i' + 1) (n' - 1) (tl s) nocase
        }
      }
      else Some (n = 0 \<and> s = []))"
  by pat_completeness auto
termination
proof (relation "measure (\<lambda>(p, i, _, _, _). length p - i)", goal_cases)
  case (2 p i n s nocase c0 z i' n' t)
  then show ?case using skip_stars_index [of p i n i' n'] by (auto simp: at_def split: if_splits)
next
  case (3 p i n s nocase c0 step z i' n')
  then show ?case using match_one_index [of p i n "hd s" nocase i' n'] by auto
qed simp

declare stringmatchlen.simps [simp del]

text \<open>\<open>stringmatch\<close> on C strings, given without their terminators.\<close>

definition stringmatch :: "byte list \<Rightarrow> byte list \<Rightarrow> bool \<Rightarrow> bool option" where
  "stringmatch pattern s nocase = stringmatchlen (pattern @ [0]) 0 (int (length pattern)) s nocase"

section \<open>Patterns as tokens\<close>

datatype tok = Star | One "byte \<Rightarrow> bool"

text \<open>The members of a class, as tests, and the pattern after it. A class that is not closed takes the whole rest.\<close>

function class_items :: "bool \<Rightarrow> byte list \<Rightarrow> (byte \<Rightarrow> bool) list \<times> byte list" where
  "class_items nocase r =
     (if r = [] then ([], [])
      else if hd r = 92 \<and> 2 \<le> length r then
        let (ps, q) = class_items nocase (drop 2 r) in ((\<lambda>c. r ! 1 = c) # ps, q)
      else if hd r = 93 then ([], tl r)
      else if 3 \<le> length r \<and> r ! 1 = 45 then
        let (ps, q) = class_items nocase (drop 3 r) in (in_range nocase (hd r) (r ! 2) # ps, q)
      else let (ps, q) = class_items nocase (tl r) in (same_char nocase (hd r) # ps, q))"
  by pat_completeness auto
termination by (relation "measure (\<lambda>(_, r). length r)") auto

declare class_items.simps [simp del]

lemma class_items_shorter: "length (snd (class_items nocase r)) \<le> length r"
proof (induction nocase r rule: class_items.induct)
  case (1 nocase r)
  show ?case
    using 1 by (subst class_items.simps) (auto simp: case_prod_beta Let_def le_diff_conv)
qed

function toks :: "bool \<Rightarrow> byte list \<Rightarrow> tok list" where
  "toks nocase [] = []"
| "toks nocase (a # r) =
     (if a = 42 then Star # toks nocase r
      else if a = 63 then One (\<lambda>_. True) # toks nocase r
      else if a = 91 then
        let neg = (r \<noteq> [] \<and> hd r = 94); (ps, q) = class_items nocase (if neg then tl r else r) in
        One (\<lambda>c. (\<exists>P \<in> set ps. P c) \<noteq> neg) # toks nocase q
      else if a = 92 \<and> r \<noteq> [] then One (same_char nocase (hd r)) # toks nocase (tl r)
      else One (same_char nocase a) # toks nocase r)"
  by pat_completeness auto
termination
proof (relation "measure (\<lambda>(_, r). length r)", goal_cases)
  case (4 nocase a r neg z ps q)
  have "length (snd (class_items nocase (if neg then tl r else r))) \<le> length r"
    using class_items_shorter [of nocase "if neg then tl r else r"] by (auto split: if_splits)
  then show ?case using 4 by (auto dest: arg_cong [of _ _ snd])
qed auto

text \<open>The declarative meaning: a star stands for any bytes, every other token for one byte that it accepts.\<close>

fun gmatch :: "tok list \<Rightarrow> byte list \<Rightarrow> bool" where
  "gmatch [] s \<longleftrightarrow> s = []"
| "gmatch (Star # ts) s \<longleftrightarrow> (\<exists>k \<le> length s. gmatch ts (drop k s))"
| "gmatch (One P # ts) s \<longleftrightarrow> s \<noteq> [] \<and> P (hd s) \<and> gmatch ts (tl s)"

section \<open>The matcher implements it\<close>

lemma at_pattern: "i \<le> length pat \<Longrightarrow> at (pat @ [0]) i = Some (if i < length pat then pat ! i else 0)"
  by (auto simp: at_def nth_append)

lemma class_loop_items:
  assumes "1 \<le> i" "i \<le> length pat" "n = int (length pat) - int i"
  shows "\<exists>i'. class_loop (pat @ [0]) nocase c i n found =
      Some (i', int (length pat) - int i', found \<or> (\<exists>P \<in> set (fst (class_items nocase (drop i pat))). P c)) \<and>
    i' < length pat \<and> drop (i' + 1) pat = snd (class_items nocase (drop i pat))"
  using assms
proof (induction "length pat - i" arbitrary: i n found rule: less_induct)
  case less
  define e where "e = length pat"
  show ?case
  proof (cases "i < e")
    case False
    then have i: "i = e" "n = 0" using less.prems by (simp_all add: e_def)
    then have "class_loop (pat @ [0]) nocase c i n found = Some (e - 1, 1, found)"
      using at_pattern [of e pat] by (subst class_loop.simps) (simp add: e_def)
    moreover have "int e - int (e - 1) = 1" "e - 1 < e" "drop (e - 1 + 1) pat = []" using i less.prems by (simp_all add: e_def)
    ultimately show ?thesis using i by (auto simp: e_def class_items.simps)
  next
    case True
    define r where "r = drop i pat"
    have r: "r \<noteq> []" "hd r = pat ! i" "length r = e - i" "tl r = drop (i + 1) pat" "drop 2 r = drop (i + 2) pat" "drop 3 r = drop (i + 3) pat"
      using True by (simp_all add: r_def e_def hd_drop_conv_nth tl_drop drop_Suc add.commute)
    have n: "n = int (length r)" using True less.prems(3) by (simp add: r(3) e_def)
    have a0: "at (pat @ [0]) i = Some (hd r)" using at_pattern [of i pat] True r by (simp add: e_def)
    have a1: "at (pat @ [0]) (i + 1) = Some (r ! 1)" if "2 \<le> length r"
      using that at_pattern [of "i + 1" pat] r(3) by (auto simp: e_def r_def)
    have a2: "at (pat @ [0]) (i + 2) = Some (r ! 2)" if "3 \<le> length r"
      using that at_pattern [of "i + 2" pat] r(3) by (auto simp: e_def r_def)
    note fold_r = r_def [symmetric] e_def [symmetric]
    consider (esc) "hd r = 92 \<and> 2 \<le> length r" | (stop) "\<not> (hd r = 92 \<and> 2 \<le> length r)" "hd r = 93"
      | (range) "\<not> (hd r = 92 \<and> 2 \<le> length r)" "hd r \<noteq> 93" "3 \<le> length r \<and> r ! 1 = 45"
      | (single) "\<not> (hd r = 92 \<and> 2 \<le> length r)" "hd r \<noteq> 93" "\<not> (3 \<le> length r \<and> r ! 1 = 45)"
      by blast
    then show ?thesis
    proof cases
      case esc
      have "class_loop (pat @ [0]) nocase c i n found = class_loop (pat @ [0]) nocase c (i + 2) (n - 2) (found \<or> r ! 1 = c)"
        using esc a0 a1 n by (subst class_loop.simps) simp
      moreover have "class_items nocase r = (\<lambda>(ps, q). ((\<lambda>c. r ! 1 = c) # ps, q)) (class_items nocase (drop (i + 2) pat))"
        using esc r by (subst class_items.simps) (simp add: case_prod_beta)
      ultimately show ?thesis
        using less.hyps [of "i + 2" "n - 2" "found \<or> r ! 1 = c"] esc r(3) less.prems(3)
        by (auto simp: fold_r case_prod_beta)
    next
      case stop
      then have "class_loop (pat @ [0]) nocase c i n found = Some (i, n, found)"
        using a0 n by (subst class_loop.simps) simp
      moreover have "class_items nocase r = ([], tl r)" using stop r by (subst class_items.simps) simp
      ultimately show ?thesis using True less.prems(3) r(4) by (simp add: fold_r)
    next
      case range
      have "class_loop (pat @ [0]) nocase c i n found =
        class_loop (pat @ [0]) nocase c (i + 3) (n - 3) (found \<or> in_range nocase (hd r) (r ! 2) c)"
        using range a0 a1 a2 n r(1) by (subst class_loop.simps) simp
      moreover have "class_items nocase r =
        (\<lambda>(ps, q). (in_range nocase (hd r) (r ! 2) # ps, q)) (class_items nocase (drop (i + 3) pat))"
        using range r by (subst class_items.simps) (simp add: case_prod_beta)
      ultimately show ?thesis
        using less.hyps [of "i + 3" "n - 3" "found \<or> in_range nocase (hd r) (r ! 2) c"] range r(3) less.prems(3)
        by (auto simp: fold_r case_prod_beta)
    next
      case single
      have "class_loop (pat @ [0]) nocase c i n found =
        class_loop (pat @ [0]) nocase c (i + 1) (n - 1) (found \<or> same_char nocase (hd r) c)"
        using single a0 a1 n r(1) by (subst class_loop.simps) auto
      moreover have "class_items nocase r =
        (\<lambda>(ps, q). (same_char nocase (hd r) # ps, q)) (class_items nocase (drop (i + 1) pat))"
        using single r by (subst class_items.simps) (auto simp: case_prod_beta)
      ultimately show ?thesis
        using less.hyps [of "i + 1" "n - 1" "found \<or> same_char nocase (hd r) c"] True less.prems(3)
        by (auto simp: fold_r case_prod_beta)
    qed
  qed
qed

lemma match_one_tok:
  assumes "i < length pat" "n = int (length pat) - int i" "pat ! i \<noteq> 42"
  shows "\<exists>P i'. toks nocase (drop i pat) = One P # toks nocase (drop (i' + 1) pat) \<and> i \<le> i' \<and> i' < length pat \<and>
    match_one (pat @ [0]) i n c nocase = Some (if P c then Some (i', int (length pat) - int i') else None)"
proof -
  define e where "e = length pat"
  define r where "r = drop (i + 1) pat"
  have d: "drop i pat = pat ! i # r" using assms(1) by (simp add: r_def Cons_nth_drop_Suc)
  have a0: "at (pat @ [0]) i = Some (pat ! i)" using at_pattern [of i pat] assms(1) by simp
  have a1: "at (pat @ [0]) (i + 1) = Some (if r \<noteq> [] then hd r else 0)"
    using at_pattern [of "i + 1" pat] assms(1) by (auto simp: r_def hd_drop_conv_nth)
  have tlr: "tl r = drop (i + 2) pat" by (simp add: r_def tl_drop drop_Suc)
  have rlen: "r \<noteq> [] \<longleftrightarrow> i + 1 < e" by (simp add: r_def e_def) linarith
  consider (any) "pat ! i = 63" | (cls) "pat ! i = 91" | (esc) "pat ! i = 92" "r \<noteq> []"
    | (lit) "pat ! i \<noteq> 63" "pat ! i \<noteq> 91" "\<not> (pat ! i = 92 \<and> r \<noteq> [])" by blast
  then show ?thesis
  proof cases
    case any
    then show ?thesis using a0 assms d
      by (intro exI [of _ "\<lambda>_. True"] exI [of _ i]) (simp add: match_one_def r_def)
  next
    case cls
    define neg where "neg = (r \<noteq> [] \<and> hd r = 94)"
    define j where "j = (if neg then i + 2 else i + 1)"
    have j: "1 \<le> j" "j \<le> length pat" "(if neg then tl r else r) = drop j pat"
      using assms(1) rlen tlr by (auto simp: j_def neg_def r_def e_def)
    define ps where "ps = fst (class_items nocase (drop j pat))"
    obtain i' where i': "class_loop (pat @ [0]) nocase c j (int (length pat) - int j) False =
        Some (i', int (length pat) - int i', \<exists>P \<in> set ps. P c)"
      "i' < length pat" "drop (i' + 1) pat = snd (class_items nocase (drop j pat))"
      using class_loop_items [OF j(1,2) refl, of nocase c False] by (auto simp: ps_def)
    have "toks nocase (drop i pat) = One (\<lambda>c. (\<exists>P \<in> set ps. P c) \<noteq> neg) # toks nocase (drop (i' + 1) pat)"
      using cls i'(3) j(3) by (simp add: d neg_def [symmetric] ps_def case_prod_beta Let_def)
    moreover have "i \<le> i'" using class_loop_index [OF i'(1)] by (auto simp: j_def split: if_splits)
    moreover have "match_one (pat @ [0]) i n c nocase =
      Some (if (\<exists>P \<in> set ps. P c) \<noteq> neg then Some (i', int (length pat) - int i') else None)"
    proof -
      have neg1: "((if r \<noteq> [] then hd r else 0) = 94) = neg" by (simp add: neg_def)
      have jn: "(if neg then i + 1 + 1 else i + 1) = j" "(if neg then n - 1 - 1 else n - 1) = int (length pat) - int j"
        using assms(2) by (simp_all add: j_def)
      show ?thesis unfolding match_one_def Let_def
        using a0 a1 cls by (simp only: bind.simps neg1 jn i'(1) prod.case) (auto simp: jn neg1 i'(1))
    qed
    ultimately show ?thesis using i'(2) by blast
  next
    case esc
    have "n \<ge> 2" using esc(2) rlen assms(2) by (simp add: e_def)
    then have "match_one (pat @ [0]) i n c nocase =
      Some (if same_char nocase (hd r) c then Some (i + 1, int (length pat) - int (i + 1)) else None)"
      using a0 a1 esc assms(2) by (simp add: match_one_def Let_def)
    moreover have "toks nocase (drop i pat) = One (same_char nocase (hd r)) # toks nocase (drop (i + 1 + 1) pat)"
      using esc tlr by (simp add: d)
    ultimately show ?thesis using esc(2) rlen by (intro exI [of _ "same_char nocase (hd r)"] exI [of _ "i + 1"]) (simp add: e_def)
  next
    case lit
    then have "\<not> (pat ! i = 92 \<and> n \<ge> 2)" using rlen assms(2) by (auto simp: e_def)
    then have "match_one (pat @ [0]) i n c nocase =
      Some (if same_char nocase (pat ! i) c then Some (i, int (length pat) - int i) else None)"
      using a0 lit assms(2) by (auto simp: match_one_def Let_def)
    moreover have "toks nocase (drop i pat) = One (same_char nocase (pat ! i)) # toks nocase (drop (i + 1) pat)"
      using lit assms(3) by (auto simp: d r_def)
    ultimately show ?thesis using assms(1) by blast
  qed
qed

lemma skip_stars_ok:
  assumes "i < length pat" "n = int (length pat) - int i" "pat ! i = 42"
  shows "\<exists>i'. skip_stars (pat @ [0]) i n = Some (i', int (length pat) - int i') \<and> i \<le> i' \<and> i' < length pat \<and>
    (i' + 1 < length pat \<longrightarrow> pat ! (i' + 1) \<noteq> 42) \<and>
    (\<forall>s. gmatch (toks nocase (drop i pat)) s = gmatch (Star # toks nocase (drop (i' + 1) pat)) s)"
  using assms
proof (induction "length pat - i" arbitrary: i n rule: less_induct)
  case less
  have d: "drop i pat = 42 # drop (i + 1) pat" using less.prems(1,3) by (simp add: Cons_nth_drop_Suc [symmetric])
  show ?case
  proof (cases "i + 1 < length pat \<and> pat ! (i + 1) = 42")
    case True
    then have "skip_stars (pat @ [0]) i n = skip_stars (pat @ [0]) (i + 1) (n - 1)"
      using less.prems at_pattern [of "i + 1" pat] by (subst skip_stars.simps) simp
    moreover have "gmatch (Star # Star # ts) s = gmatch (Star # ts) s" for ts s
    proof -
      have "(\<exists>k \<le> length s. \<exists>j \<le> length s - k. gmatch ts (drop (k + j) s)) = (\<exists>k \<le> length s. gmatch ts (drop k s))"
      proof
        assume "\<exists>k \<le> length s. \<exists>j \<le> length s - k. gmatch ts (drop (k + j) s)"
        then obtain k j where "k \<le> length s" "j \<le> length s - k" "gmatch ts (drop (k + j) s)" by blast
        then show "\<exists>k \<le> length s. gmatch ts (drop k s)" by (intro exI [of _ "k + j"]) simp
      next
        assume "\<exists>k \<le> length s. gmatch ts (drop k s)"
        then obtain k where "k \<le> length s" "gmatch ts (drop k s)" by blast
        then show "\<exists>k \<le> length s. \<exists>j \<le> length s - k. gmatch ts (drop (k + j) s)"
          by (intro exI [of _ k] conjI exI [of _ 0]) simp_all
      qed
      then show ?thesis by (simp add: add.commute)
    qed
    moreover obtain i' where "skip_stars (pat @ [0]) (i + 1) (n - 1) = Some (i', int (length pat) - int i')" "i + 1 \<le> i'"
      "i' < length pat" "i' + 1 < length pat \<longrightarrow> pat ! (i' + 1) \<noteq> 42"
      "\<forall>s. gmatch (toks nocase (drop (i + 1) pat)) s = gmatch (Star # toks nocase (drop (i' + 1) pat)) s"
      using less.hyps [of "i + 1" "n - 1"] True less.prems(1,2) by (auto simp: diff_less_mono2)
    ultimately show ?thesis by (intro exI [of _ i']) (simp add: d)
  next
    case False
    then have "skip_stars (pat @ [0]) i n = Some (i, n)"
      using less.prems at_pattern [of "i + 1" pat] by (subst skip_stars.simps) auto
    then show ?thesis using False less.prems(1,2) by (intro exI [of _ i]) (auto simp: d)
  qed
qed

lemma gmatch_toks_empty: "gmatch (toks nocase r) [] \<longleftrightarrow> (\<forall>x \<in> set r. x = 42)"
proof (induction nocase r rule: toks.induct)
  case (2 nocase a r)
  show ?case
  proof (cases "a = 42")
    case True
    then show ?thesis using "2.IH"(1) by simp
  next
    case False
    then show ?thesis by (auto simp: Let_def case_prod_beta)
  qed
qed simp

lemma skip_trailing_ok:
  assumes "i \<le> length pat" "n = int (length pat) - int i"
  shows "\<exists>i' n'. skip_trailing (pat @ [0]) i n = Some (i', n') \<and> (n' = 0 \<longleftrightarrow> (\<forall>x \<in> set (drop i pat). x = 42))"
  using assms
proof (induction "length pat - i" arbitrary: i n rule: less_induct)
  case less
  show ?case
  proof (cases "i < length pat \<and> pat ! i = 42")
    case True
    then have "skip_trailing (pat @ [0]) i n = skip_trailing (pat @ [0]) (i + 1) (n - 1)"
      using at_pattern [of i pat] by (subst skip_trailing.simps) simp
    moreover have "drop i pat = 42 # drop (i + 1) pat" using True by (simp add: Cons_nth_drop_Suc [symmetric])
    ultimately show ?thesis using less.hyps [of "i + 1" "n - 1"] True less.prems(2) by auto
  next
    case False
    then have "skip_trailing (pat @ [0]) i n = Some (i, n)"
      using less.prems(1) at_pattern [of i pat] by (subst skip_trailing.simps) auto
    moreover have "n = 0 \<longleftrightarrow> (\<forall>x \<in> set (drop i pat). x = 42)"
    proof (cases "i < length pat")
      case True
      then have "drop i pat = pat ! i # drop (i + 1) pat" by (simp add: Cons_nth_drop_Suc)
      then show ?thesis using True False less.prems(2) by simp
    qed (use less.prems in simp)
    ultimately show ?thesis by blast
  qed
qed

lemma star_search_ok:
  assumes "\<And>t. t \<noteq> [] \<Longrightarrow> f t = Some (P t)"
  shows "star_search f s = Some (\<exists>k < length s. P (drop k s))"
proof (induction s)
  case (Cons c s)
  have "(\<exists>k < length (c # s). P (drop k (c # s))) = (P (c # s) \<or> (\<exists>k < length s. P (drop k s)))"
    by (simp add: Ex_less_Suc2)
  then show ?case using Cons assms [of "c # s"] by auto
qed simp

lemma stringmatchlen_gmatch:
  assumes "i \<le> length pat" "n = int (length pat) - int i" "s \<noteq> []"
  shows "stringmatchlen (pat @ [0]) i n s nocase = Some (gmatch (toks nocase (drop i pat)) s)"
  using assms
proof (induction "length pat - i" arbitrary: i n s rule: less_induct)
  case less
  consider "i = length pat" | "i < length pat" "pat ! i = 42" | "i < length pat" "pat ! i \<noteq> 42"
    using less.prems(1) by linarith
  then show ?case
  proof cases
    case 1
    then show ?thesis using less.prems by (subst stringmatchlen.simps) simp
  next
    case 2
    have a0: "at (pat @ [0]) i = Some 42" using at_pattern [of i pat] 2 by simp
    obtain i' where i': "skip_stars (pat @ [0]) i n = Some (i', int (length pat) - int i')" "i \<le> i'" "i' < length pat"
      "i' + 1 < length pat \<longrightarrow> pat ! (i' + 1) \<noteq> 42"
      "\<And>s. gmatch (toks nocase (drop i pat)) s = gmatch (Star # toks nocase (drop (i' + 1) pat)) s"
      using skip_stars_ok [OF 2(1) less.prems(2) 2(2), of nocase] by blast
    define r where "r = drop (i' + 1) pat"
    have rec: "stringmatchlen (pat @ [0]) (i' + 1) (int (length pat) - int i' - 1) t nocase = Some (gmatch (toks nocase r) t)"
      if "t \<noteq> []" for t
      using less.hyps [of "i' + 1" "int (length pat) - int i' - 1" t] i'(2,3) 2 that by (simp add: r_def)
    have ex: "gmatch (toks nocase (drop i pat)) s \<longleftrightarrow> (\<exists>k \<le> length s. gmatch (toks nocase r) (drop k s))"
      using i'(5) [of s] by (simp add: r_def)
    show ?thesis
    proof (cases "i' + 1 = length pat")
      case True
      then have "r = []" by (simp add: r_def)
      then have "gmatch (toks nocase (drop i pat)) s" using ex by auto
      then show ?thesis using True less.prems a0 i'(1,3) 2 by (subst stringmatchlen.simps) simp
    next
      case False
      then have r: "r = pat ! (i' + 1) # drop (i' + 2) pat" "pat ! (i' + 1) \<noteq> 42"
        using i'(3,4) by (simp_all add: r_def Cons_nth_drop_Suc)
      then have "\<not> gmatch (toks nocase r) []" using gmatch_toks_empty [of nocase r] by auto
      then have "(\<exists>k \<le> length s. gmatch (toks nocase r) (drop k s)) = (\<exists>k < length s. gmatch (toks nocase r) (drop k s))"
        by (metis drop_all le_less order_refl)
      moreover have "star_search (\<lambda>t. stringmatchlen (pat @ [0]) (i' + 1) (int (length pat) - int i' - 1) t nocase) s =
        Some (\<exists>k < length s. gmatch (toks nocase r) (drop k s))"
        by (rule star_search_ok) (rule rec)
      moreover have "int (length pat) - int i' \<noteq> 1" using False by linarith
      ultimately show ?thesis using less.prems a0 i'(1) 2 ex by (subst stringmatchlen.simps) simp
    qed
  next
    case 3
    have a0: "at (pat @ [0]) i = Some (pat ! i)" using at_pattern [of i pat] 3 by simp
    obtain P i' where P: "toks nocase (drop i pat) = One P # toks nocase (drop (i' + 1) pat)" "i \<le> i'" "i' < length pat"
      "match_one (pat @ [0]) i n (hd s) nocase = Some (if P (hd s) then Some (i', int (length pat) - int i') else None)"
      using match_one_tok [OF 3(1) less.prems(2) 3(2)] by blast
    have step: "stringmatchlen (pat @ [0]) i n s nocase = (if \<not> P (hd s) then Some False
      else if tl s = [] then do { (_, n') \<leftarrow> skip_trailing (pat @ [0]) (i' + 1) (int (length pat) - int i' - 1); Some (n' = 0) }
      else stringmatchlen (pat @ [0]) (i' + 1) (int (length pat) - int i' - 1) (tl s) nocase)"
      using less.prems(2,3) a0 3 P(4) by (subst stringmatchlen.simps) auto
    show ?thesis
    proof (cases "tl s = []")
      case True
      obtain j n' where "skip_trailing (pat @ [0]) (i' + 1) (int (length pat) - int i' - 1) = Some (j, n')"
        "n' = 0 \<longleftrightarrow> (\<forall>x \<in> set (drop (i' + 1) pat). x = 42)"
        using skip_trailing_ok [of "i' + 1" pat "int (length pat) - int i' - 1"] P(3) by auto
      then show ?thesis using step True P(1) less.prems(3) gmatch_toks_empty [of nocase "drop (i' + 1) pat"] by auto
    next
      case False
      then show ?thesis
        using less.hyps [of "i' + 1" "int (length pat) - int i' - 1" "tl s"] step P(1,2,3) 3 less.prems(3) by auto
    qed
  qed
qed

section \<open>Properties\<close>


end
