(* ===== verification/Adlist.thy ===== *)
theory Adlist
  imports Interfaces
begin

text \<open>
  The doubly linked list of \<^verbatim>\<open>redis/src/adlist.c\<close> on an explicit heap of nodes. Address \<open>0\<close> is \<open>NULL\<close>; following
  \<open>NULL\<close> or an address that is not allocated is \<open>None\<close>. \<open>zmalloc\<close> is a parameter that picks an address for a new
  node, or \<open>0\<close> when it fails. The values passed to the list's free method are recorded in order. The results
  show that the pointers implement a mathematical list, that an iteration survives deletion of the current
  node, and that copying neither shares nor leaks nodes.
\<close>

section \<open>Model\<close>

type_synonym addr = nat

record 'v listNode =
  lprev :: addr
  lnext :: addr
  lvalue :: 'v

record 'v adlist =
  lhead :: addr
  ltail :: addr
  ldup :: "('v \<Rightarrow> 'v option) option"
  lfree :: bool
  lmatch :: "('v \<Rightarrow> 'v \<Rightarrow> bool) option"
  llen :: nat

type_synonym 'v heap = "addr \<Rightarrow> 'v listNode option"

text \<open>The heap and the values released through the free method, last one first.\<close>

record 'v mem =
  nodes :: "'v heap"
  freed :: "'v list"

type_synonym 'v allocator = "'v heap \<Rightarrow> addr"

definition deref :: "'v mem \<Rightarrow> addr \<Rightarrow> 'v listNode option" where
  "deref m a = (if a = 0 then None else nodes m a)"

definition modify :: "'v mem \<Rightarrow> addr \<Rightarrow> ('v listNode \<Rightarrow> 'v listNode) \<Rightarrow> 'v mem option" where
  "modify m a f = do { n \<leftarrow> deref m a; Some (m\<lparr>nodes := (nodes m)(a \<mapsto> f n)\<rparr>) }"

definition zfree :: "'v mem \<Rightarrow> addr \<Rightarrow> 'v mem option" where
  "zfree m a = do { _ \<leftarrow> deref m a; Some (m\<lparr>nodes := (nodes m)(a := None)\<rparr>) }"

definition free_value :: "'v adlist \<Rightarrow> 'v mem \<Rightarrow> 'v \<Rightarrow> 'v mem" where
  "free_value l m v = (if lfree l then m\<lparr>freed := v # freed m\<rparr> else m)"

lemma nodes_free_value [simp]: "nodes (free_value l m v) = nodes m"
  by (simp add: free_value_def)

text \<open>A fresh node, whose fields the code sets next; \<open>v\<close> is its value.\<close>

definition new_node :: "'v mem \<Rightarrow> addr \<Rightarrow> addr \<Rightarrow> addr \<Rightarrow> 'v \<Rightarrow> 'v mem" where
  "new_node m a p n v = m\<lparr>nodes := (nodes m)(a \<mapsto> \<lparr>lprev = p, lnext = n, lvalue = v\<rparr>)\<rparr>"

definition listCreate :: "'v adlist" where
  "listCreate = \<lparr>lhead = 0, ltail = 0, ldup = None, lfree = False, lmatch = None, llen = 0\<rparr>"

fun listEmpty_loop :: "'v adlist \<Rightarrow> nat \<Rightarrow> 'v mem \<Rightarrow> addr \<Rightarrow> 'v mem option" where
  "listEmpty_loop l 0 m current = Some m"
| "listEmpty_loop l (Suc n) m current = do {
     node \<leftarrow> deref m current;
     let nxt = lnext node;
     let m = free_value l m (lvalue node);
     m \<leftarrow> zfree m current;
     listEmpty_loop l n m nxt
   }"

definition listEmpty :: "'v adlist \<Rightarrow> 'v mem \<Rightarrow> ('v adlist \<times> 'v mem) option" where
  "listEmpty l m = do {
     m \<leftarrow> listEmpty_loop l (llen l) m (lhead l);
     Some (l\<lparr>lhead := 0, ltail := 0, llen := 0\<rparr>, m)
   }"

definition listRelease :: "'v adlist \<Rightarrow> 'v mem \<Rightarrow> 'v mem option" where
  "listRelease l m = do { (_, m) \<leftarrow> listEmpty l m; Some m }"

text \<open>The additions return whether they succeeded; they fail when there is no memory.\<close>

definition listAddNodeHead :: "'v allocator \<Rightarrow> 'v adlist \<Rightarrow> 'v mem \<Rightarrow> 'v \<Rightarrow> ('v adlist \<times> 'v mem \<times> bool) option" where
  "listAddNodeHead zmalloc l m v =
     (let node = zmalloc (nodes m) in
      if node = 0 then Some (l, m, False)
      else if llen l = 0 then
        Some (l\<lparr>lhead := node, ltail := node, llen := llen l + 1\<rparr>, new_node m node 0 0 v, True)
      else do {
        let m = new_node m node 0 (lhead l) v;
        m \<leftarrow> modify m (lhead l) (\<lambda>n. n\<lparr>lprev := node\<rparr>);
        Some (l\<lparr>lhead := node, llen := llen l + 1\<rparr>, m, True)
      })"

definition listAddNodeTail :: "'v allocator \<Rightarrow> 'v adlist \<Rightarrow> 'v mem \<Rightarrow> 'v \<Rightarrow> ('v adlist \<times> 'v mem \<times> bool) option" where
  "listAddNodeTail zmalloc l m v =
     (let node = zmalloc (nodes m) in
      if node = 0 then Some (l, m, False)
      else if llen l = 0 then
        Some (l\<lparr>lhead := node, ltail := node, llen := llen l + 1\<rparr>, new_node m node 0 0 v, True)
      else do {
        let m = new_node m node (ltail l) 0 v;
        m \<leftarrow> modify m (ltail l) (\<lambda>n. n\<lparr>lnext := node\<rparr>);
        Some (l\<lparr>ltail := node, llen := llen l + 1\<rparr>, m, True)
      })"

definition listInsertNode :: "'v allocator \<Rightarrow> 'v adlist \<Rightarrow> 'v mem \<Rightarrow> addr \<Rightarrow> 'v \<Rightarrow> bool \<Rightarrow> ('v adlist \<times> 'v mem \<times> bool) option" where
  "listInsertNode zmalloc l m old_node v after =
     (let node = zmalloc (nodes m) in
      if node = 0 then Some (l, m, False)
      else do {
        old \<leftarrow> deref m old_node;
        let p = (if after then old_node else lprev old);
        let n = (if after then lnext old else old_node);
        let l = (if after then (if ltail l = old_node then l\<lparr>ltail := node\<rparr> else l)
                 else (if lhead l = old_node then l\<lparr>lhead := node\<rparr> else l));
        let m = new_node m node p n v;
        m \<leftarrow> (if p \<noteq> 0 then modify m p (\<lambda>x. x\<lparr>lnext := node\<rparr>) else Some m);
        m \<leftarrow> (if n \<noteq> 0 then modify m n (\<lambda>x. x\<lparr>lprev := node\<rparr>) else Some m);
        Some (l\<lparr>llen := llen l + 1\<rparr>, m, True)
      })"

definition listDelNode :: "'v adlist \<Rightarrow> 'v mem \<Rightarrow> addr \<Rightarrow> ('v adlist \<times> 'v mem) option" where
  "listDelNode l m node = do {
     n \<leftarrow> deref m node;
     (l, m) \<leftarrow> (if lprev n \<noteq> 0 then do { m \<leftarrow> modify m (lprev n) (\<lambda>x. x\<lparr>lnext := lnext n\<rparr>); Some (l, m) }
       else Some (l\<lparr>lhead := lnext n\<rparr>, m));
     n \<leftarrow> deref m node;
     (l, m) \<leftarrow> (if lnext n \<noteq> 0 then do { m \<leftarrow> modify m (lnext n) (\<lambda>x. x\<lparr>lprev := lprev n\<rparr>); Some (l, m) }
       else Some (l\<lparr>ltail := lprev n\<rparr>, m));
     let m = free_value l m (lvalue n);
     m \<leftarrow> zfree m node;
     Some (l\<lparr>llen := llen l - 1\<rparr>, m)
   }"

datatype direction = AL_START_HEAD | AL_START_TAIL

record listIter =
  inext :: addr
  idirection :: direction

definition listGetIterator :: "'v adlist \<Rightarrow> direction \<Rightarrow> listIter" where
  "listGetIterator l d = \<lparr>inext = (if d = AL_START_HEAD then lhead l else ltail l), idirection = d\<rparr>"

definition listRewind :: "'v adlist \<Rightarrow> listIter" where
  "listRewind l = \<lparr>inext = lhead l, idirection = AL_START_HEAD\<rparr>"

definition listRewindTail :: "'v adlist \<Rightarrow> listIter" where
  "listRewindTail l = \<lparr>inext = ltail l, idirection = AL_START_TAIL\<rparr>"

definition listNext :: "'v mem \<Rightarrow> listIter \<Rightarrow> (listIter \<times> addr) option" where
  "listNext m iter =
     (let current = inext iter in
      if current \<noteq> 0 then do {
        n \<leftarrow> deref m current;
        Some (iter\<lparr>inext := (if idirection iter = AL_START_HEAD then lnext n else lprev n)\<rparr>, current)
      }
      else Some (iter, current))"

text \<open>The loop of \<open>listDup\<close>; the flag is false when it had to give up and released the copy.\<close>

partial_function (option) listDup_loop :: "'v allocator \<Rightarrow> 'v adlist \<Rightarrow> 'v mem \<Rightarrow> listIter \<Rightarrow> ('v adlist \<times> 'v mem \<times> bool) option" where
  "listDup_loop zmalloc copy m iter = do {
     (iter, node) \<leftarrow> listNext m iter;
     if node = 0 then Some (copy, m, True)
     else do {
       n \<leftarrow> deref m node;
       let value = (case ldup copy of None \<Rightarrow> Some (lvalue n) | Some d \<Rightarrow> d (lvalue n));
       if value = None then do { m \<leftarrow> listRelease copy m; Some (copy, m, False) }
       else do {
         (copy', m, ok) \<leftarrow> listAddNodeTail zmalloc copy m (the value);
         if \<not> ok then do {
           let m = free_value copy m (the value);
           m \<leftarrow> listRelease copy' m;
           Some (copy, m, False)
         }
         else listDup_loop zmalloc copy' m iter
       }
     }
   }"

definition listDup :: "'v allocator \<Rightarrow> 'v adlist \<Rightarrow> 'v mem \<Rightarrow> ('v adlist option \<times> 'v mem) option" where
  "listDup zmalloc orig m = do {
     let copy = listCreate\<lparr>ldup := ldup orig, lfree := lfree orig, lmatch := lmatch orig\<rparr>;
     (copy, m, ok) \<leftarrow> listDup_loop zmalloc copy m (listRewind orig);
     Some (if ok then Some copy else None, m)
   }"

partial_function (option) listSearchKey_loop :: "'v adlist \<Rightarrow> 'v mem \<Rightarrow> 'v \<Rightarrow> listIter \<Rightarrow> addr option" where
  "listSearchKey_loop l m key iter = do {
     (iter, node) \<leftarrow> listNext m iter;
     if node = 0 then Some 0
     else do {
       n \<leftarrow> deref m node;
       if (case lmatch l of Some f \<Rightarrow> f (lvalue n) key | None \<Rightarrow> key = lvalue n) then Some node
       else listSearchKey_loop l m key iter
     }
   }"

definition listSearchKey :: "'v adlist \<Rightarrow> 'v mem \<Rightarrow> 'v \<Rightarrow> addr option" where
  "listSearchKey l m key = listSearchKey_loop l m key (listRewind l)"

fun listIndex_loop :: "'v mem \<Rightarrow> bool \<Rightarrow> nat \<Rightarrow> addr \<Rightarrow> addr option" where
  "listIndex_loop m backward 0 n = Some n"
| "listIndex_loop m backward (Suc k) n =
     (if n = 0 then Some 0
      else do { node \<leftarrow> deref m n; listIndex_loop m backward k (if backward then lprev node else lnext node) })"

definition listIndex :: "'v adlist \<Rightarrow> 'v mem \<Rightarrow> int \<Rightarrow> addr option" where
  "listIndex l m index =
     (if index < 0 then listIndex_loop m True (nat ((- index) - 1)) (ltail l)
      else listIndex_loop m False (nat index) (lhead l))"

definition listRotateTailToHead :: "'v adlist \<Rightarrow> 'v mem \<Rightarrow> ('v adlist \<times> 'v mem) option" where
  "listRotateTailToHead l m =
     (if llen l \<le> 1 then Some (l, m)
      else do {
        let tail = ltail l;
        t \<leftarrow> deref m tail;
        let l = l\<lparr>ltail := lprev t\<rparr>;
        m \<leftarrow> modify m (ltail l) (\<lambda>n. n\<lparr>lnext := 0\<rparr>);
        m \<leftarrow> modify m (lhead l) (\<lambda>n. n\<lparr>lprev := tail\<rparr>);
        m \<leftarrow> modify m tail (\<lambda>n. n\<lparr>lprev := 0\<rparr>);
        m \<leftarrow> modify m tail (\<lambda>n. n\<lparr>lnext := lhead l\<rparr>);
        Some (l\<lparr>lhead := tail\<rparr>, m)
      })"

definition listRotateHeadToTail :: "'v adlist \<Rightarrow> 'v mem \<Rightarrow> ('v adlist \<times> 'v mem) option" where
  "listRotateHeadToTail l m =
     (if llen l \<le> 1 then Some (l, m)
      else do {
        let head = lhead l;
        h \<leftarrow> deref m head;
        let l = l\<lparr>lhead := lnext h\<rparr>;
        m \<leftarrow> modify m (lhead l) (\<lambda>n. n\<lparr>lprev := 0\<rparr>);
        m \<leftarrow> modify m (ltail l) (\<lambda>n. n\<lparr>lnext := head\<rparr>);
        m \<leftarrow> modify m head (\<lambda>n. n\<lparr>lnext := 0\<rparr>);
        m \<leftarrow> modify m head (\<lambda>n. n\<lparr>lprev := ltail l\<rparr>);
        Some (l\<lparr>ltail := head\<rparr>, m)
      })"

text \<open>\<open>listJoin\<close> returns both lists.\<close>

definition listJoin :: "'v adlist \<Rightarrow> 'v adlist \<Rightarrow> 'v mem \<Rightarrow> ('v adlist \<times> 'v adlist \<times> 'v mem) option" where
  "listJoin l other m =
     (if llen other = 0 then Some (l, other, m)
      else do {
        m \<leftarrow> modify m (lhead other) (\<lambda>n. n\<lparr>lprev := ltail l\<rparr>);
        (l, m) \<leftarrow> (if ltail l \<noteq> 0 then do { m \<leftarrow> modify m (ltail l) (\<lambda>n. n\<lparr>lnext := lhead other\<rparr>); Some (l, m) }
          else Some (l\<lparr>lhead := lhead other\<rparr>, m));
        let l = l\<lparr>ltail := ltail other, llen := llen l + llen other\<rparr>;
        Some (l, other\<lparr>lhead := 0, ltail := 0, llen := 0\<rparr>, m)
      })"

section \<open>Chains of nodes\<close>

definition first :: "(addr \<times> 'v) list \<Rightarrow> addr \<Rightarrow> addr" where
  "first xs q = (if xs = [] then q else fst (hd xs))"

definition final :: "addr \<Rightarrow> (addr \<times> 'v) list \<Rightarrow> addr" where
  "final p xs = (if xs = [] then p else fst (last xs))"

text \<open>The nodes \<open>xs\<close>, linked in both directions, between the addresses \<open>p\<close> and \<open>q\<close>.\<close>

fun dseg :: "'v heap \<Rightarrow> addr \<Rightarrow> (addr \<times> 'v) list \<Rightarrow> addr \<Rightarrow> bool" where
  "dseg h p [] q = True"
| "dseg h p (x # xs) q =
     (fst x \<noteq> 0 \<and> h (fst x) = Some \<lparr>lprev = p, lnext = first xs q, lvalue = snd x\<rparr> \<and> dseg h (fst x) xs q)"

definition list_ok :: "'v mem \<Rightarrow> 'v adlist \<Rightarrow> (addr \<times> 'v) list \<Rightarrow> bool" where
  "list_ok m l xs \<longleftrightarrow> dseg (nodes m) 0 xs 0 \<and> distinct (map fst xs) \<and> lhead l = first xs 0 \<and> ltail l = final 0 xs \<and>
     llen l = length xs"

lemma first_simps [simp]: "first [] q = q" "first (x # xs) q = fst x" "first (xs @ ys) q = first xs (first ys q)"
  by (auto simp: first_def)

lemma final_simps [simp]: "final p [] = p" "final p (xs @ [x]) = fst x" "final p (xs @ ys) = final (final p xs) ys"
  "final p (x # xs) = final (fst x) xs"
  by (auto simp: final_def)

lemma dseg_append [simp]: "dseg h p (xs @ ys) q \<longleftrightarrow> dseg h p xs (first ys q) \<and> dseg h (final p xs) ys q"
  by (induction xs arbitrary: p) auto

lemma dseg_frame: "a \<notin> fst ` set xs \<Longrightarrow> dseg (h(a := n)) p xs q \<longleftrightarrow> dseg h p xs q"
  by (induction xs arbitrary: p) auto

lemma dseg_nonzero: "dseg h p xs q \<Longrightarrow> x \<in> set xs \<Longrightarrow> fst x \<noteq> 0 \<and> (\<exists>n. h (fst x) = Some n)"
  by (induction xs arbitrary: p) auto

lemma first_nonzero: "dseg h p xs q \<Longrightarrow> xs \<noteq> [] \<Longrightarrow> first xs q' \<noteq> 0"
  by (cases xs) auto

lemma final_nonzero: "dseg h p xs q \<Longrightarrow> xs \<noteq> [] \<Longrightarrow> final q' xs \<noteq> 0"
  by (induction xs rule: rev_induct) auto

lemma final_in: "xs \<noteq> [] \<Longrightarrow> final p xs \<in> fst ` set xs"
  by (simp add: final_def)

lemma first_in: "xs \<noteq> [] \<Longrightarrow> first xs q \<in> fst ` set xs"
  by (simp add: first_def)

lemma first_other: "xs \<noteq> [] \<Longrightarrow> first xs q = first xs q'"
  by (simp add: first_def)

lemma final_other: "xs \<noteq> [] \<Longrightarrow> final p xs = final p' xs"
  by (simp add: final_def)

text \<open>Relinking the ends of a chain.\<close>

lemma dseg_set_last:
  assumes "dseg h p xs q" "distinct (map fst xs)" "xs \<noteq> []"
  shows "\<exists>n. h (final p xs) = Some n \<and> dseg (h(final p xs \<mapsto> n\<lparr>lnext := q'\<rparr>)) p xs q'"
proof -
  obtain ys y where xs: "xs = ys @ [y]" using assms(3) by (metis rev_exhaust)
  then show ?thesis using assms by (auto simp: dseg_frame)
qed

lemma dseg_set_first:
  assumes "dseg h p xs q" "distinct (map fst xs)" "xs \<noteq> []"
  shows "\<exists>n. h (first xs q) = Some n \<and> dseg (h(first xs q \<mapsto> n\<lparr>lprev := p'\<rparr>)) p' xs q"
  using assms by (cases xs) (auto simp: dseg_frame)

section \<open>The operations on chains\<close>

definition addrs :: "(addr \<times> 'v) list \<Rightarrow> addr set" where
  "addrs xs = fst ` set xs"

definition same_outside :: "addr set \<Rightarrow> 'v mem \<Rightarrow> 'v mem \<Rightarrow> bool" where
  "same_outside A m m' \<longleftrightarrow> (\<forall>b. b \<notin> A \<longrightarrow> nodes m' b = nodes m b)"

definition same_methods :: "'v adlist \<Rightarrow> 'v adlist \<Rightarrow> bool" where
  "same_methods l l' \<longleftrightarrow> ldup l' = ldup l \<and> lfree l' = lfree l \<and> lmatch l' = lmatch l"

lemma addrs_simps [simp]: "addrs [] = {}" "addrs (x # xs) = insert (fst x) (addrs xs)" "addrs (xs @ ys) = addrs xs \<union> addrs ys"
  by (auto simp: addrs_def)

lemma fst_set_addrs: "fst ` set xs = addrs xs" "a \<in> set (map fst xs) \<longleftrightarrow> a \<in> addrs xs"
  by (simp_all add: addrs_def)

lemma dseg_cong: "dseg h p xs q \<Longrightarrow> (\<And>a. a \<in> addrs xs \<Longrightarrow> h' a = h a) \<Longrightarrow> dseg h' p xs q"
  by (induction xs arbitrary: p) auto

lemma dseg_addr: "dseg h p xs q \<Longrightarrow> a \<in> addrs xs \<Longrightarrow> a \<noteq> 0 \<and> h a \<noteq> None"
  by (induction xs arbitrary: p) auto

lemma list_ok_frame: "list_ok m l xs \<Longrightarrow> same_outside A m m' \<Longrightarrow> A \<inter> addrs xs = {} \<Longrightarrow> list_ok m' l xs"
  unfolding list_ok_def same_outside_def by (auto elim!: dseg_cong)

lemma fresh_addr: "list_ok m l xs \<Longrightarrow> nodes m a = None \<Longrightarrow> a \<notin> addrs xs"
  using dseg_addr unfolding list_ok_def by metis

lemma modify_Some: "a \<noteq> 0 \<Longrightarrow> nodes m a = Some n \<Longrightarrow> modify m a f = Some (m\<lparr>nodes := (nodes m)(a \<mapsto> f n)\<rparr>)"
  by (simp add: modify_def deref_def)

lemma listAddNodeHead_ok:
  assumes "list_ok m l xs" "zmalloc (nodes m) = a" "a \<noteq> 0" "nodes m a = None"
  shows "\<exists>l' m'. listAddNodeHead zmalloc l m v = Some (l', m', True) \<and> list_ok m' l' ((a, v) # xs) \<and>
    same_outside (insert a (addrs xs)) m m' \<and> freed m' = freed m \<and> same_methods l l'"
proof (cases "xs = []")
  case True
  then show ?thesis using assms
    by (auto simp: listAddNodeHead_def list_ok_def new_node_def same_outside_def same_methods_def Let_def)
next
  case False
  have a: "a \<notin> addrs xs" using fresh_addr assms by blast
  have ok: "dseg (nodes m) 0 xs 0" "distinct (map fst xs)" "lhead l = first xs 0" "ltail l = final 0 xs" "llen l = length xs"
    using assms(1) by (simp_all add: list_ok_def)
  have h: "first xs 0 \<noteq> 0" "first xs 0 \<in> addrs xs" "first xs 0 \<noteq> a"
    using first_nonzero [OF ok(1) False] first_in [OF False] a by (auto simp: addrs_def)
  obtain n where n: "nodes m (first xs 0) = Some n" "dseg ((nodes m)(first xs 0 \<mapsto> n\<lparr>lprev := a\<rparr>)) a xs 0"
    using dseg_set_first [OF ok(1,2) False, of a] by blast
  define m1 where "m1 = new_node m a 0 (first xs 0) v"
  define m2 where "m2 = m1\<lparr>nodes := (nodes m1)(first xs 0 \<mapsto> n\<lparr>lprev := a\<rparr>)\<rparr>"
  have md: "modify m1 (first xs 0) (\<lambda>n. n\<lparr>lprev := a\<rparr>) = Some m2"
    using h n(1) by (simp add: modify_def deref_def m1_def m2_def new_node_def)
  have "dseg (nodes m2) a xs 0" using n(2) a by (auto elim!: dseg_cong simp: m2_def m1_def new_node_def)
  then have "list_ok m2 (l\<lparr>lhead := a, llen := llen l + 1\<rparr>) ((a, v) # xs)"
    using ok False assms(3) a h final_other [OF False, of 0 a]
    by (simp add: list_ok_def fst_set_addrs) (simp add: m2_def m1_def new_node_def)
  moreover have "same_outside (insert a (addrs xs)) m m2" "freed m2 = freed m"
    using h by (auto simp: same_outside_def m2_def m1_def new_node_def)
  moreover have "listAddNodeHead zmalloc l m v = Some (l\<lparr>lhead := a, llen := llen l + 1\<rparr>, m2, True)"
    using assms(2,3) ok False md by (simp add: listAddNodeHead_def m1_def Let_def)
  ultimately show ?thesis by (auto simp: same_methods_def)
qed

lemma listAddNodeTail_ok:
  assumes "list_ok m l xs" "zmalloc (nodes m) = a" "a \<noteq> 0" "nodes m a = None"
  shows "\<exists>l' m'. listAddNodeTail zmalloc l m v = Some (l', m', True) \<and> list_ok m' l' (xs @ [(a, v)]) \<and>
    same_outside (insert a (addrs xs)) m m' \<and> freed m' = freed m \<and> same_methods l l'"
proof (cases "xs = []")
  case True
  then show ?thesis using assms
    by (auto simp: listAddNodeTail_def list_ok_def new_node_def same_outside_def same_methods_def Let_def)
next
  case False
  have a: "a \<notin> addrs xs" using fresh_addr assms by blast
  have ok: "dseg (nodes m) 0 xs 0" "distinct (map fst xs)" "lhead l = first xs 0" "ltail l = final 0 xs" "llen l = length xs"
    using assms(1) by (simp_all add: list_ok_def)
  have h: "final 0 xs \<noteq> 0" "final 0 xs \<in> addrs xs" "final 0 xs \<noteq> a"
    using final_nonzero [OF ok(1) False] final_in [OF False] a by (auto simp: addrs_def)
  obtain n where n: "nodes m (final 0 xs) = Some n" "dseg ((nodes m)(final 0 xs \<mapsto> n\<lparr>lnext := a\<rparr>)) 0 xs a"
    using dseg_set_last [OF ok(1,2) False, of a] by blast
  define m1 where "m1 = new_node m a (final 0 xs) 0 v"
  define m2 where "m2 = m1\<lparr>nodes := (nodes m1)(final 0 xs \<mapsto> n\<lparr>lnext := a\<rparr>)\<rparr>"
  have md: "modify m1 (final 0 xs) (\<lambda>n. n\<lparr>lnext := a\<rparr>) = Some m2"
    using h n(1) by (simp add: modify_def deref_def m1_def m2_def new_node_def)
  have "dseg (nodes m2) 0 xs a" using n(2) a by (auto elim!: dseg_cong simp: m2_def m1_def new_node_def)
  then have "list_ok m2 (l\<lparr>ltail := a, llen := llen l + 1\<rparr>) (xs @ [(a, v)])"
    using ok False assms(3) a h first_other [OF False, of 0 a]
    by (simp add: list_ok_def fst_set_addrs) (simp add: m2_def m1_def new_node_def)
  moreover have "same_outside (insert a (addrs xs)) m m2" "freed m2 = freed m"
    using h by (auto simp: same_outside_def m2_def m1_def new_node_def)
  moreover have "listAddNodeTail zmalloc l m v = Some (l\<lparr>ltail := a, llen := llen l + 1\<rparr>, m2, True)"
    using assms(2,3) ok False md by (simp add: listAddNodeTail_def m1_def Let_def)
  ultimately show ?thesis by (auto simp: same_methods_def)
qed

text \<open>
  The middle of a list. Splitting it at a node, the operations relink the end of the left part and the start
  of the right part; either part may be empty.
\<close>

lemma relink_left:
  assumes "dseg (nodes m) 0 xs q" "distinct (map fst xs)"
  shows "\<exists>m'. (if final 0 xs \<noteq> 0 then modify m (final 0 xs) (\<lambda>x. x\<lparr>lnext := q'\<rparr>) else Some m) = Some m' \<and>
    dseg (nodes m') 0 xs q' \<and> same_outside (addrs xs) m m' \<and> freed m' = freed m"
proof (cases "xs = []")
  case False
  obtain n where n: "nodes m (final 0 xs) = Some n" "dseg ((nodes m)(final 0 xs \<mapsto> n\<lparr>lnext := q'\<rparr>)) 0 xs q'"
    using dseg_set_last [OF assms False] by blast
  then show ?thesis using final_nonzero [OF assms(1) False, of 0] final_in [OF False, of 0]
    by (auto simp: modify_def deref_def same_outside_def addrs_def)
qed (simp add: same_outside_def)

lemma relink_right:
  assumes "dseg (nodes m) p xs 0" "distinct (map fst xs)"
  shows "\<exists>m'. (if first xs 0 \<noteq> 0 then modify m (first xs 0) (\<lambda>x. x\<lparr>lprev := p'\<rparr>) else Some m) = Some m' \<and>
    dseg (nodes m') p' xs 0 \<and> same_outside (addrs xs) m m' \<and> freed m' = freed m"
proof (cases "xs = []")
  case False
  obtain n where n: "nodes m (first xs 0) = Some n" "dseg ((nodes m)(first xs 0 \<mapsto> n\<lparr>lprev := p'\<rparr>)) p' xs 0"
    using dseg_set_first [OF assms False] by blast
  then show ?thesis using first_nonzero [OF assms(1) False, of 0] first_in [OF False, of 0]
    by (auto simp: modify_def deref_def same_outside_def addrs_def)
qed (simp add: same_outside_def)

lemma insert_between:
  assumes "dseg (nodes m) 0 xs (first ys 0)" "dseg (nodes m) (final 0 xs) ys 0" "distinct (map fst (xs @ ys))"
    "a \<noteq> 0" "a \<notin> addrs (xs @ ys)"
  shows "\<exists>m1 m'. (if final 0 xs \<noteq> 0 then modify (new_node m a (final 0 xs) (first ys 0) v) (final 0 xs) (\<lambda>x. x\<lparr>lnext := a\<rparr>)
        else Some (new_node m a (final 0 xs) (first ys 0) v)) = Some m1 \<and>
      (if first ys 0 \<noteq> 0 then modify m1 (first ys 0) (\<lambda>x. x\<lparr>lprev := a\<rparr>) else Some m1) = Some m' \<and>
    dseg (nodes m') 0 (xs @ (a, v) # ys) 0 \<and> same_outside (insert a (addrs (xs @ ys))) m m' \<and> freed m' = freed m"
proof -
  define m0 where "m0 = new_node m a (final 0 xs) (first ys 0) v"
  have d0: "dseg (nodes m0) 0 xs (first ys 0)" "dseg (nodes m0) (final 0 xs) ys 0"
    using assms(1,2,5) by (auto elim!: dseg_cong simp: m0_def new_node_def)
  obtain m1 where m1: "(if final 0 xs \<noteq> 0 then modify m0 (final 0 xs) (\<lambda>x. x\<lparr>lnext := a\<rparr>) else Some m0) = Some m1"
    "dseg (nodes m1) 0 xs a" "same_outside (addrs xs) m0 m1" "freed m1 = freed m0"
    using relink_left [OF d0(1), of a] assms(3) by auto
  have disj: "addrs xs \<inter> addrs ys = {}" "a \<notin> addrs xs" "a \<notin> addrs ys" using assms(3,5) by (auto simp: addrs_def)
  have d1: "dseg (nodes m1) (final 0 xs) ys 0"
    using d0(2) m1(3) disj by (auto elim!: dseg_cong simp: same_outside_def)
  obtain m2 where m2: "(if first ys 0 \<noteq> 0 then modify m1 (first ys 0) (\<lambda>x. x\<lparr>lprev := a\<rparr>) else Some m1) = Some m2"
    "dseg (nodes m2) a ys 0" "same_outside (addrs ys) m1 m2" "freed m2 = freed m1"
    using relink_right [OF d1, of a] assms(3) by auto
  have "dseg (nodes m2) 0 xs a" using m1(2) m2(3) disj by (auto elim!: dseg_cong simp: same_outside_def)
  moreover have "nodes m2 a = Some \<lparr>lprev = final 0 xs, lnext = first ys 0, lvalue = v\<rparr>"
    using m1(3) m2(3) disj by (simp add: same_outside_def m0_def new_node_def)
  ultimately have "dseg (nodes m2) 0 (xs @ (a, v) # ys) 0" using m2(2) assms(4) by simp
  moreover have "same_outside (insert a (addrs (xs @ ys))) m m2" "freed m2 = freed m"
    using m1(3,4) m2(3,4) by (auto simp: same_outside_def m0_def new_node_def)
  ultimately show ?thesis using m1(1) m2(1) unfolding m0_def by blast
qed

lemma listInsertNode_ok:
  assumes "list_ok m l (xs @ (b, w) # ys)" "zmalloc (nodes m) = a" "a \<noteq> 0" "nodes m a = None"
  shows "\<exists>l' m'. listInsertNode zmalloc l m b v after = Some (l', m', True) \<and>
    list_ok m' l' (if after then xs @ (b, w) # (a, v) # ys else xs @ (a, v) # (b, w) # ys) \<and>
    same_outside (insert a (addrs (xs @ (b, w) # ys))) m m' \<and> freed m' = freed m \<and> same_methods l l'"
proof -
  have ok: "dseg (nodes m) 0 (xs @ (b, w) # ys) 0" "distinct (map fst (xs @ (b, w) # ys))"
    "lhead l = first xs b" "ltail l = final b ys" "llen l = length xs + 1 + length ys"
    using assms(1) by (simp_all add: list_ok_def)
  have a: "a \<notin> addrs (xs @ (b, w) # ys)" using fresh_addr assms(1,4) by blast
  have b: "b \<noteq> 0" "deref m b = Some \<lparr>lprev = final 0 xs, lnext = first ys 0, lvalue = w\<rparr>" using ok(1) by (simp_all add: deref_def)
  show ?thesis
  proof (cases after)
    case True
    define xs' where "xs' = xs @ [(b, w)]"
    have fin: "final 0 xs' = b" by (simp add: xs'_def)
    obtain m1 m' where m1: "(if final 0 xs' \<noteq> 0 then modify (new_node m a (final 0 xs') (first ys 0) v) (final 0 xs') (\<lambda>x. x\<lparr>lnext := a\<rparr>)
          else Some (new_node m a (final 0 xs') (first ys 0) v)) = Some m1"
      and m': "(if first ys 0 \<noteq> 0 then modify m1 (first ys 0) (\<lambda>x. x\<lparr>lprev := a\<rparr>) else Some m1) = Some m'"
      "dseg (nodes m') 0 (xs' @ (a, v) # ys) 0" "same_outside (insert a (addrs (xs' @ ys))) m m'" "freed m' = freed m"
      using insert_between [of m xs' ys a v] ok(1,2) a assms(3) by (auto simp: xs'_def)
    define l' where "l' = (if ltail l = b then l\<lparr>ltail := a\<rparr> else l)"
    have tail: "ltail l' = final a ys"
    proof (cases "ys = []")
      case False
      then have "final b ys \<in> addrs ys" using final_in by (auto simp: addrs_def)
      moreover have "b \<notin> addrs ys" using ok(2) by (simp add: addrs_def)
      ultimately have "final b ys \<noteq> b" by metis
      then show ?thesis using ok(4) final_other [OF False, of b a] by (simp add: l'_def)
    qed (use ok(4) in \<open>simp add: l'_def\<close>)
    have "listInsertNode zmalloc l m b v after = Some (l'\<lparr>llen := llen l' + 1\<rparr>, m', True)"
      using m1 [unfolded fin] m'(1) True assms(2,3) b
      by (cases "first ys 0 = 0") (simp_all add: listInsertNode_def l'_def Let_def)
    moreover have "list_ok m' (l'\<lparr>llen := llen l' + 1\<rparr>) (xs' @ (a, v) # ys)"
      using m'(2) ok(2,3,5) a tail by (auto simp: list_ok_def l'_def xs'_def addrs_def)
    ultimately show ?thesis using True m'(3,4) by (auto simp: xs'_def same_methods_def l'_def)
  next
    case False
    define ys' where "ys' = (b, w) # ys"
    have fin: "first ys' 0 = b" by (simp add: ys'_def)
    obtain m1 m' where m1: "(if final 0 xs \<noteq> 0 then modify (new_node m a (final 0 xs) (first ys' 0) v) (final 0 xs) (\<lambda>x. x\<lparr>lnext := a\<rparr>)
          else Some (new_node m a (final 0 xs) (first ys' 0) v)) = Some m1"
      and m': "(if first ys' 0 \<noteq> 0 then modify m1 (first ys' 0) (\<lambda>x. x\<lparr>lprev := a\<rparr>) else Some m1) = Some m'"
      "dseg (nodes m') 0 (xs @ (a, v) # ys') 0" "same_outside (insert a (addrs (xs @ ys'))) m m'" "freed m' = freed m"
      using insert_between [of m xs ys' a v] ok(1,2) a assms(3) by (auto simp: ys'_def)
    define l' where "l' = (if lhead l = b then l\<lparr>lhead := a\<rparr> else l)"
    have head: "lhead l' = first xs a"
    proof (cases "xs = []")
      case F: False
      then have "first xs b \<in> addrs xs" using first_in by (auto simp: addrs_def)
      moreover have "b \<notin> addrs xs" using ok(2) by (simp add: addrs_def)
      ultimately have "first xs b \<noteq> b" by metis
      then show ?thesis using ok(3) first_other [OF F, of b a] by (simp add: l'_def)
    qed (use ok(3) in \<open>simp add: l'_def\<close>)
    have "listInsertNode zmalloc l m b v after = Some (l'\<lparr>llen := llen l' + 1\<rparr>, m', True)"
      using m1 [unfolded fin] m'(1) [unfolded fin] False assms(2,3) b
      by (cases "final 0 xs = 0") (simp_all add: listInsertNode_def l'_def Let_def)
    moreover have "list_ok m' (l'\<lparr>llen := llen l' + 1\<rparr>) (xs @ (a, v) # ys')"
      using m'(2) ok(2,4,5) a head by (auto simp: list_ok_def l'_def ys'_def addrs_def)
    ultimately show ?thesis using False m'(3,4) by (auto simp: ys'_def same_methods_def l'_def)
  qed
qed

lemma listDelNode_ok:
  assumes "list_ok m l (xs @ (b, w) # ys)"
  shows "\<exists>l' m'. listDelNode l m b = Some (l', m') \<and> list_ok m' l' (xs @ ys) \<and> nodes m' b = None \<and>
    same_outside (addrs (xs @ (b, w) # ys)) m m' \<and> freed m' = (if lfree l then w # freed m else freed m) \<and> same_methods l l'"
proof -
  have ok: "dseg (nodes m) 0 xs b" "dseg (nodes m) b ys 0" "b \<noteq> 0" "distinct (map fst (xs @ (b, w) # ys))"
    "lhead l = first xs b" "ltail l = final b ys" "llen l = length xs + 1 + length ys"
    "nodes m b = Some \<lparr>lprev = final 0 xs, lnext = first ys 0, lvalue = w\<rparr>"
    using assms by (simp_all add: list_ok_def)
  have disj: "b \<notin> addrs xs" "b \<notin> addrs ys" "addrs xs \<inter> addrs ys = {}" "distinct (map fst xs)" "distinct (map fst ys)"
    using ok(4) by (auto simp: addrs_def)
  obtain m1 where m1: "(if final 0 xs \<noteq> 0 then modify m (final 0 xs) (\<lambda>x. x\<lparr>lnext := first ys 0\<rparr>) else Some m) = Some m1"
    "dseg (nodes m1) 0 xs (first ys 0)" "same_outside (addrs xs) m m1" "freed m1 = freed m"
    using relink_left [OF ok(1) disj(4), of "first ys 0"] by blast
  have b1: "nodes m1 b = nodes m b" using m1(3) disj(1) by (simp add: same_outside_def)
  have "dseg (nodes m1) b ys 0" using ok(2) m1(3) disj(3) by (auto elim!: dseg_cong simp: same_outside_def)
  then obtain m2 where m2: "(if first ys 0 \<noteq> 0 then modify m1 (first ys 0) (\<lambda>x. x\<lparr>lprev := final 0 xs\<rparr>) else Some m1) = Some m2"
    "dseg (nodes m2) (final 0 xs) ys 0" "same_outside (addrs ys) m1 m2" "freed m2 = freed m1"
    using relink_right [OF _ disj(5), of m1 b "final 0 xs"] by blast
  have b2: "nodes m2 b = nodes m b" using m2(3) b1 disj(2) by (simp add: same_outside_def)
  define l1 where "l1 = (if final 0 xs \<noteq> 0 then l else l\<lparr>lhead := first ys 0\<rparr>)"
  define l2 where "l2 = (if first ys 0 \<noteq> 0 then l1 else l1\<lparr>ltail := final 0 xs\<rparr>)"
  define m3 where "m3 = free_value l2 m2 w"
  define m4 where "m4 = m3\<lparr>nodes := (nodes m3)(b := None)\<rparr>"
  have m3: "nodes m3 = nodes m2" "freed m3 = (if lfree l then w # freed m else freed m)"
    using m1(4) m2(4) by (simp_all add: m3_def free_value_def l2_def l1_def)
  have s1: "(if final 0 xs \<noteq> 0 then do { m \<leftarrow> modify m (final 0 xs) (\<lambda>x. x\<lparr>lnext := first ys 0\<rparr>); Some (l, m) }
      else Some (l\<lparr>lhead := first ys 0\<rparr>, m)) = Some (l1, m1)"
    using m1(1) by (cases "final 0 xs = 0") (simp_all add: l1_def)
  have s2: "(if first ys 0 \<noteq> 0 then do { m \<leftarrow> modify m1 (first ys 0) (\<lambda>x. x\<lparr>lprev := final 0 xs\<rparr>); Some (l1, m) }
      else Some (l1\<lparr>ltail := final 0 xs\<rparr>, m1)) = Some (l2, m2)"
    using m2(1) by (cases "first ys 0 = 0") (simp_all add: l2_def)
  have d: "deref m b = Some \<lparr>lprev = final 0 xs, lnext = first ys 0, lvalue = w\<rparr>"
    "deref m1 b = Some \<lparr>lprev = final 0 xs, lnext = first ys 0, lvalue = w\<rparr>" "zfree m3 b = Some m4"
    using ok(3,8) b1 b2 m3(1) by (simp_all add: deref_def zfree_def m4_def)
  then have run: "listDelNode l m b = Some (l2\<lparr>llen := llen l2 - 1\<rparr>, m4)"
    by (simp only: listDelNode_def d bind.simps listNode.select_convs s1 s2 prod.case Let_def m3_def [symmetric])
  have "dseg (nodes m2) 0 xs (first ys 0)" using m1(2) m2(3) disj(3) by (auto elim!: dseg_cong simp: same_outside_def)
  then have seg: "dseg (nodes m4) 0 (xs @ ys) 0"
    using m2(2) disj(1,2) by (simp add: m4_def m3(1) dseg_frame fst_set_addrs)
  have ends: "lhead l2 = first xs (first ys 0)" "ltail l2 = final (final 0 xs) ys" "llen l2 = llen l"
    using ok(1,2,5,6) first_nonzero [OF ok(2), of 0] final_nonzero [OF ok(1), of 0]
      first_other [of xs b "first ys 0"] final_other [of ys b "final 0 xs"]
    by (cases "xs = []"; cases "ys = []"; auto simp: l2_def l1_def)+
  have "list_ok m4 (l2\<lparr>llen := llen l2 - 1\<rparr>) (xs @ ys)"
    using seg ends ok(4,7) by (simp add: list_ok_def)
  moreover have "nodes m4 b = None" by (simp add: m4_def)
  moreover have "same_outside (addrs (xs @ (b, w) # ys)) m m4"
    using m1(3) m2(3) by (simp add: same_outside_def m4_def m3(1))
  moreover have "freed m4 = (if lfree l then w # freed m else freed m)" using m3(2) by (simp add: m4_def)
  moreover have "same_methods l (l2\<lparr>llen := llen l2 - 1\<rparr>)" by (simp add: same_methods_def l2_def l1_def)
  ultimately show ?thesis using run by blast
qed

lemma listEmpty_loop_ok:
  assumes "dseg (nodes m) p xs q" "distinct (map fst xs)"
  shows "\<exists>m'. listEmpty_loop l (length xs) m (first xs q) = Some m' \<and> same_outside (addrs xs) m m' \<and>
    (\<forall>a \<in> addrs xs. nodes m' a = None) \<and> freed m' = (if lfree l then rev (map snd xs) @ freed m else freed m)"
  using assms
proof (induction xs arbitrary: m p)
  case (Cons x xs)
  define m1 where "m1 = free_value l m (snd x)"
  define m2 where "m2 = m1\<lparr>nodes := (nodes m1)(fst x := None)\<rparr>"
  have m1: "nodes m1 = nodes m" by (simp add: m1_def free_value_def)
  have z: "zfree m1 (fst x) = Some m2" using Cons.prems(1) by (simp add: zfree_def deref_def m1 m2_def)
  have "dseg (nodes m2) (fst x) xs q" using Cons.prems by (simp add: m2_def m1 dseg_frame)
  then obtain m' where m': "listEmpty_loop l (length xs) m2 (first xs q) = Some m'" "same_outside (addrs xs) m2 m'"
    "\<forall>a \<in> addrs xs. nodes m' a = None" "freed m' = (if lfree l then rev (map snd xs) @ freed m2 else freed m2)"
    using Cons.IH [of m2 "fst x"] Cons.prems(2) by auto
  have "fst x \<notin> addrs xs" using Cons.prems(2) by (simp add: addrs_def)
  then have "nodes m' (fst x) = None" using m'(2) by (simp add: same_outside_def m2_def)
  then show ?case using m' z Cons.prems(1)
    by (auto simp: deref_def m1_def [symmetric] Let_def same_outside_def m2_def m1) (auto simp: m1_def free_value_def)
qed (simp add: same_outside_def)

lemma listEmpty_ok:
  assumes "list_ok m l xs"
  shows "\<exists>l' m'. listEmpty l m = Some (l', m') \<and> list_ok m' l' [] \<and> same_outside (addrs xs) m m' \<and>
    (\<forall>a \<in> addrs xs. nodes m' a = None) \<and> freed m' = (if lfree l then rev (map snd xs) @ freed m else freed m) \<and>
    same_methods l l'"
proof -
  have "dseg (nodes m) 0 xs 0" "distinct (map fst xs)" "lhead l = first xs 0" "llen l = length xs"
    using assms by (simp_all add: list_ok_def)
  then show ?thesis using listEmpty_loop_ok [of m 0 xs 0 l]
    by (auto simp: listEmpty_def list_ok_def same_methods_def)
qed

lemma listIndex_loop_forward:
  assumes "dseg (nodes m) p xs 0"
  shows "listIndex_loop m False k (first xs 0) = Some (if k < length xs then fst (xs ! k) else 0)"
  using assms
proof (induction k arbitrary: xs p)
  case 0
  then show ?case by (cases xs) auto
next
  case (Suc k)
  show ?case
  proof (cases xs)
    case (Cons x ys)
    then show ?thesis using Suc by (auto simp: deref_def)
  qed simp
qed

lemma listIndex_loop_backward:
  assumes "dseg (nodes m) 0 xs q"
  shows "listIndex_loop m True k (final 0 xs) = Some (if k < length xs then fst (rev xs ! k) else 0)"
  using assms
proof (induction k arbitrary: xs q)
  case 0
  then show ?case by (cases xs rule: rev_cases) auto
next
  case (Suc k)
  show ?case
  proof (cases xs rule: rev_cases)
    case (snoc ys x)
    then show ?thesis using Suc by (auto simp: deref_def)
  qed simp
qed

text \<open>The position an index of \<open>listIndex\<close> refers to.\<close>

definition index_pos :: "nat \<Rightarrow> int \<Rightarrow> nat option" where
  "index_pos len i = (let k = (if i < 0 then int len + i else i) in if 0 \<le> k \<and> k < int len then Some (nat k) else None)"

lemma listIndex_ok:
  assumes "list_ok m l xs"
  shows "listIndex l m i = Some (case index_pos (length xs) i of None \<Rightarrow> 0 | Some k \<Rightarrow> fst (xs ! k))"
proof (cases "i < 0")
  case True
  define k where "k = nat ((- i) - 1)"
  have "listIndex l m i = Some (if k < length xs then fst (rev xs ! k) else 0)"
    using assms True listIndex_loop_backward [of m xs 0 k] by (simp add: listIndex_def list_ok_def k_def)
  moreover have "rev xs ! k = xs ! (length xs - Suc k)" if "k < length xs" using that by (rule rev_nth)
  moreover have "index_pos (length xs) i = (if k < length xs then Some (length xs - Suc k) else None)"
    using True by (auto simp: index_pos_def k_def Let_def nat_add_distrib)
  ultimately show ?thesis by auto
next
  case False
  then show ?thesis using assms listIndex_loop_forward [of m 0 xs "nat i"]
    by (auto simp: listIndex_def list_ok_def index_pos_def Let_def nat_less_iff)
qed

lemma list_ok_two:
  assumes "list_ok m l xs" "\<not> llen l \<le> 1"
  shows "\<exists>x ys y. xs = x # ys @ [y]"
proof -
  have "2 \<le> length xs" using assms by (simp add: list_ok_def)
  then obtain x zs where z: "xs = x # zs" "zs \<noteq> []" by (cases xs; cases "tl xs") auto
  then show ?thesis by (metis rev_exhaust)
qed

lemma listRotateTailToHead_ok:
  assumes "list_ok m l xs"
  shows "\<exists>l' m'. listRotateTailToHead l m = Some (l', m') \<and>
    list_ok m' l' (if xs = [] then [] else last xs # butlast xs) \<and> same_outside (addrs xs) m m' \<and> freed m' = freed m \<and> same_methods l l'"
proof (cases "llen l \<le> 1")
  case True
  then have "(if xs = [] then [] else last xs # butlast xs) = xs" using assms by (cases xs) (auto simp: list_ok_def)
  then show ?thesis using assms True by (simp add: listRotateTailToHead_def same_outside_def same_methods_def)
next
  case False
  then obtain x ys y where xs: "xs = x # ys @ [y]" using list_ok_two [OF assms] by blast
  define h where "h = nodes m"
  define zs where "zs = x # ys"
  have xs': "xs = zs @ [y]" "zs \<noteq> []" by (simp_all add: xs zs_def)
  have ok: "dseg h 0 zs (fst y)" "h (fst y) = Some \<lparr>lprev = final 0 zs, lnext = 0, lvalue = snd y\<rparr>" "fst y \<noteq> 0"
    "lhead l = first zs 0" "ltail l = fst y" "llen l = length zs + 1" "distinct (map fst zs)" "fst y \<notin> addrs zs"
    using assms by (simp_all add: list_ok_def xs' h_def first_other [OF xs'(2), of "fst y" 0] addrs_def)
  obtain n where n: "h (final 0 zs) = Some n" "dseg (h(final 0 zs \<mapsto> n\<lparr>lnext := 0\<rparr>)) 0 zs 0"
    using dseg_set_last [OF ok(1,7) xs'(2), of 0] by blast
  define h1 where "h1 = h(final 0 zs \<mapsto> n\<lparr>lnext := 0\<rparr>)"
  obtain k where k: "h1 (first zs 0) = Some k" "dseg (h1(first zs 0 \<mapsto> k\<lparr>lprev := fst y\<rparr>)) (fst y) zs 0"
    using dseg_set_first [OF n(2) [folded h1_def] ok(7) xs'(2), of "fst y"] by blast
  define h2 where "h2 = h1(first zs 0 \<mapsto> k\<lparr>lprev := fst y\<rparr>)"
  have ends: "final 0 zs \<in> addrs zs" "first zs 0 \<in> addrs zs"
    using final_in [OF xs'(2), of 0] first_in [OF xs'(2), of 0] by (simp_all add: addrs_def)
  have ne: "final 0 zs \<noteq> fst y" "first zs 0 \<noteq> fst y" using ends ok(8) by metis+
  have nz: "final 0 zs \<noteq> 0" "first zs 0 \<noteq> 0"
    using final_nonzero [OF ok(1) xs'(2), of 0] first_nonzero [OF ok(1) xs'(2), of 0] by auto
  have y2: "h2 (fst y) = Some \<lparr>lprev = final 0 zs, lnext = 0, lvalue = snd y\<rparr>" using ok(2) ne by (simp add: h2_def h1_def)
  define h3 where "h3 = h2(fst y \<mapsto> \<lparr>lprev = 0, lnext = first zs 0, lvalue = snd y\<rparr>)"
  have run: "listRotateTailToHead l m = Some (l\<lparr>ltail := final 0 zs, lhead := fst y\<rparr>, m\<lparr>nodes := h3\<rparr>)"
  proof -
    have "modify m (final 0 zs) (\<lambda>n. n\<lparr>lnext := 0\<rparr>) = Some (m\<lparr>nodes := h1\<rparr>)"
      using nz n(1) by (simp add: modify_def deref_def h_def h1_def)
    moreover have "modify (m\<lparr>nodes := h1\<rparr>) (first zs 0) (\<lambda>n. n\<lparr>lprev := fst y\<rparr>) = Some (m\<lparr>nodes := h2\<rparr>)"
      using nz k(1) by (simp add: modify_def deref_def h2_def)
    ultimately show ?thesis using False ok(2-6) y2
      by (simp add: listRotateTailToHead_def deref_def [of m] h_def [symmetric] Let_def) (simp add: modify_def deref_def h3_def)
  qed
  have "dseg h3 (fst y) zs 0" using k(2) ok(8) by (simp add: h3_def h2_def [symmetric] dseg_frame fst_set_addrs)
  then have "dseg h3 0 (y # zs) 0" using ok(3) by (simp add: h3_def)
  then have "list_ok (m\<lparr>nodes := h3\<rparr>) (l\<lparr>ltail := final 0 zs, lhead := fst y\<rparr>) (y # zs)"
    using ok(6,7,8) final_other [OF xs'(2), of 0 "fst y"] by (simp add: list_ok_def addrs_def)
  moreover have "(if xs = [] then [] else last xs # butlast xs) = y # zs" by (simp add: xs')
  moreover have "same_outside (addrs xs) m (m\<lparr>nodes := h3\<rparr>)"
    using ends by (auto simp: same_outside_def h3_def h2_def h1_def h_def xs')
  ultimately show ?thesis using run by (auto simp: same_methods_def)
qed

lemma listRotateHeadToTail_ok:
  assumes "list_ok m l xs"
  shows "\<exists>l' m'. listRotateHeadToTail l m = Some (l', m') \<and>
    list_ok m' l' (if xs = [] then [] else tl xs @ [hd xs]) \<and> same_outside (addrs xs) m m' \<and> freed m' = freed m \<and> same_methods l l'"
proof (cases "llen l \<le> 1")
  case True
  then have "(if xs = [] then [] else tl xs @ [hd xs]) = xs" using assms by (cases xs) (auto simp: list_ok_def)
  then show ?thesis using assms True by (simp add: listRotateHeadToTail_def same_outside_def same_methods_def)
next
  case False
  then obtain x ys y where xs: "xs = x # ys @ [y]" using list_ok_two [OF assms] by blast
  define h where "h = nodes m"
  define zs where "zs = ys @ [y]"
  have xs': "xs = x # zs" "zs \<noteq> []" by (simp_all add: xs zs_def)
  have ok: "dseg h (fst x) zs 0" "h (fst x) = Some \<lparr>lprev = 0, lnext = first zs 0, lvalue = snd x\<rparr>" "fst x \<noteq> 0"
    "lhead l = fst x" "ltail l = final 0 zs" "llen l = length zs + 1" "distinct (map fst zs)" "fst x \<notin> addrs zs"
    using assms by (simp_all add: list_ok_def xs' h_def final_other [OF xs'(2), of "fst x" 0] addrs_def)
  obtain n where n: "h (first zs 0) = Some n" "dseg (h(first zs 0 \<mapsto> n\<lparr>lprev := 0\<rparr>)) 0 zs 0"
    using dseg_set_first [OF ok(1,7) xs'(2), of 0] by blast
  define h1 where "h1 = h(first zs 0 \<mapsto> n\<lparr>lprev := 0\<rparr>)"
  obtain k where k: "h1 (final 0 zs) = Some k" "dseg (h1(final 0 zs \<mapsto> k\<lparr>lnext := fst x\<rparr>)) 0 zs (fst x)"
    using dseg_set_last [OF n(2) [folded h1_def] ok(7) xs'(2), of "fst x"] by blast
  define h2 where "h2 = h1(final 0 zs \<mapsto> k\<lparr>lnext := fst x\<rparr>)"
  have ends: "final 0 zs \<in> addrs zs" "first zs 0 \<in> addrs zs"
    using final_in [OF xs'(2), of 0] first_in [OF xs'(2), of 0] by (simp_all add: addrs_def)
  have ne: "final 0 zs \<noteq> fst x" "first zs 0 \<noteq> fst x" using ends ok(8) by metis+
  have nz: "final 0 zs \<noteq> 0" "first zs 0 \<noteq> 0"
    using final_nonzero [OF ok(1) xs'(2), of 0] first_nonzero [OF ok(1) xs'(2), of 0] by auto
  have y2: "h2 (fst x) = Some \<lparr>lprev = 0, lnext = first zs 0, lvalue = snd x\<rparr>" using ok(2) ne by (simp add: h2_def h1_def)
  define h3 where "h3 = h2(fst x \<mapsto> \<lparr>lprev = final 0 zs, lnext = 0, lvalue = snd x\<rparr>)"
  have run: "listRotateHeadToTail l m = Some (l\<lparr>lhead := first zs 0, ltail := fst x\<rparr>, m\<lparr>nodes := h3\<rparr>)"
  proof -
    have "modify m (first zs 0) (\<lambda>n. n\<lparr>lprev := 0\<rparr>) = Some (m\<lparr>nodes := h1\<rparr>)"
      using nz n(1) by (simp add: modify_def deref_def h_def h1_def)
    moreover have "modify (m\<lparr>nodes := h1\<rparr>) (final 0 zs) (\<lambda>n. n\<lparr>lnext := fst x\<rparr>) = Some (m\<lparr>nodes := h2\<rparr>)"
      using nz k(1) by (simp add: modify_def deref_def h2_def)
    ultimately show ?thesis using False ok(2-6) y2
      by (simp add: listRotateHeadToTail_def deref_def [of m] h_def [symmetric] Let_def) (simp add: modify_def deref_def h3_def)
  qed
  have "dseg h3 0 zs (fst x)" using k(2) ok(8) by (simp add: h3_def h2_def [symmetric] dseg_frame fst_set_addrs)
  then have "dseg h3 0 (zs @ [x]) 0" using ok(3) by (simp add: h3_def)
  then have "list_ok (m\<lparr>nodes := h3\<rparr>) (l\<lparr>lhead := first zs 0, ltail := fst x\<rparr>) (zs @ [x])"
    using ok(6,7,8) first_other [OF xs'(2), of 0 "fst x"] by (simp add: list_ok_def addrs_def)
  moreover have "(if xs = [] then [] else tl xs @ [hd xs]) = zs @ [x]" by (simp add: xs')
  moreover have "same_outside (addrs xs) m (m\<lparr>nodes := h3\<rparr>)"
    using ends by (auto simp: same_outside_def h3_def h2_def h1_def h_def xs')
  ultimately show ?thesis using run by (auto simp: same_methods_def)
qed

lemma listJoin_ok:
  assumes "list_ok m l xs" "list_ok m other ys" "addrs xs \<inter> addrs ys = {}"
  shows "\<exists>l' other' m'. listJoin l other m = Some (l', other', m') \<and> list_ok m' l' (xs @ ys) \<and> list_ok m' other' [] \<and>
    same_outside (addrs xs \<union> addrs ys) m m' \<and> freed m' = freed m \<and> same_methods l l'"
proof (cases "ys = []")
  case True
  then show ?thesis using assms by (simp add: listJoin_def list_ok_def same_outside_def same_methods_def)
next
  case False
  have ok: "dseg (nodes m) 0 xs 0" "distinct (map fst xs)" "lhead l = first xs 0" "ltail l = final 0 xs" "llen l = length xs"
    "dseg (nodes m) 0 ys 0" "distinct (map fst ys)" "lhead other = first ys 0" "ltail other = final 0 ys" "llen other = length ys"
    using assms by (simp_all add: list_ok_def)
  obtain m1 where m1: "(if first ys 0 \<noteq> 0 then modify m (first ys 0) (\<lambda>x. x\<lparr>lprev := final 0 xs\<rparr>) else Some m) = Some m1"
    "dseg (nodes m1) (final 0 xs) ys 0" "same_outside (addrs ys) m m1" "freed m1 = freed m"
    using relink_right [OF ok(6,7), of "final 0 xs"] by blast
  have fy: "first ys 0 \<noteq> 0" using first_nonzero [OF ok(6) False] .
  have "dseg (nodes m1) 0 xs 0" using ok(1) m1(3) assms(3) by (auto elim!: dseg_cong simp: same_outside_def)
  then obtain m2 where m2: "(if final 0 xs \<noteq> 0 then modify m1 (final 0 xs) (\<lambda>x. x\<lparr>lnext := first ys 0\<rparr>) else Some m1) = Some m2"
    "dseg (nodes m2) 0 xs (first ys 0)" "same_outside (addrs xs) m1 m2" "freed m2 = freed m1"
    using relink_left [OF _ ok(2), of m1 0 "first ys 0"] by blast
  define l1 where "l1 = (if final 0 xs \<noteq> 0 then l else l\<lparr>lhead := first ys 0\<rparr>)"
  define l2 where "l2 = l1\<lparr>ltail := final 0 ys, llen := llen l1 + llen other\<rparr>"
  have run: "listJoin l other m = Some (l2, other\<lparr>lhead := 0, ltail := 0, llen := 0\<rparr>, m2)"
    using m1(1) m2(1) fy False ok(4,8,9,10)
    by (cases "final 0 xs = 0") (simp_all add: listJoin_def l1_def l2_def Let_def)
  have "dseg (nodes m2) (final 0 xs) ys 0" using m1(2) m2(3) assms(3) by (auto elim!: dseg_cong simp: same_outside_def)
  then have seg: "dseg (nodes m2) 0 (xs @ ys) 0" using m2(2) by simp
  have "lhead l2 = first xs (first ys 0)"
    using ok(3) first_other [of xs 0 "first ys 0"] final_nonzero [OF ok(1), of 0]
    by (cases "xs = []") (auto simp: l2_def l1_def)
  then have "list_ok m2 l2 (xs @ ys)"
    using seg ok(2,5,7,10) assms(3) final_other [OF False, of 0 "final 0 xs"]
    by (simp add: list_ok_def l2_def l1_def addrs_def)
  moreover have "same_outside (addrs xs \<union> addrs ys) m m2" "freed m2 = freed m"
    using m1(3,4) m2(3,4) by (simp_all add: same_outside_def)
  moreover have "same_methods l l2" by (simp add: same_methods_def l2_def l1_def)
  ultimately show ?thesis using run by (auto simp: list_ok_def)
qed

section \<open>Searching and copying\<close>

definition matches :: "'v adlist \<Rightarrow> 'v \<Rightarrow> 'v \<Rightarrow> bool" where
  "matches l key v = (case lmatch l of Some f \<Rightarrow> f v key | None \<Rightarrow> key = v)"

lemma listNext_forward:
  assumes "dseg (nodes m) p (x # xs) q"
  shows "listNext m \<lparr>inext = fst x, idirection = AL_START_HEAD\<rparr> = Some (\<lparr>inext = first xs q, idirection = AL_START_HEAD\<rparr>, fst x)"
    "deref m (fst x) = Some \<lparr>lprev = p, lnext = first xs q, lvalue = snd x\<rparr>" "fst x \<noteq> 0"
  using assms by (simp_all add: listNext_def deref_def)

lemma listNext_backward:
  assumes "dseg (nodes m) p (xs @ [x]) q"
  shows "listNext m \<lparr>inext = fst x, idirection = AL_START_TAIL\<rparr> = Some (\<lparr>inext = final p xs, idirection = AL_START_TAIL\<rparr>, fst x)"
    "deref m (fst x) = Some \<lparr>lprev = final p xs, lnext = q, lvalue = snd x\<rparr>" "fst x \<noteq> 0"
  using assms by (simp_all add: listNext_def deref_def)

lemma listNext_end: "listNext m \<lparr>inext = 0, idirection = d\<rparr> = Some (\<lparr>inext = 0, idirection = d\<rparr>, 0)"
  by (simp add: listNext_def)

lemma listSearchKey_loop_ok:
  assumes "dseg (nodes m) p xs 0"
  shows "listSearchKey_loop l m key \<lparr>inext = first xs 0, idirection = AL_START_HEAD\<rparr> =
    Some (case find (\<lambda>x. matches l key (snd x)) xs of None \<Rightarrow> 0 | Some x \<Rightarrow> fst x)"
  using assms
proof (induction xs arbitrary: p)
  case Nil
  then show ?case by (subst listSearchKey_loop.simps) (simp add: listNext_end)
next
  case (Cons x xs)
  note n = listNext_forward [OF Cons.prems]
  show ?case using Cons.IH [of "fst x"] Cons.prems n
    by (subst listSearchKey_loop.simps) (auto simp: matches_def split: option.splits)
qed

lemma listSearchKey_ok:
  "list_ok m l xs \<Longrightarrow> listSearchKey l m key = Some (case find (\<lambda>x. matches l key (snd x)) xs of None \<Rightarrow> 0 | Some x \<Rightarrow> fst x)"
  using listSearchKey_loop_ok [of m 0 xs l key] by (simp add: listSearchKey_def listRewind_def list_ok_def)

definition dup_value :: "'v adlist \<Rightarrow> 'v \<Rightarrow> 'v option" where
  "dup_value l v = (case ldup l of None \<Rightarrow> Some v | Some d \<Rightarrow> d v)"

lemma listDup_loop_step:
  assumes "dseg (nodes m) p (y # ys) 0"
  shows "listDup_loop zmalloc copy m \<lparr>inext = first (y # ys) 0, idirection = AL_START_HEAD\<rparr> =
    (case dup_value copy (snd y) of
       None \<Rightarrow> do { m \<leftarrow> listRelease copy m; Some (copy, m, False) }
     | Some v \<Rightarrow> do {
         (copy', m, ok) \<leftarrow> listAddNodeTail zmalloc copy m v;
         if \<not> ok then do { m \<leftarrow> listRelease copy' (free_value copy m v); Some (copy, m, False) }
         else listDup_loop zmalloc copy' m \<lparr>inext = first ys 0, idirection = AL_START_HEAD\<rparr> })"
  using listNext_forward [OF assms]
  by (subst listDup_loop.simps, cases "ldup copy"; cases "dup_value copy (snd y)") (simp_all add: dup_value_def Let_def cong: if_cong)

text \<open>
  The state of the loop: \<open>ys\<close> is what remains of the original, \<open>zs\<close> the copy so far, and apart from the copy's
  nodes the heap is that of \<open>m0\<close>, where the copy's addresses were free.
\<close>

lemma listDup_loop_ok:
  assumes "dseg (nodes m0) p ys 0" "list_ok m copy zs" "same_outside (addrs zs) m0 m" "\<forall>a \<in> addrs zs. nodes m0 a = None"
    "freed m = freed m0" "\<And>h. zmalloc h = 0 \<or> h (zmalloc h) = None"
  shows "\<exists>copy' m' ok. listDup_loop zmalloc copy m \<lparr>inext = first ys 0, idirection = AL_START_HEAD\<rparr> = Some (copy', m', ok) \<and>
    (if ok then \<exists>ws. list_ok m' copy' (zs @ ws) \<and> same_outside (addrs (zs @ ws)) m0 m' \<and>
         (\<forall>a \<in> addrs (zs @ ws). nodes m0 a = None) \<and> map (Some \<circ> snd) ws = map (dup_value copy \<circ> snd) ys \<and>
         freed m' = freed m0 \<and> same_methods copy copy'
     else nodes m' = nodes m0 \<and> ((\<exists>y \<in> set ys. dup_value copy (snd y) = None) \<or> (\<exists>h. zmalloc h = 0)))"
  using assms(1-5)
proof (induction ys arbitrary: p m copy zs)
  case Nil
  then show ?case by (subst listDup_loop.simps) (auto simp: listNext_end same_methods_def)
next
  case (Cons y ys)
  have free_y: "addrs (y # ys) \<inter> addrs zs = {}" using dseg_addr [OF Cons.prems(1)] Cons.prems(4) by blast
  have "dseg (nodes m) p (y # ys) 0"
    by (rule dseg_cong [OF Cons.prems(1)]) (use Cons.prems(3) free_y in \<open>auto simp: same_outside_def\<close>)
  note step = listDup_loop_step [OF this, of zmalloc copy]
  have released: "\<exists>m'. listRelease copy m1 = Some m' \<and> nodes m' = nodes m0" if "nodes m1 = nodes m" for m1
  proof -
    have "list_ok m1 copy zs" using Cons.prems(2) that by (simp add: list_ok_def)
    then obtain l' m' where "listEmpty copy m1 = Some (l', m')" "same_outside (addrs zs) m1 m'" "\<forall>a \<in> addrs zs. nodes m' a = None"
      using listEmpty_ok by blast
    moreover from this have "nodes m' = nodes m0"
      using Cons.prems(3,4) that by (metis ext same_outside_def)
    ultimately show ?thesis by (simp add: listRelease_def)
  qed
  show ?case
  proof (cases "dup_value copy (snd y)")
    case None
    obtain m' where "listRelease copy m = Some m'" "nodes m' = nodes m0" using released by blast
    then show ?thesis using step None by (intro exI [of _ copy] exI [of _ m'] exI [of _ False]) simp
  next
    case (Some v)
    show ?thesis
    proof (cases "zmalloc (nodes m) = 0")
      case True
      then have "listAddNodeTail zmalloc copy m v = Some (copy, m, False)" by (simp add: listAddNodeTail_def)
      moreover obtain m' where "listRelease copy (free_value copy m v) = Some m'" "nodes m' = nodes m0"
        using released [of "free_value copy m v"] by auto
      ultimately show ?thesis using step Some True by (intro exI [of _ copy] exI [of _ m'] exI [of _ False]) auto
    next
      case False
      define a where "a = zmalloc (nodes m)"
      have a: "a \<noteq> 0" "nodes m a = None" using False assms(6) [of "nodes m"] by (auto simp: a_def)
      obtain copy1 m1 where c1: "listAddNodeTail zmalloc copy m v = Some (copy1, m1, True)" "list_ok m1 copy1 (zs @ [(a, v)])"
        "same_outside (insert a (addrs zs)) m m1" "freed m1 = freed m" "same_methods copy copy1"
        using listAddNodeTail_ok [where zmalloc = zmalloc and a = a and v = v, OF Cons.prems(2) _ a] a_def by blast
      have "a \<notin> addrs zs" using fresh_addr [OF Cons.prems(2) a(2)] .
      then have "nodes m0 a = None" using Cons.prems(3) a(2) by (metis same_outside_def)
      then have base: "same_outside (addrs (zs @ [(a, v)])) m0 m1" "\<forall>b \<in> addrs (zs @ [(a, v)]). nodes m0 b = None"
        "freed m1 = freed m0" "dseg (nodes m0) (fst y) ys 0"
        using Cons.prems c1(3,4) by (auto simp: same_outside_def)
      have dvs: "dup_value copy1 = dup_value copy" using c1(5) by (simp add: dup_value_def same_methods_def fun_eq_iff)
      obtain copy' m' ok where ih: "listDup_loop zmalloc copy1 m1 \<lparr>inext = first ys 0, idirection = AL_START_HEAD\<rparr> = Some (copy', m', ok)"
        "if ok then \<exists>ws. list_ok m' copy' ((zs @ [(a, v)]) @ ws) \<and> same_outside (addrs ((zs @ [(a, v)]) @ ws)) m0 m' \<and>
           (\<forall>b \<in> addrs ((zs @ [(a, v)]) @ ws). nodes m0 b = None) \<and> map (Some \<circ> snd) ws = map (dup_value copy1 \<circ> snd) ys \<and>
           freed m' = freed m0 \<and> same_methods copy1 copy'
         else nodes m' = nodes m0 \<and> ((\<exists>y \<in> set ys. dup_value copy1 (snd y) = None) \<or> (\<exists>h. zmalloc h = 0))"
        using Cons.IH [OF base(4) c1(2) base(1,2,3)] by blast
      have run: "listDup_loop zmalloc copy m \<lparr>inext = first (y # ys) 0, idirection = AL_START_HEAD\<rparr> = Some (copy', m', ok)"
        using step Some c1(1) ih(1) by simp
      show ?thesis
      proof (cases ok)
        case True
        then obtain ws where "list_ok m' copy' (zs @ (a, v) # ws)" "same_outside (addrs (zs @ (a, v) # ws)) m0 m'"
          "\<forall>b \<in> addrs (zs @ (a, v) # ws). nodes m0 b = None" "map (Some \<circ> snd) ws = map (dup_value copy1 \<circ> snd) ys"
          "freed m' = freed m0" "same_methods copy1 copy'" using ih(2) by auto
        moreover from this have "map (Some \<circ> snd) ((a, v) # ws) = map (dup_value copy \<circ> snd) (y # ys)"
          "same_methods copy copy'" using Some dvs c1(5) by (simp_all add: same_methods_def)
        ultimately have "\<exists>ws. list_ok m' copy' (zs @ ws) \<and> same_outside (addrs (zs @ ws)) m0 m' \<and>
          (\<forall>b \<in> addrs (zs @ ws). nodes m0 b = None) \<and> map (Some \<circ> snd) ws = map (dup_value copy \<circ> snd) (y # ys) \<and>
          freed m' = freed m0 \<and> same_methods copy copy'" by (intro exI [of _ "(a, v) # ws"]) blast
        then show ?thesis using run True by auto
      next
        case F: False
        then show ?thesis using run ih(2) dvs by auto
      qed
    qed
  qed
qed

section \<open>Iterating and deleting\<close>

text \<open>The usage pattern of the iterator with removal of some of the nodes it returns; the values it sees are recorded.\<close>

partial_function (option) iter_delete :: "('v \<Rightarrow> bool) \<Rightarrow> 'v adlist \<Rightarrow> 'v mem \<Rightarrow> listIter \<Rightarrow> ('v adlist \<times> 'v mem \<times> 'v list) option" where
  "iter_delete P l m iter = do {
     (iter, node) \<leftarrow> listNext m iter;
     if node = 0 then Some (l, m, [])
     else do {
       n \<leftarrow> deref m node;
       (l, m) \<leftarrow> (if P (lvalue n) then listDelNode l m node else Some (l, m));
       (l, m, seen) \<leftarrow> iter_delete P l m iter;
       Some (l, m, lvalue n # seen)
     }
   }"

definition freed_by :: "('v \<Rightarrow> bool) \<Rightarrow> 'v adlist \<Rightarrow> 'v list \<Rightarrow> 'v list" where
  "freed_by P l vs = (if lfree l then rev (filter P vs) else [])"

lemma delete_or_keep:
  assumes "list_ok m l (xs @ (b, w) # ys)"
  shows "\<exists>l' m'. (if P w then listDelNode l m b else Some (l, m)) = Some (l', m') \<and>
    list_ok m' l' (xs @ filter (\<lambda>x. \<not> P (snd x)) [(b, w)] @ ys) \<and> freed m' = freed_by P l [w] @ freed m \<and> same_methods l l'"
proof (cases "P w")
  case True
  then show ?thesis using listDelNode_ok [OF assms] by (auto simp: freed_by_def)
next
  case False
  then show ?thesis using assms by (simp add: freed_by_def same_methods_def)
qed

lemma iter_delete_forward:
  assumes "list_ok m l (xs @ ys)"
  shows "\<exists>l' m'. iter_delete P l m \<lparr>inext = first ys 0, idirection = AL_START_HEAD\<rparr> = Some (l', m', map snd ys) \<and>
    list_ok m' l' (xs @ filter (\<lambda>x. \<not> P (snd x)) ys) \<and> freed m' = freed_by P l (map snd ys) @ freed m"
  using assms
proof (induction ys arbitrary: xs m l)
  case Nil
  then show ?case by (subst iter_delete.simps) (simp add: listNext_end freed_by_def)
next
  case (Cons y ys)
  have d: "dseg (nodes m) (final 0 xs) (y # ys) 0" using Cons.prems by (simp add: list_ok_def)
  note n = listNext_forward [OF d]
  obtain l1 m1 where s: "(if P (snd y) then listDelNode l m (fst y) else Some (l, m)) = Some (l1, m1)"
    "list_ok m1 l1 ((xs @ filter (\<lambda>x. \<not> P (snd x)) [y]) @ ys)" "freed m1 = freed_by P l [snd y] @ freed m" "same_methods l l1"
    using delete_or_keep [of m l xs "fst y" "snd y" ys P] Cons.prems by auto
  have fb: "freed_by P l1 vs = freed_by P l vs" for vs using s(4) by (simp add: freed_by_def same_methods_def)
  obtain l2 m2 where ih: "iter_delete P l1 m1 \<lparr>inext = first ys 0, idirection = AL_START_HEAD\<rparr> = Some (l2, m2, map snd ys)"
    "list_ok m2 l2 ((xs @ filter (\<lambda>x. \<not> P (snd x)) [y]) @ filter (\<lambda>x. \<not> P (snd x)) ys)"
    "freed m2 = freed_by P l1 (map snd ys) @ freed m1"
    using Cons.IH [OF s(2)] by blast
  have "iter_delete P l m \<lparr>inext = first (y # ys) 0, idirection = AL_START_HEAD\<rparr> = Some (l2, m2, map snd (y # ys))"
    using n s(1) ih(1) by (subst iter_delete.simps) simp
  moreover have "list_ok m2 l2 (xs @ filter (\<lambda>x. \<not> P (snd x)) (y # ys))" using ih(2) by (cases "P (snd y)") simp_all
  moreover have "freed m2 = freed_by P l (map snd (y # ys)) @ freed m" using ih(3) s(3) by (simp add: fb) (simp add: freed_by_def)
  ultimately show ?case by blast
qed

lemma iter_delete_backward:
  assumes "list_ok m l (ys @ xs)"
  shows "\<exists>l' m'. iter_delete P l m \<lparr>inext = final 0 ys, idirection = AL_START_TAIL\<rparr> = Some (l', m', rev (map snd ys)) \<and>
    list_ok m' l' (filter (\<lambda>x. \<not> P (snd x)) ys @ xs) \<and> freed m' = freed_by P l (rev (map snd ys)) @ freed m"
  using assms
proof (induction ys arbitrary: xs m l rule: rev_induct)
  case Nil
  then show ?case by (subst iter_delete.simps) (simp add: listNext_end freed_by_def)
next
  case (snoc y ys)
  have d: "dseg (nodes m) 0 (ys @ [y]) (first xs 0)" using snoc.prems by (simp add: list_ok_def)
  note n = listNext_backward [OF d]
  obtain l1 m1 where s: "(if P (snd y) then listDelNode l m (fst y) else Some (l, m)) = Some (l1, m1)"
    "list_ok m1 l1 (ys @ (filter (\<lambda>x. \<not> P (snd x)) [y] @ xs))" "freed m1 = freed_by P l [snd y] @ freed m" "same_methods l l1"
    using delete_or_keep [of m l ys "fst y" "snd y" xs P] snoc.prems by auto
  have fb: "freed_by P l1 vs = freed_by P l vs" for vs using s(4) by (simp add: freed_by_def same_methods_def)
  obtain l2 m2 where ih: "iter_delete P l1 m1 \<lparr>inext = final 0 ys, idirection = AL_START_TAIL\<rparr> = Some (l2, m2, rev (map snd ys))"
    "list_ok m2 l2 (filter (\<lambda>x. \<not> P (snd x)) ys @ filter (\<lambda>x. \<not> P (snd x)) [y] @ xs)"
    "freed m2 = freed_by P l1 (rev (map snd ys)) @ freed m1"
    using snoc.IH [OF s(2)] by blast
  have "iter_delete P l m \<lparr>inext = final 0 (ys @ [y]), idirection = AL_START_TAIL\<rparr> = Some (l2, m2, rev (map snd (ys @ [y])))"
    using n s(1) ih(1) by (subst iter_delete.simps) simp
  moreover have "list_ok m2 l2 (filter (\<lambda>x. \<not> P (snd x)) (ys @ [y]) @ xs)" using ih(2) by simp
  moreover have "freed m2 = freed_by P l (rev (map snd (ys @ [y]))) @ freed m" using ih(3) s(3) by (simp add: fb) (simp add: freed_by_def)
  ultimately show ?case by blast
qed

section \<open>Sequences of operations\<close>

datatype 'v al_op = APushHead 'v | APushTail 'v | AInsert int 'v bool | ADelete int | ARotTail | ARotHead | AIndex int | ASearch 'v

text \<open>A client that addresses nodes by index; the reply is the value of the node found, if any.\<close>

fun al_step :: "'v allocator \<Rightarrow> 'v adlist \<times> 'v mem \<Rightarrow> 'v al_op \<Rightarrow> (('v adlist \<times> 'v mem) \<times> 'v option) option" where
  "al_step zmalloc (l, m) (APushHead v) = do { (l, m, _) \<leftarrow> listAddNodeHead zmalloc l m v; Some ((l, m), None) }"
| "al_step zmalloc (l, m) (APushTail v) = do { (l, m, _) \<leftarrow> listAddNodeTail zmalloc l m v; Some ((l, m), None) }"
| "al_step zmalloc (l, m) (AInsert i v after) = do {
     n \<leftarrow> listIndex l m i;
     if n = 0 then Some ((l, m), None)
     else do { (l, m, _) \<leftarrow> listInsertNode zmalloc l m n v after; Some ((l, m), None) } }"
| "al_step zmalloc (l, m) (ADelete i) = do {
     n \<leftarrow> listIndex l m i;
     if n = 0 then Some ((l, m), None)
     else do { (l, m) \<leftarrow> listDelNode l m n; Some ((l, m), None) } }"
| "al_step zmalloc (l, m) ARotTail = do { (l, m) \<leftarrow> listRotateTailToHead l m; Some ((l, m), None) }"
| "al_step zmalloc (l, m) ARotHead = do { (l, m) \<leftarrow> listRotateHeadToTail l m; Some ((l, m), None) }"
| "al_step zmalloc (l, m) (AIndex i) = do {
     n \<leftarrow> listIndex l m i;
     if n = 0 then Some ((l, m), None) else do { x \<leftarrow> deref m n; Some ((l, m), Some (lvalue x)) } }"
| "al_step zmalloc (l, m) (ASearch key) = do {
     n \<leftarrow> listSearchKey l m key;
     if n = 0 then Some ((l, m), None) else do { x \<leftarrow> deref m n; Some ((l, m), Some (lvalue x)) } }"

text \<open>The same operations on a mathematical list, with equality of values as the match.\<close>

fun al_spec :: "'v list \<Rightarrow> 'v al_op \<Rightarrow> 'v list \<times> 'v option" where
  "al_spec vs (APushHead v) = (v # vs, None)"
| "al_spec vs (APushTail v) = (vs @ [v], None)"
| "al_spec vs (AInsert i v after) = (case index_pos (length vs) i of None \<Rightarrow> (vs, None)
     | Some k \<Rightarrow> let j = (if after then k + 1 else k) in (take j vs @ v # drop j vs, None))"
| "al_spec vs (ADelete i) = (case index_pos (length vs) i of None \<Rightarrow> (vs, None)
     | Some k \<Rightarrow> (take k vs @ drop (k + 1) vs, None))"
| "al_spec vs ARotTail = (if vs = [] then [] else last vs # butlast vs, None)"
| "al_spec vs ARotHead = (if vs = [] then [] else tl vs @ [hd vs], None)"
| "al_spec vs (AIndex i) = (vs, map_option (\<lambda>k. vs ! k) (index_pos (length vs) i))"
| "al_spec vs (ASearch key) = (vs, if key \<in> set vs then Some key else None)"

fun al_spec_run :: "'v list \<Rightarrow> 'v al_op list \<Rightarrow> 'v list \<times> 'v option list" where
  "al_spec_run vs [] = (vs, [])"
| "al_spec_run vs (x # xs) = (let (vs1, r) = al_spec vs x; (vs2, rs) = al_spec_run vs1 xs in (vs2, r # rs))"

definition alloc_total :: "'v allocator \<Rightarrow> bool" where
  "alloc_total zmalloc \<longleftrightarrow> (\<forall>h. finite (dom h) \<longrightarrow> zmalloc h \<noteq> 0 \<and> h (zmalloc h) = None)"

definition al_inv :: "'v adlist \<times> 'v mem \<Rightarrow> 'v list \<Rightarrow> bool" where
  "al_inv s vs \<longleftrightarrow> finite (dom (nodes (snd s))) \<and> lmatch (fst s) = None \<and> (\<exists>xs. list_ok (snd s) (fst s) xs \<and> map snd xs = vs)"

lemma same_outside_finite:
  assumes "same_outside A m m'" "finite A" "finite (dom (nodes m))"
  shows "finite (dom (nodes m'))"
proof -
  have "dom (nodes m') \<subseteq> dom (nodes m) \<union> A" using assms(1) by (auto simp: same_outside_def)
  then show ?thesis using assms(2,3) by (meson finite_UnI finite_subset)
qed

lemma finite_addrs [simp]: "finite (addrs xs)"
  by (simp add: addrs_def)

lemma al_invI:
  assumes "list_ok m' l' xs'" "map snd xs' = vs" "same_outside A m m'" "finite A" "finite (dom (nodes m))"
    "same_methods l l'" "lmatch l = None"
  shows "al_inv (l', m') vs"
  using assms same_outside_finite [OF assms(3,4,5)] by (auto simp: al_inv_def same_methods_def)

lemma index_pos_bound: "index_pos n i = Some k \<Longrightarrow> k < n"
  by (auto simp: index_pos_def Let_def split: if_splits)

lemma split_at:
  assumes "k < length xs"
  shows "xs = take k xs @ (fst (xs ! k), snd (xs ! k)) # drop (k + 1) xs"
  using id_take_nth_drop [OF assms] by simp

lemma nth_addr:
  assumes "list_ok m l xs" "k < length xs"
  shows "fst (xs ! k) \<noteq> 0" "\<exists>x. deref m (fst (xs ! k)) = Some x \<and> lvalue x = snd (xs ! k)"
proof -
  have "list_ok m l (take k xs @ (fst (xs ! k), snd (xs ! k)) # drop (k + 1) xs)"
    using assms split_at [OF assms(2)] by simp
  then show "fst (xs ! k) \<noteq> 0" "\<exists>x. deref m (fst (xs ! k)) = Some x \<and> lvalue x = snd (xs ! k)"
    by (auto simp: list_ok_def deref_def)
qed

lemma al_step_insert:
  assumes "alloc_total zmalloc" "finite (dom (nodes m))" "lmatch l = None" "list_ok m l xs" "index_pos (length xs) i = Some k"
  shows "\<exists>s'. al_step zmalloc (l, m) (AInsert i v after) = Some (s', None) \<and> al_inv s' (fst (al_spec (map snd xs) (AInsert i v after)))"
proof -
  define a where "a = zmalloc (nodes m)"
  have a: "zmalloc (nodes m) = a" "a \<noteq> 0" "nodes m a = None" using assms(1,2) by (simp_all add: alloc_total_def a_def)
  have k: "k < length xs" using index_pos_bound [OF assms(5)] .
  define b w where "b = fst (xs ! k)" and "w = snd (xs ! k)"
  have s: "xs = take k xs @ (b, w) # drop (k + 1) xs" using split_at [OF k] by (simp add: b_def w_def)
  have "list_ok m l (take k xs @ (b, w) # drop (k + 1) xs)" using assms(4) s by simp
  note ins = listInsertNode_ok [where zmalloc = zmalloc and a = a and v = v and after = after, OF this a]
  obtain l' m' where r: "listInsertNode zmalloc l m b v after = Some (l', m', True)"
    "list_ok m' l' (if after then take k xs @ (b, w) # (a, v) # drop (k + 1) xs else take k xs @ (a, v) # (b, w) # drop (k + 1) xs)"
    "same_outside (insert a (addrs (take k xs @ (b, w) # drop (k + 1) xs))) m m'" "same_methods l l'"
    using ins by blast
  have "listIndex l m i = Some b" "b \<noteq> 0"
    using listIndex_ok [OF assms(4), of i] assms(5) nth_addr(1) [OF assms(4) k] by (simp_all add: b_def)
  then have run: "al_step zmalloc (l, m) (AInsert i v after) = Some ((l', m'), None)" using r(1) by simp
  define vs where "vs = map snd xs"
  have vs: "k < length vs" "w = vs ! k" "map snd (take k xs) = take k vs" "map snd (drop (k + 1) xs) = drop (k + 1) vs"
    using k by (simp_all add: vs_def w_def take_map drop_map)
  have "map snd (if after then take k xs @ (b, w) # (a, v) # drop (k + 1) xs else take k xs @ (a, v) # (b, w) # drop (k + 1) xs)
    = fst (al_spec vs (AInsert i v after))"
    using assms(5) vs take_Suc_conv_app_nth [OF vs(1)] Cons_nth_drop_Suc [OF vs(1)] by (simp add: vs_def [symmetric] Let_def) (auto simp: vs_def)
  then show ?thesis using run al_invI [OF r(2) _ r(3) _ assms(2) r(4) assms(3)] by (simp add: vs_def)
qed

lemma al_step_delete:
  assumes "finite (dom (nodes m))" "lmatch l = None" "list_ok m l xs" "index_pos (length xs) i = Some k"
  shows "\<exists>s'. al_step zmalloc (l, m) (ADelete i) = Some (s', None) \<and> al_inv s' (fst (al_spec (map snd xs) (ADelete i)))"
proof -
  have k: "k < length xs" using index_pos_bound [OF assms(4)] .
  define b w where "b = fst (xs ! k)" and "w = snd (xs ! k)"
  have s: "xs = take k xs @ (b, w) # drop (k + 1) xs" using split_at [OF k] by (simp add: b_def w_def)
  have ok: "list_ok m l (take k xs @ (b, w) # drop (k + 1) xs)" using assms(3) s by simp
  obtain l' m' where r: "listDelNode l m b = Some (l', m')" "list_ok m' l' (take k xs @ drop (k + 1) xs)"
    "same_outside (addrs (take k xs @ (b, w) # drop (k + 1) xs)) m m'" "same_methods l l'"
    using listDelNode_ok [OF ok] by blast
  have "listIndex l m i = Some b" "b \<noteq> 0"
    using listIndex_ok [OF assms(3), of i] assms(4) nth_addr(1) [OF assms(3) k] by (simp_all add: b_def)
  then have run: "al_step zmalloc (l, m) (ADelete i) = Some ((l', m'), None)" using r(1) by simp
  have "map snd (take k xs @ drop (k + 1) xs) = fst (al_spec (map snd xs) (ADelete i))"
    using assms(4) by (simp add: take_map drop_map)
  then show ?thesis using run al_invI [OF r(2) _ r(3) _ assms(1) r(4) assms(2)] by simp
qed

lemma al_step_ok:
  assumes "alloc_total zmalloc" "al_inv s vs"
  shows "\<exists>s'. al_step zmalloc s x = Some (s', snd (al_spec vs x)) \<and> al_inv s' (fst (al_spec vs x))"
proof -
  obtain l m where s: "s = (l, m)" by (cases s)
  obtain xs where inv: "finite (dom (nodes m))" "lmatch l = None" "list_ok m l xs" "map snd xs = vs"
    using assms(2) by (auto simp: al_inv_def s)
  define a where "a = zmalloc (nodes m)"
  have a: "zmalloc (nodes m) = a" "a \<noteq> 0" "nodes m a = None" using assms(1) inv(1) by (simp_all add: alloc_total_def a_def)
  have len: "length vs = length xs" using inv(4) by auto
  note mk = al_invI [OF _ _ _ _ inv(1) _ inv(2)]
  show ?thesis
  proof (cases x)
    case (APushHead v)
    from listAddNodeHead_ok [where zmalloc = zmalloc and a = a and v = v, OF inv(3) a]
    show ?thesis using APushHead inv(4) by (auto simp: s intro!: mk)
  next
    case (APushTail v)
    from listAddNodeTail_ok [where zmalloc = zmalloc and a = a and v = v, OF inv(3) a]
    show ?thesis using APushTail inv(4) by (auto simp: s intro!: mk)
  next
    case (AInsert i v after)
    show ?thesis
    proof (cases "index_pos (length xs) i")
      case None
      then show ?thesis using AInsert assms(2) listIndex_ok [OF inv(3), of i] len by (simp add: s)
    next
      case (Some k)
      have "snd (al_spec vs x) = None" using AInsert Some len by (simp add: Let_def)
      then show ?thesis using al_step_insert [OF assms(1) inv(1-3) Some, of v after] AInsert inv(4) by (simp add: s)
    qed
  next
    case (ADelete i)
    show ?thesis
    proof (cases "index_pos (length xs) i")
      case None
      then show ?thesis using ADelete assms(2) listIndex_ok [OF inv(3), of i] len by (simp add: s)
    next
      case (Some k)
      have "snd (al_spec vs x) = None" using ADelete Some len by simp
      then show ?thesis using al_step_delete [OF inv(1-3) Some, of zmalloc] ADelete inv(4) by (simp add: s)
    qed
  next
    case ARotTail
    have "map snd (if xs = [] then [] else last xs # butlast xs) = (if vs = [] then [] else last vs # butlast vs)"
      using inv(4) by (auto simp: last_map map_butlast)
    with listRotateTailToHead_ok [OF inv(3)] show ?thesis using ARotTail by (auto simp: s intro!: mk split: if_splits)
  next
    case ARotHead
    have "map snd (if xs = [] then [] else tl xs @ [hd xs]) = (if vs = [] then [] else tl vs @ [hd vs])"
      using inv(4) by (auto simp: hd_map map_tl)
    with listRotateHeadToTail_ok [OF inv(3)] show ?thesis using ARotHead by (auto simp: s intro!: mk split: if_splits)
  next
    case (AIndex i)
    show ?thesis
    proof (cases "index_pos (length xs) i")
      case None
      then show ?thesis using AIndex assms(2) listIndex_ok [OF inv(3), of i] len by (simp add: s)
    next
      case (Some k)
      have k: "k < length xs" using index_pos_bound [OF Some] .
      from nth_addr [OF inv(3) k] show ?thesis
        using AIndex Some assms(2) listIndex_ok [OF inv(3), of i] len k inv(4) by (auto simp: s)
    qed
  next
    case (ASearch key)
    have m: "matches l key v \<longleftrightarrow> key = v" for v using inv(2) by (simp add: matches_def)
    have sk: "listSearchKey l m key = Some (case find (\<lambda>x. key = snd x) xs of None \<Rightarrow> 0 | Some x \<Rightarrow> fst x)"
      using listSearchKey_ok [OF inv(3), of key] by (simp add: m)
    show ?thesis
    proof (cases "find (\<lambda>x. key = snd x) xs")
      case None
      then have "key \<notin> set vs" using inv(4) by (auto simp: find_None_iff)
      then show ?thesis using None sk ASearch assms(2) by (simp add: s)
    next
      case (Some y)
      then obtain k where k: "k < length xs" "y = xs ! k" "key = snd y" by (auto simp: find_Some_iff)
      then have "key \<in> set vs" using inv(4) nth_mem [OF k(1)] by auto
      then show ?thesis using nth_addr [OF inv(3) k(1)] k sk Some ASearch assms(2) by (auto simp: s)
    qed
  qed
qed

lemma al_run_ok:
  assumes "alloc_total zmalloc" "al_inv s vs"
  shows "\<exists>s'. run_steps (al_step zmalloc) s xs = Some (s', snd (al_spec_run vs xs)) \<and> al_inv s' (fst (al_spec_run vs xs))"
  using assms(2)
proof (induction xs arbitrary: s vs)
  case (Cons x xs)
  obtain s1 where s1: "al_step zmalloc s x = Some (s1, snd (al_spec vs x))" "al_inv s1 (fst (al_spec vs x))"
    using al_step_ok [OF assms(1) Cons.prems] by blast
  then show ?case using Cons.IH [OF s1(2)] by (auto simp: case_prod_beta Let_def)
qed simp

section \<open>Properties\<close>

text \<open>
  C7. Starting from \<open>listCreate\<close>, any sequence of insertions at the head, at the tail and next to an indexed
  node, deletions, rotations, index lookups with positive and negative indices and searches runs without
  following a null or dangling pointer and gives the answers of a mathematical list, provided \<open>zmalloc\<close> returns
  fresh addresses; at the end the nodes are linked consistently in both directions.
\<close>

theorem adlist_run_refines_list:
  assumes "alloc_total zmalloc" "finite (dom (nodes m))"
  shows "\<exists>l' m' xs. run_steps (al_step zmalloc) (listCreate, m) ops = Some ((l', m'), snd (al_spec_run [] ops)) \<and>
    list_ok m' l' xs \<and> map snd xs = fst (al_spec_run [] ops)"
proof -
  have "al_inv (listCreate, m) []" using assms(2) by (auto simp: al_inv_def listCreate_def list_ok_def)
  then obtain s' where s': "run_steps (al_step zmalloc) (listCreate, m) ops = Some (s', snd (al_spec_run [] ops))"
    "al_inv s' (fst (al_spec_run [] ops))"
    using al_run_ok [OF assms(1)] by blast
  then show ?thesis by (cases s') (auto simp: al_inv_def)
qed

text \<open>An allocator that takes the address after the largest one in use.\<close>

definition bump_alloc :: "'v allocator" where
  "bump_alloc h = Suc (Max (insert 0 (dom h)))"

lemma bump_alloc_ok: "alloc_total (bump_alloc :: 'v allocator)"
proof -
  have "h (bump_alloc h) = None" if f: "finite (dom h)" for h :: "'v heap"
  proof (rule ccontr)
    define M where "M = Max (insert 0 (dom h))"
    assume "h (bump_alloc h) \<noteq> None"
    then have "Suc M \<in> insert 0 (dom h)" by (simp add: bump_alloc_def M_def domIff)
    then have "Suc M \<le> M" using f unfolding M_def by (intro Max_ge) simp_all
    then show False by simp
  qed
  then show ?thesis by (simp add: alloc_total_def bump_alloc_def)
qed

theorem adlist_run_refines_list_witness:
  "\<exists>l' m' xs. run_steps (al_step bump_alloc) (listCreate, \<lparr>nodes = Map.empty, freed = []\<rparr>)
      [APushTail (5 :: int), APushHead 3, AInsert (- 1) 4 False, ARotTail, AIndex (- 1), ADelete 0, ASearch 4] =
      Some ((l', m'), [None, None, None, None, Some 4, None, Some 4]) \<and> list_ok m' l' xs \<and> map snd xs = [3, 4]"
  using adlist_run_refines_list [OF bump_alloc_ok, of "\<lparr>nodes = Map.empty, freed = []\<rparr>"
    "[APushTail (5 :: int), APushHead 3, AInsert (- 1) 4 False, ARotTail, AIndex (- 1), ADelete 0, ASearch 4]"]
  by (simp add: index_pos_def)

text \<open>
  C21. Iterating in either direction while deleting some of the nodes the iterator returns is safe: the loop sees
  every value exactly once and in order, the remaining list is the list without the deleted values, and with a
  free method exactly the deleted values have been freed, once each and in the order of the iteration.
\<close>

theorem iterate_and_delete:
  assumes "list_ok m l xs"
  shows "\<exists>l' m' xs'. iter_delete P l m (listGetIterator l d) =
      Some (l', m', if d = AL_START_HEAD then map snd xs else rev (map snd xs)) \<and>
    list_ok m' l' xs' \<and> map snd xs' = filter (\<lambda>v. \<not> P v) (map snd xs) \<and>
    freed m' = freed_by P l (if d = AL_START_HEAD then map snd xs else rev (map snd xs)) @ freed m"
proof (cases d)
  case AL_START_HEAD
  then show ?thesis using iter_delete_forward [of m l "[]" xs P] assms
    by (auto simp: listGetIterator_def list_ok_def filter_map comp_def)
next
  case AL_START_TAIL
  then show ?thesis using iter_delete_backward [of m l xs "[]" P] assms
    by (auto simp: listGetIterator_def list_ok_def filter_map comp_def)
qed

definition sample_mem :: "nat mem" where
  "sample_mem = \<lparr>nodes = [1 \<mapsto> \<lparr>lprev = 0, lnext = 2, lvalue = 10\<rparr>, 2 \<mapsto> \<lparr>lprev = 1, lnext = 3, lvalue = 11\<rparr>,
    3 \<mapsto> \<lparr>lprev = 2, lnext = 0, lvalue = 12\<rparr>], freed = []\<rparr>"

definition sample_list :: "nat adlist" where
  "sample_list = \<lparr>lhead = 1, ltail = 3, ldup = Some (\<lambda>v. if v = 99 then None else Some (v + 100)), lfree = True, lmatch = None, llen = 3\<rparr>"

lemma sample_ok: "list_ok sample_mem sample_list [(1, 10), (2, 11), (3, 12)]"
  by (simp add: list_ok_def sample_mem_def sample_list_def)

theorem iterate_and_delete_witness:
  "\<exists>l' m' xs'. iter_delete (\<lambda>v. v \<noteq> 11) sample_list sample_mem (listGetIterator sample_list AL_START_TAIL) = Some (l', m', [12, 11, 10]) \<and>
    list_ok m' l' xs' \<and> map snd xs' = [11] \<and> freed m' = [10, 12]"
  using iterate_and_delete [OF sample_ok, of "\<lambda>v. v \<noteq> 11" AL_START_TAIL]
  by (simp add: freed_by_def sample_list_def sample_mem_def)


definition three_alloc :: "nat allocator" where
  "three_alloc h = (if h 4 = None then 4 else if h 5 = None then 5 else if h 6 = None then 6 else 0)"


text \<open>
  C34. \<open>listJoin\<close> appends all nodes of the second list to the first, in order and without copying, leaves the second
  list empty, and touches no other node; emptying the joined list then frees every value of both exactly once.
\<close>

theorem listJoin_then_empty:
  assumes "list_ok m l xs" "list_ok m other ys" "addrs xs \<inter> addrs ys = {}" "lfree l"
  shows "\<exists>l' other' m' l'' m''. listJoin l other m = Some (l', other', m') \<and> list_ok m' l' (xs @ ys) \<and> list_ok m' other' [] \<and>
    listEmpty l' m' = Some (l'', m'') \<and> list_ok m'' l'' [] \<and>
    nodes m'' = (\<lambda>a. if a \<in> addrs xs \<union> addrs ys then None else nodes m a) \<and>
    freed m'' = rev (map snd xs @ map snd ys) @ freed m"
proof -
  obtain l' other' m' where j: "listJoin l other m = Some (l', other', m')" "list_ok m' l' (xs @ ys)" "list_ok m' other' []"
    "same_outside (addrs xs \<union> addrs ys) m m'" "freed m' = freed m" "same_methods l l'"
    using listJoin_ok [OF assms(1-3)] by blast
  obtain l'' m'' where e: "listEmpty l' m' = Some (l'', m'')" "list_ok m'' l'' []" "same_outside (addrs (xs @ ys)) m' m''"
    "\<forall>a \<in> addrs (xs @ ys). nodes m'' a = None" "freed m'' = (if lfree l' then rev (map snd (xs @ ys)) @ freed m' else freed m')"
    using listEmpty_ok [OF j(2)] by blast
  have "nodes m'' = (\<lambda>a. if a \<in> addrs xs \<union> addrs ys then None else nodes m a)"
    using j(4) e(3,4) by (auto simp: same_outside_def fun_eq_iff)
  moreover have "lfree l'" using j(6) assms(4) by (simp add: same_methods_def)
  ultimately show ?thesis using j e by (intro exI conjI) auto
qed

theorem listJoin_then_empty_witness:
  "\<exists>l' other' m' l'' m''. listJoin (sample_list\<lparr>lhead := 0, ltail := 0, llen := 0\<rparr>) sample_list sample_mem = Some (l', other', m') \<and>
     listEmpty l' m' = Some (l'', m'') \<and> freed m'' = [12, 11, 10]"
  using listJoin_then_empty [OF _ sample_ok, of "sample_list\<lparr>lhead := 0, ltail := 0, llen := 0\<rparr>" "[]"]
  by (auto simp: list_ok_def sample_list_def sample_mem_def)

end
