(* ===== verification/Buffer.thy ===== *)
theory Buffer
  imports Interfaces
begin

text \<open>
  The network buffer of \<^verbatim>\<open>muduo/muduo/net/Buffer.h\<close> and \<^verbatim>\<open>Buffer.cc\<close>: a vector of bytes with a reader and a
  writer index, free space in front for prepending headers, and compaction or growth when the space at
  the end runs out. Pointers into the vector are offsets from \<open>begin()\<close>; \<open>None\<close> is a failed assertion, an
  access outside the vector or the exception of \<open>vector::resize\<close>. Differences and sums of \<open>size_t\<close> wrap
  modulo \<open>2 ^ 64\<close>.
\<close>

section \<open>Model\<close>

definition sz :: "int \<Rightarrow> nat" where
  "sz x = nat (x mod 2 ^ 64)"

definition vector_max :: nat where "vector_max = 2 ^ 63 - 1"

definition kCheapPrepend :: nat where "kCheapPrepend = 8"

definition kInitialSize :: nat where "kInitialSize = 1024"

definition kCRLF :: "byte list" where "kCRLF = [13, 10]"

definition check :: "bool \<Rightarrow> unit option" where
  "check b = (if b then Some () else None)"

record Buffer =
  buffer :: "byte list"
  readerIndex :: nat
  writerIndex :: nat

definition readableBytes :: "Buffer \<Rightarrow> nat" where
  "readableBytes b = sz (int (writerIndex b) - int (readerIndex b))"

definition writableBytes :: "Buffer \<Rightarrow> nat" where
  "writableBytes b = sz (int (length (buffer b)) - int (writerIndex b))"

definition prependableBytes :: "Buffer \<Rightarrow> nat" where
  "prependableBytes b = readerIndex b"

definition Buffer_init :: "nat \<Rightarrow> Buffer option" where
  "Buffer_init initialSize = do {
     check (sz (int kCheapPrepend + int initialSize) \<le> vector_max);
     let b = \<lparr>buffer = replicate (sz (int kCheapPrepend + int initialSize)) 0,
              readerIndex = kCheapPrepend, writerIndex = kCheapPrepend\<rparr>;
     check (readableBytes b = 0);
     check (writableBytes b = initialSize);
     check (prependableBytes b = kCheapPrepend);
     Some b
   }"

definition swap :: "Buffer \<Rightarrow> Buffer \<Rightarrow> Buffer \<times> Buffer" where
  "swap this rhs =
     (this\<lparr>buffer := buffer rhs, readerIndex := readerIndex rhs, writerIndex := writerIndex rhs\<rparr>,
      rhs\<lparr>buffer := buffer this, readerIndex := readerIndex this, writerIndex := writerIndex this\<rparr>)"

definition peek :: "Buffer \<Rightarrow> nat" where
  "peek b = readerIndex b"

definition beginWrite :: "Buffer \<Rightarrow> nat" where
  "beginWrite b = writerIndex b"

text \<open>The bytes between two pointers into the vector.\<close>

definition span :: "Buffer \<Rightarrow> nat \<Rightarrow> nat \<Rightarrow> byte list option" where
  "span b s e = (if s \<le> e then rd (buffer b) s (e - s) else None)"

text \<open>\<open>std::search\<close> and \<open>memchr\<close> over a range, as offsets from its start.\<close>

fun std_search :: "byte list \<Rightarrow> byte list \<Rightarrow> nat" where
  "std_search [] pat = 0"
| "std_search (x # xs) pat = (if take (length pat) (x # xs) = pat then 0 else Suc (std_search xs pat))"

fun memchr :: "byte \<Rightarrow> byte list \<Rightarrow> nat option" where
  "memchr c [] = None"
| "memchr c (x # xs) = (if x = c then Some 0 else map_option Suc (memchr c xs))"

definition findCRLF_from :: "Buffer \<Rightarrow> nat \<Rightarrow> nat option option" where
  "findCRLF_from b start = do {
     check (peek b \<le> start);
     check (start \<le> beginWrite b);
     bytes \<leftarrow> span b start (beginWrite b);
     let crlf = start + std_search bytes kCRLF;
     Some (if crlf = beginWrite b then None else Some crlf)
   }"

definition findCRLF :: "Buffer \<Rightarrow> nat option option" where
  "findCRLF b = do {
     bytes \<leftarrow> span b (peek b) (beginWrite b);
     let crlf = peek b + std_search bytes kCRLF;
     Some (if crlf = beginWrite b then None else Some crlf)
   }"

definition findEOL :: "Buffer \<Rightarrow> nat option option" where
  "findEOL b = do {
     bytes \<leftarrow> rd (buffer b) (peek b) (readableBytes b);
     Some (map_option (\<lambda>i. peek b + i) (memchr 10 bytes))
   }"

definition findEOL_from :: "Buffer \<Rightarrow> nat \<Rightarrow> nat option option" where
  "findEOL_from b start = do {
     check (peek b \<le> start);
     check (start \<le> beginWrite b);
     bytes \<leftarrow> rd (buffer b) start (beginWrite b - start);
     Some (map_option (\<lambda>i. start + i) (memchr 10 bytes))
   }"

definition retrieveAll :: "Buffer \<Rightarrow> Buffer" where
  "retrieveAll b = b\<lparr>readerIndex := kCheapPrepend, writerIndex := kCheapPrepend\<rparr>"

definition retrieve :: "Buffer \<Rightarrow> nat \<Rightarrow> Buffer option" where
  "retrieve b len = do {
     check (len \<le> readableBytes b);
     Some (if len < readableBytes b then b\<lparr>readerIndex := readerIndex b + len\<rparr> else retrieveAll b)
   }"

definition retrieveUntil :: "Buffer \<Rightarrow> nat \<Rightarrow> Buffer option" where
  "retrieveUntil b e = do {
     check (peek b \<le> e);
     check (e \<le> beginWrite b);
     retrieve b (e - peek b)
   }"

definition retrieveInt64 :: "Buffer \<Rightarrow> Buffer option" where "retrieveInt64 b = retrieve b 8"

definition retrieveInt32 :: "Buffer \<Rightarrow> Buffer option" where "retrieveInt32 b = retrieve b 4"

definition retrieveInt16 :: "Buffer \<Rightarrow> Buffer option" where "retrieveInt16 b = retrieve b 2"

definition retrieveInt8 :: "Buffer \<Rightarrow> Buffer option" where "retrieveInt8 b = retrieve b 1"

definition retrieveAsString :: "Buffer \<Rightarrow> nat \<Rightarrow> (Buffer \<times> byte list) option" where
  "retrieveAsString b len = do {
     check (len \<le> readableBytes b);
     result \<leftarrow> rd (buffer b) (peek b) len;
     b \<leftarrow> retrieve b len;
     Some (b, result)
   }"

definition retrieveAllAsString :: "Buffer \<Rightarrow> (Buffer \<times> byte list) option" where
  "retrieveAllAsString b = retrieveAsString b (readableBytes b)"

text \<open>A \<open>StringPiece\<close> is the memory from its pointer on and a length of type \<open>int\<close>.\<close>

definition i32 :: "int \<Rightarrow> int" where
  "i32 v = (v + 2 ^ 31) mod 2 ^ 32 - 2 ^ 31"

definition toStringPiece :: "Buffer \<Rightarrow> byte list \<times> int" where
  "toStringPiece b = (drop (peek b) (buffer b), i32 (int (readableBytes b)))"

definition vector_resize :: "byte list \<Rightarrow> nat \<Rightarrow> byte list option" where
  "vector_resize m n = do { check (n \<le> vector_max); Some (take n m @ replicate (n - length m) 0) }"

definition makeSpace :: "Buffer \<Rightarrow> nat \<Rightarrow> Buffer option" where
  "makeSpace b len =
     (if sz (int (writableBytes b) + int (prependableBytes b)) < sz (int len + int kCheapPrepend) then do {
        m \<leftarrow> vector_resize (buffer b) (sz (int (writerIndex b) + int len));
        Some (b\<lparr>buffer := m\<rparr>)
      } else do {
        check (kCheapPrepend < readerIndex b);
        let readable = readableBytes b;
        bytes \<leftarrow> span b (readerIndex b) (writerIndex b);
        m \<leftarrow> wr (buffer b) kCheapPrepend bytes;
        let b = b\<lparr>buffer := m, readerIndex := kCheapPrepend, writerIndex := kCheapPrepend + readable\<rparr>;
        check (readable = readableBytes b);
        Some b
      })"

definition ensureWritableBytes :: "Buffer \<Rightarrow> nat \<Rightarrow> Buffer option" where
  "ensureWritableBytes b len = do {
     b \<leftarrow> (if writableBytes b < len then makeSpace b len else Some b);
     check (writableBytes b \<ge> len);
     Some b
   }"

definition hasWritten :: "Buffer \<Rightarrow> nat \<Rightarrow> Buffer option" where
  "hasWritten b len = do {
     check (len \<le> writableBytes b);
     Some (b\<lparr>writerIndex := writerIndex b + len\<rparr>)
   }"

definition append :: "Buffer \<Rightarrow> byte list \<Rightarrow> Buffer option" where
  "append b data = do {
     b \<leftarrow> ensureWritableBytes b (length data);
     m \<leftarrow> wr (buffer b) (beginWrite b) data;
     hasWritten (b\<lparr>buffer := m\<rparr>) (length data)
   }"

definition append_piece :: "Buffer \<Rightarrow> byte list \<times> int \<Rightarrow> Buffer option" where
  "append_piece b str = do {
     data \<leftarrow> rd (fst str) 0 (sz (snd str));
     append b data
   }"

definition unwrite :: "Buffer \<Rightarrow> nat \<Rightarrow> Buffer option" where
  "unwrite b len = do {
     check (len \<le> readableBytes b);
     Some (b\<lparr>writerIndex := writerIndex b - len\<rparr>)
   }"

definition prepend :: "Buffer \<Rightarrow> byte list \<Rightarrow> Buffer option" where
  "prepend b data = do {
     check (length data \<le> prependableBytes b);
     let b = b\<lparr>readerIndex := readerIndex b - length data\<rparr>;
     m \<leftarrow> wr (buffer b) (readerIndex b) data;
     Some (b\<lparr>buffer := m\<rparr>)
   }"

text \<open>
  \<^verbatim>\<open>Endian.h\<close> on a little-endian host: \<open>htobe64\<close> and its relatives reverse the bytes of an integer. An
  integer variable in memory is its little-endian coding.
\<close>

definition hostToNetwork64 :: "int \<Rightarrow> int" where "hostToNetwork64 x = le_dec (rev (le_enc 8 x))"

definition hostToNetwork32 :: "int \<Rightarrow> int" where "hostToNetwork32 x = le_dec (rev (le_enc 4 x))"

definition hostToNetwork16 :: "int \<Rightarrow> int" where "hostToNetwork16 x = le_dec (rev (le_enc 2 x))"

definition networkToHost64 :: "int \<Rightarrow> int" where "networkToHost64 x = le_dec (rev (le_enc 8 x))"

definition networkToHost32 :: "int \<Rightarrow> int" where "networkToHost32 x = le_dec (rev (le_enc 4 x))"

definition networkToHost16 :: "int \<Rightarrow> int" where "networkToHost16 x = le_dec (rev (le_enc 2 x))"

definition appendInt64 :: "Buffer \<Rightarrow> int \<Rightarrow> Buffer option" where
  "appendInt64 b x = (let be64 = hostToNetwork64 x in append b (le_enc 8 be64))"

definition appendInt32 :: "Buffer \<Rightarrow> int \<Rightarrow> Buffer option" where
  "appendInt32 b x = (let be32 = hostToNetwork32 x in append b (le_enc 4 be32))"

definition appendInt16 :: "Buffer \<Rightarrow> int \<Rightarrow> Buffer option" where
  "appendInt16 b x = (let be16 = hostToNetwork16 x in append b (le_enc 2 be16))"

definition appendInt8 :: "Buffer \<Rightarrow> int \<Rightarrow> Buffer option" where
  "appendInt8 b x = append b (le_enc 1 x)"

definition peekInt64 :: "Buffer \<Rightarrow> int option" where
  "peekInt64 b = do {
     check (readableBytes b \<ge> 8);
     be64 \<leftarrow> rd (buffer b) (peek b) 8;
     Some (le_sdec (le_enc 8 (networkToHost64 (le_dec be64))))
   }"

definition peekInt32 :: "Buffer \<Rightarrow> int option" where
  "peekInt32 b = do {
     check (readableBytes b \<ge> 4);
     be32 \<leftarrow> rd (buffer b) (peek b) 4;
     Some (le_sdec (le_enc 4 (networkToHost32 (le_dec be32))))
   }"

definition peekInt16 :: "Buffer \<Rightarrow> int option" where
  "peekInt16 b = do {
     check (readableBytes b \<ge> 2);
     be16 \<leftarrow> rd (buffer b) (peek b) 2;
     Some (le_sdec (le_enc 2 (networkToHost16 (le_dec be16))))
   }"

definition peekInt8 :: "Buffer \<Rightarrow> int option" where
  "peekInt8 b = do {
     check (readableBytes b \<ge> 1);
     x \<leftarrow> rd (buffer b) (peek b) 1;
     Some (le_sdec x)
   }"

definition readInt64 :: "Buffer \<Rightarrow> (Buffer \<times> int) option" where
  "readInt64 b = do { result \<leftarrow> peekInt64 b; b \<leftarrow> retrieveInt64 b; Some (b, result) }"

definition readInt32 :: "Buffer \<Rightarrow> (Buffer \<times> int) option" where
  "readInt32 b = do { result \<leftarrow> peekInt32 b; b \<leftarrow> retrieveInt32 b; Some (b, result) }"

definition readInt16 :: "Buffer \<Rightarrow> (Buffer \<times> int) option" where
  "readInt16 b = do { result \<leftarrow> peekInt16 b; b \<leftarrow> retrieveInt16 b; Some (b, result) }"

definition readInt8 :: "Buffer \<Rightarrow> (Buffer \<times> int) option" where
  "readInt8 b = do { result \<leftarrow> peekInt8 b; b \<leftarrow> retrieveInt8 b; Some (b, result) }"

definition prependInt64 :: "Buffer \<Rightarrow> int \<Rightarrow> Buffer option" where
  "prependInt64 b x = (let be64 = hostToNetwork64 x in prepend b (le_enc 8 be64))"

definition prependInt32 :: "Buffer \<Rightarrow> int \<Rightarrow> Buffer option" where
  "prependInt32 b x = (let be32 = hostToNetwork32 x in prepend b (le_enc 4 be32))"

definition prependInt16 :: "Buffer \<Rightarrow> int \<Rightarrow> Buffer option" where
  "prependInt16 b x = (let be16 = hostToNetwork16 x in prepend b (le_enc 2 be16))"

definition prependInt8 :: "Buffer \<Rightarrow> int \<Rightarrow> Buffer option" where
  "prependInt8 b x = prepend b (le_enc 1 x)"

definition shrink :: "Buffer \<Rightarrow> nat \<Rightarrow> Buffer option" where
  "shrink b reserve = do {
     other \<leftarrow> Buffer_init kInitialSize;
     other \<leftarrow> ensureWritableBytes other (sz (int (readableBytes b) + int reserve));
     other \<leftarrow> append_piece other (toStringPiece b);
     Some (fst (swap b other))
   }"

text \<open>
  \<open>readFd\<close>. The system call \<open>readv\<close> is a parameter: given the lengths of the vectors it fails with an error
  number or delivers bytes, which fill the vectors in order. The result is the return value, the error
  saved in \<open>savedErrno\<close> if any, and the buffer.
\<close>

definition extrabuf_size :: nat where "extrabuf_size = 65536"

definition readFd :: "(nat list \<Rightarrow> int + byte list) \<Rightarrow> Buffer \<Rightarrow> (Buffer \<times> int \<times> int option) option" where
  "readFd readv b =
     (let writable = writableBytes b;
          vec = (if writable < extrabuf_size then [writable, extrabuf_size] else [writable]) in
      case readv vec of
        Inl errno \<Rightarrow> Some (b, - 1, Some errno)
      | Inr data \<Rightarrow> do {
          let n = length data;
          m \<leftarrow> wr (buffer b) (writerIndex b) (take writable data);
          let b = b\<lparr>buffer := m\<rparr>;
          let extrabuf = drop writable data;
          if n \<le> writable then Some (b\<lparr>writerIndex := writerIndex b + n\<rparr>, int n, None)
          else do {
            let b = b\<lparr>writerIndex := length (buffer b)\<rparr>;
            b \<leftarrow> append b extrabuf;
            Some (b, int n, None)
          }
        })"

section \<open>The buffer as a queue of bytes\<close>

definition buffer_wf :: "Buffer \<Rightarrow> bool" where
  "buffer_wf b \<longleftrightarrow> readerIndex b \<le> writerIndex b \<and> writerIndex b \<le> length (buffer b) \<and>
     kCheapPrepend \<le> length (buffer b) \<and> length (buffer b) \<le> vector_max"

definition content :: "Buffer \<Rightarrow> byte list" where
  "content b = take (writerIndex b - readerIndex b) (drop (readerIndex b) (buffer b))"

lemma check_Some [simp]: "check P = Some x \<longleftrightarrow> P" "check True = Some ()" "check False = None"
  by (simp_all add: check_def)

lemma check_bind [simp]: "check P \<bind> f = (if P then f () else None)"
  by (simp add: check_def)

lemma sz_id: "0 \<le> x \<Longrightarrow> x < 2 ^ 64 \<Longrightarrow> sz x = nat x"
  by (simp add: sz_def)

lemma buffer_wfD:
  assumes "buffer_wf b"
  shows "readerIndex b \<le> writerIndex b" "writerIndex b \<le> length (buffer b)" "length (buffer b) \<le> vector_max"
    "kCheapPrepend \<le> length (buffer b)"
  using assms by (simp_all add: buffer_wf_def)

lemma length_content: "buffer_wf b \<Longrightarrow> length (content b) = writerIndex b - readerIndex b"
  by (auto simp: content_def buffer_wf_def min_def)

lemma readableBytes_eq: "buffer_wf b \<Longrightarrow> readableBytes b = length (content b)"
  by (simp add: readableBytes_def sz_id length_content buffer_wf_def vector_max_def nat_diff_distrib)

lemma writableBytes_eq: "buffer_wf b \<Longrightarrow> writableBytes b = length (buffer b) - writerIndex b"
  by (simp add: writableBytes_def sz_id buffer_wf_def vector_max_def nat_diff_distrib)

lemma rd_content:
  assumes "buffer_wf b" "n \<le> length (content b)"
  shows "rd (buffer b) (peek b) n = Some (take n (content b))"
  using buffer_wfD [OF assms(1)] assms(2) unfolding length_content [OF assms(1)]
  by (simp add: rd_def peek_def content_def min_def)

lemma span_content: "buffer_wf b \<Longrightarrow> span b (readerIndex b) (writerIndex b) = Some (content b)"
  by (simp add: span_def rd_def content_def buffer_wf_def)

lemma retrieve_ok:
  assumes "buffer_wf b" "n \<le> length (content b)"
  shows "\<exists>b'. retrieve b n = Some b' \<and> buffer_wf b' \<and> content b' = drop n (content b) \<and>
    min kCheapPrepend (prependableBytes b + n) \<le> prependableBytes b' \<and> length (buffer b') = length (buffer b)"
proof (cases "n = length (content b)")
  case True
  then show ?thesis using assms
    by (auto simp: retrieve_def readableBytes_eq retrieveAll_def buffer_wf_def content_def prependableBytes_def kCheapPrepend_def)
next
  case False
  then have n: "n < writerIndex b - readerIndex b" using assms by (simp add: length_content)
  then have "content (b\<lparr>readerIndex := readerIndex b + n\<rparr>) = drop n (content b)"
    by (simp add: content_def drop_take add.commute)
  then show ?thesis using assms False n
    by (auto simp: retrieve_def readableBytes_eq buffer_wf_def prependableBytes_def)
qed

lemma retrieve_fault: "buffer_wf b \<Longrightarrow> length (content b) < n \<Longrightarrow> retrieve b n = None"
  by (simp add: retrieve_def readableBytes_eq)

lemma retrieveAsString_ok:
  assumes "buffer_wf b" "n \<le> length (content b)"
  shows "\<exists>b'. retrieveAsString b n = Some (b', take n (content b)) \<and> retrieve b n = Some b'"
  using retrieve_ok [OF assms] rd_content [OF assms] assms
  by (auto simp: retrieveAsString_def readableBytes_eq)

lemma unwrite_ok:
  assumes "buffer_wf b" "n \<le> length (content b)"
  shows "\<exists>b'. unwrite b n = Some b' \<and> buffer_wf b' \<and> content b' = take (length (content b) - n) (content b) \<and>
    prependableBytes b' = prependableBytes b \<and> length (buffer b') = length (buffer b)"
proof -
  have "content (b\<lparr>writerIndex := writerIndex b - n\<rparr>) = take (length (content b) - n) (content b)"
    using assms by (simp add: length_content) (simp add: content_def min_def add.commute)
  then show ?thesis using assms
    by (auto simp: unwrite_def readableBytes_eq prependableBytes_def) (auto simp: length_content buffer_wf_def)
qed

lemma prepend_ok:
  assumes "buffer_wf b" "length d \<le> prependableBytes b"
  shows "\<exists>b'. prepend b d = Some b' \<and> buffer_wf b' \<and> content b' = d @ content b \<and>
    prependableBytes b' = prependableBytes b - length d \<and> length (buffer b') = length (buffer b)"
proof -
  define r where "r = readerIndex b - length d"
  have r: "r + length d = readerIndex b" using assms by (simp add: r_def prependableBytes_def)
  define m where "m = take r (buffer b) @ d @ drop (readerIndex b) (buffer b)"
  have len: "length m = length (buffer b)" using r buffer_wfD [OF assms(1)] by (simp add: m_def)
  have "prepend b d = Some (b\<lparr>readerIndex := r, buffer := m\<rparr>)"
    using assms r buffer_wfD [OF assms(1)] by (simp add: prepend_def r_def [symmetric] wr_def m_def)
  moreover have "content (b\<lparr>readerIndex := r, buffer := m\<rparr>) = d @ content b"
    using r buffer_wfD [OF assms(1)] by (simp add: content_def m_def min_def)
  moreover have "buffer_wf (b\<lparr>readerIndex := r, buffer := m\<rparr>)"
    using assms(1) r len by (simp add: buffer_wf_def)
  ultimately show ?thesis using len by (simp add: prependableBytes_def r_def)
qed

lemma makeSpace_ok:
  assumes "buffer_wf b" "writableBytes b < len" "length (buffer b) + len \<le> vector_max"
  shows "\<exists>b'. makeSpace b len = Some b' \<and> buffer_wf b' \<and> content b' = content b \<and>
    min kCheapPrepend (prependableBytes b) \<le> prependableBytes b' \<and>
    len \<le> length (buffer b') - writerIndex b' \<and> length (buffer b') \<le> length (buffer b) + len"
proof -
  note wf = buffer_wfD [OF assms(1)]
  have w: "length (buffer b) - writerIndex b < len" using assms(1,2) by (simp add: writableBytes_eq)
  have s1: "sz (int (writableBytes b) + int (prependableBytes b)) = length (buffer b) - writerIndex b + readerIndex b"
    using wf assms(1,3) by (subst sz_id) (auto simp: writableBytes_eq prependableBytes_def vector_max_def nat_add_distrib)
  have s2: "sz (int len + int kCheapPrepend) = len + kCheapPrepend" "sz (int (writerIndex b) + int len) = writerIndex b + len"
    using wf assms(3) by (subst sz_id; simp add: vector_max_def kCheapPrepend_def nat_add_distrib)+
  show ?thesis
  proof (cases "length (buffer b) - writerIndex b + readerIndex b < len + kCheapPrepend")
    case True
    define m where "m = buffer b @ replicate (writerIndex b + len - length (buffer b)) 0"
    have m: "vector_resize (buffer b) (writerIndex b + len) = Some m" "length m = writerIndex b + len"
      using wf w assms(3) by (auto simp: vector_resize_def m_def)
    then have "makeSpace b len = Some (b\<lparr>buffer := m\<rparr>)" using True by (simp add: makeSpace_def s1 s2)
    moreover have "content (b\<lparr>buffer := m\<rparr>) = content b" using wf by (simp add: content_def m_def)
    moreover have "buffer_wf (b\<lparr>buffer := m\<rparr>)" using assms(3) wf m(2) w by (simp add: buffer_wf_def)
    ultimately show ?thesis using m(2) wf by (simp add: prependableBytes_def)
  next
    case False
    then have r: "kCheapPrepend < readerIndex b" using w by simp
    define n where "n = length (content b)"
    have n: "n = writerIndex b - readerIndex b" by (simp add: n_def length_content [OF assms(1)])
    define m where "m = take kCheapPrepend (buffer b) @ content b @ drop (kCheapPrepend + n) (buffer b)"
    define b' where "b' = b\<lparr>buffer := m, readerIndex := kCheapPrepend, writerIndex := kCheapPrepend + n\<rparr>"
    have fit: "kCheapPrepend + n \<le> length (buffer b)" using r wf n by simp
    have len: "length m = length (buffer b)" using fit by (simp add: m_def n_def)
    have wf': "buffer_wf b'" using assms(1) fit len by (simp add: b'_def buffer_wf_def)
    have "content b' = take n (drop kCheapPrepend m)" by (simp add: content_def b'_def)
    then have c: "content b' = content b" using fit by (simp add: m_def n_def)
    have "wr (buffer b) kCheapPrepend (content b) = Some m" using fit by (simp add: wr_def m_def n_def)
    then have "makeSpace b len = Some b'"
      using False r span_content [OF assms(1)] readableBytes_eq [OF assms(1)] readableBytes_eq [OF wf'] c
      by (simp add: makeSpace_def s1 s2 n_def b'_def Let_def)
    then show ?thesis using wf' c len False r n wf by (auto simp: b'_def prependableBytes_def)
  qed
qed

lemma ensureWritableBytes_ok:
  assumes "buffer_wf b" "length (buffer b) + len \<le> vector_max"
  shows "\<exists>b'. ensureWritableBytes b len = Some b' \<and> buffer_wf b' \<and> content b' = content b \<and>
    min kCheapPrepend (prependableBytes b) \<le> prependableBytes b' \<and>
    len \<le> length (buffer b') - writerIndex b' \<and> length (buffer b') \<le> length (buffer b) + len"
proof (cases "writableBytes b < len")
  case True
  then show ?thesis using makeSpace_ok [OF assms(1) True assms(2)]
    by (auto simp: ensureWritableBytes_def writableBytes_eq)
next
  case False
  then show ?thesis using assms by (auto simp: ensureWritableBytes_def writableBytes_eq)
qed

lemma write_ok:
  assumes "buffer_wf b" "length d \<le> length (buffer b) - writerIndex b"
    "m = take (writerIndex b) (buffer b) @ d @ drop (writerIndex b + length d) (buffer b)"
  shows "wr (buffer b) (writerIndex b) d = Some m" "length m = length (buffer b)" "buffer_wf (b\<lparr>buffer := m\<rparr>)"
    "buffer_wf (b\<lparr>buffer := m, writerIndex := writerIndex b + length d\<rparr>)"
    "content (b\<lparr>buffer := m, writerIndex := writerIndex b + length d\<rparr>) = content b @ d"
proof -
  note wf = buffer_wfD [OF assms(1)]
  show "wr (buffer b) (writerIndex b) d = Some m" using wf assms(2,3) by (simp add: wr_def)
  show len: "length m = length (buffer b)" using wf assms(2,3) by simp
  show "buffer_wf (b\<lparr>buffer := m\<rparr>)" "buffer_wf (b\<lparr>buffer := m, writerIndex := writerIndex b + length d\<rparr>)"
    using wf assms(2) len by (auto simp: buffer_wf_def)
  have "writerIndex b + length d - readerIndex b = (writerIndex b - readerIndex b) + length d" using wf by simp
  then show "content (b\<lparr>buffer := m, writerIndex := writerIndex b + length d\<rparr>) = content b @ d"
    using wf assms(3) by (simp add: content_def drop_take)
qed

lemma append_ok:
  assumes "buffer_wf b" "length (buffer b) + length d \<le> vector_max"
  shows "\<exists>b'. append b d = Some b' \<and> buffer_wf b' \<and> content b' = content b @ d \<and>
    min kCheapPrepend (prependableBytes b) \<le> prependableBytes b' \<and>
    length (buffer b') \<le> length (buffer b) + length d"
proof -
  obtain b1 where b1: "ensureWritableBytes b (length d) = Some b1" "buffer_wf b1" "content b1 = content b"
    "min kCheapPrepend (prependableBytes b) \<le> prependableBytes b1"
    "length d \<le> length (buffer b1) - writerIndex b1" "length (buffer b1) \<le> length (buffer b) + length d"
    using ensureWritableBytes_ok [OF assms] by blast
  note w = write_ok [OF b1(2,5) refl]
  show ?thesis
    using b1 w writableBytes_eq [OF w(3)]
    by (auto simp: append_def beginWrite_def hasWritten_def prependableBytes_def)
qed

interpretation bq: byte_queue buffer_wf content prependableBytes "\<lambda>b. length (buffer b)" vector_max kCheapPrepend
  append prepend retrieve retrieveAsString unwrite
  by unfold_locales
    (use append_ok prepend_ok retrieve_ok retrieveAsString_ok unwrite_ok in \<open>simp_all\<close>)

section \<open>Integers in network order\<close>

lemma le_enc_swapped: "le_enc n (le_dec (rev (le_enc n x))) = rev (le_enc n x)"
  using le_enc_dec [of "rev (le_enc n x)"] by simp

lemma swap_back: "length bs = n \<Longrightarrow> le_sdec (le_enc n (le_dec (rev (le_enc n (le_dec bs))))) = le_sdec (rev bs)"
  using le_enc_dec [of bs] le_enc_dec [of "rev bs"] by auto

lemmas endian_defs = hostToNetwork64_def hostToNetwork32_def hostToNetwork16_def
  networkToHost64_def networkToHost32_def networkToHost16_def

lemma appendInt_eq:
  "appendInt64 b x = append b (rev (le_enc 8 x))" "appendInt32 b x = append b (rev (le_enc 4 x))"
  "appendInt16 b x = append b (rev (le_enc 2 x))" "appendInt8 b x = append b (rev (le_enc 1 x))"
  by (simp_all add: appendInt64_def appendInt32_def appendInt16_def appendInt8_def endian_defs le_enc_swapped)

lemma prependInt_eq:
  "prependInt64 b x = prepend b (rev (le_enc 8 x))" "prependInt32 b x = prepend b (rev (le_enc 4 x))"
  "prependInt16 b x = prepend b (rev (le_enc 2 x))" "prependInt8 b x = prepend b (rev (le_enc 1 x))"
  by (simp_all add: prependInt64_def prependInt32_def prependInt16_def prependInt8_def endian_defs le_enc_swapped)

lemma peekInt_eq:
  assumes "buffer_wf b"
  shows "8 \<le> length (content b) \<Longrightarrow> peekInt64 b = Some (le_sdec (rev (take 8 (content b))))"
    "4 \<le> length (content b) \<Longrightarrow> peekInt32 b = Some (le_sdec (rev (take 4 (content b))))"
    "2 \<le> length (content b) \<Longrightarrow> peekInt16 b = Some (le_sdec (rev (take 2 (content b))))"
    "1 \<le> length (content b) \<Longrightarrow> peekInt8 b = Some (le_sdec (rev (take 1 (content b))))"
proof -
  show "8 \<le> length (content b) \<Longrightarrow> peekInt64 b = Some (le_sdec (rev (take 8 (content b))))"
    using swap_back [of "take 8 (content b)" 8]
    by (simp add: peekInt64_def readableBytes_eq assms rd_content endian_defs)
  show "4 \<le> length (content b) \<Longrightarrow> peekInt32 b = Some (le_sdec (rev (take 4 (content b))))"
    using swap_back [of "take 4 (content b)" 4]
    by (simp add: peekInt32_def readableBytes_eq assms rd_content endian_defs)
  show "2 \<le> length (content b) \<Longrightarrow> peekInt16 b = Some (le_sdec (rev (take 2 (content b))))"
    using swap_back [of "take 2 (content b)" 2]
    by (simp add: peekInt16_def readableBytes_eq assms rd_content endian_defs)
  show "1 \<le> length (content b) \<Longrightarrow> peekInt8 b = Some (le_sdec (rev (take 1 (content b))))"
    by (cases "content b") (simp_all add: peekInt8_def readableBytes_eq assms rd_content)
qed

lemma readInt_ok:
  assumes "buffer_wf b"
  shows "content b = rev (le_enc 8 x) @ q \<Longrightarrow> int64 x \<Longrightarrow>
      \<exists>b'. readInt64 b = Some (b', x) \<and> buffer_wf b' \<and> content b' = q"
    "content b = rev (le_enc 4 x) @ q \<Longrightarrow> - (2 ^ 31) \<le> x \<Longrightarrow> x < 2 ^ 31 \<Longrightarrow>
      \<exists>b'. readInt32 b = Some (b', x) \<and> buffer_wf b' \<and> content b' = q"
    "content b = rev (le_enc 2 x) @ q \<Longrightarrow> - (2 ^ 15) \<le> x \<Longrightarrow> x < 2 ^ 15 \<Longrightarrow>
      \<exists>b'. readInt16 b = Some (b', x) \<and> buffer_wf b' \<and> content b' = q"
    "content b = rev (le_enc 1 x) @ q \<Longrightarrow> - (2 ^ 7) \<le> x \<Longrightarrow> x < 2 ^ 7 \<Longrightarrow>
      \<exists>b'. readInt8 b = Some (b', x) \<and> buffer_wf b' \<and> content b' = q"
proof -
  show "content b = rev (le_enc 8 x) @ q \<Longrightarrow> int64 x \<Longrightarrow> \<exists>b'. readInt64 b = Some (b', x) \<and> buffer_wf b' \<and> content b' = q"
    using peekInt_eq(1) [OF assms] retrieve_ok [OF assms, of 8] le_sdec_enc [of 8 x]
    by (auto simp: readInt64_def retrieveInt64_def int64_def)
  show "content b = rev (le_enc 4 x) @ q \<Longrightarrow> - (2 ^ 31) \<le> x \<Longrightarrow> x < 2 ^ 31 \<Longrightarrow> \<exists>b'. readInt32 b = Some (b', x) \<and> buffer_wf b' \<and> content b' = q"
    using peekInt_eq(2) [OF assms] retrieve_ok [OF assms, of 4] le_sdec_enc [of 4 x]
    by (auto simp: readInt32_def retrieveInt32_def)
  show "content b = rev (le_enc 2 x) @ q \<Longrightarrow> - (2 ^ 15) \<le> x \<Longrightarrow> x < 2 ^ 15 \<Longrightarrow> \<exists>b'. readInt16 b = Some (b', x) \<and> buffer_wf b' \<and> content b' = q"
    using peekInt_eq(3) [OF assms] retrieve_ok [OF assms, of 2] le_sdec_enc [of 2 x]
    by (auto simp: readInt16_def retrieveInt16_def)
  show "content b = rev (le_enc 1 x) @ q \<Longrightarrow> - (2 ^ 7) \<le> x \<Longrightarrow> x < 2 ^ 7 \<Longrightarrow> \<exists>b'. readInt8 b = Some (b', x) \<and> buffer_wf b' \<and> content b' = q"
    using peekInt_eq(4) [OF assms] retrieve_ok [OF assms, of 1] le_sdec_enc [of 1 x]
    by (auto simp: readInt8_def retrieveInt8_def)
qed

section \<open>Growing, shrinking and reading from a descriptor\<close>

lemma Buffer_init_ok:
  assumes "kCheapPrepend + n \<le> vector_max"
  shows "\<exists>b. Buffer_init n = Some b \<and> buffer_wf b \<and> content b = [] \<and> prependableBytes b = kCheapPrepend \<and>
    length (buffer b) = kCheapPrepend + n"
proof -
  have s: "sz (int kCheapPrepend + int n) = kCheapPrepend + n"
    using assms by (subst sz_id) (auto simp: vector_max_def nat_add_distrib)
  define b where "b = \<lparr>buffer = replicate (kCheapPrepend + n) (0 :: byte), readerIndex = kCheapPrepend,
    writerIndex = kCheapPrepend\<rparr>"
  have "buffer_wf b" using assms by (simp add: b_def buffer_wf_def)
  moreover have "content b = []" "prependableBytes b = kCheapPrepend" "length (buffer b) = kCheapPrepend + n"
    by (simp_all add: b_def content_def prependableBytes_def)
  ultimately show ?thesis using assms writableBytes_eq [of b] readableBytes_eq [of b]
    by (simp add: Buffer_init_def s b_def [symmetric] Let_def) (simp add: b_def)
qed

lemma i32_id: "0 \<le> v \<Longrightarrow> v < 2 ^ 31 \<Longrightarrow> i32 v = v"
  by (simp add: i32_def)

lemma shrink_ok:
  assumes "buffer_wf b" "length (content b) < 2 ^ 31" "length (content b) + reserve < 2 ^ 62"
  shows "\<exists>b'. shrink b reserve = Some b' \<and> buffer_wf b' \<and> content b' = content b \<and>
    reserve \<le> writableBytes b' \<and>
    length (buffer b') \<le> kCheapPrepend + kInitialSize + 2 * length (content b) + reserve"
proof -
  define n where "n = length (content b)"
  have s: "sz (int n + int reserve) = n + reserve" "sz (int n) = n"
    using assms by (subst sz_id; simp add: n_def nat_add_distrib)+
  obtain b0 where b0: "Buffer_init kInitialSize = Some b0" "buffer_wf b0" "content b0 = []"
    "prependableBytes b0 = kCheapPrepend" "length (buffer b0) = kCheapPrepend + kInitialSize"
    using Buffer_init_ok [of kInitialSize] by (auto simp: kInitialSize_def kCheapPrepend_def vector_max_def)
  obtain b1 where b1: "ensureWritableBytes b0 (n + reserve) = Some b1" "buffer_wf b1" "content b1 = []"
    "n + reserve \<le> length (buffer b1) - writerIndex b1"
    "length (buffer b1) \<le> kCheapPrepend + kInitialSize + n + reserve"
    using ensureWritableBytes_ok [OF b0(2), of "n + reserve"] b0 assms(3)
    by (auto simp: kInitialSize_def kCheapPrepend_def vector_max_def n_def)
  have e: "ensureWritableBytes b1 n = Some b1"
    using b1(2,4) by (simp add: ensureWritableBytes_def writableBytes_eq)
  have "fst (toStringPiece b) = drop (peek b) (buffer b)" "snd (toStringPiece b) = int n"
    using assms(1,2) by (simp_all add: toStringPiece_def readableBytes_eq i32_id n_def)
  moreover have "rd (drop (peek b) (buffer b)) 0 n = Some (content b)"
    using rd_content [OF assms(1), of n] by (auto simp: rd_def n_def split: if_splits)
  ultimately have p: "append_piece b1 (toStringPiece b) = append b1 (content b)"
    by (simp add: append_piece_def s)
  note w = write_ok [OF b1(2) _ refl, of "content b"]
  have le: "length (content b) \<le> length (buffer b1) - writerIndex b1" using b1(4) by (simp add: n_def)
  define b2 where "b2 = b1\<lparr>buffer := take (writerIndex b1) (buffer b1) @ content b @
    drop (writerIndex b1 + length (content b)) (buffer b1), writerIndex := writerIndex b1 + n\<rparr>"
  have b2: "append b1 (content b) = Some b2" "buffer_wf b2" "content b2 = content b" "length (buffer b2) = length (buffer b1)"
    using w [OF le] e writableBytes_eq [OF w(3) [OF le]] b1(3) le
    by (auto simp: append_def beginWrite_def hasWritten_def b2_def n_def)
  have "writerIndex b2 = writerIndex b1 + n" by (simp add: b2_def)
  then have "reserve \<le> writableBytes b2" using b1(4) b2(4) by (simp add: writableBytes_eq [OF b2(2)])
  moreover have "fst (swap b b2) = b2" by (cases b; cases b2) (simp add: swap_def)
  ultimately show ?thesis using b0(1) b1(1,5) b2 p
    by (auto simp: shrink_def readableBytes_eq [OF assms(1)] n_def [symmetric] s)
qed

lemma readFd_ok:
  assumes "buffer_wf b" "length (buffer b) + extrabuf_size \<le> vector_max"
    "vec = (if writableBytes b < extrabuf_size then [writableBytes b, extrabuf_size] else [writableBytes b])"
    "readv vec = Inr data" "length data \<le> sum_list vec"
  shows "\<exists>b'. readFd readv b = Some (b', int (length data), None) \<and> buffer_wf b' \<and> content b' = content b @ data \<and>
    length (buffer b') \<le> length (buffer b) + length data"
proof -
  define n where "n = writableBytes b"
  have n: "n = length (buffer b) - writerIndex b" using writableBytes_eq [OF assms(1)] by (simp add: n_def)
  note w = write_ok [OF assms(1) _ refl, of "take n data"]
  have le: "length (take n data) \<le> length (buffer b) - writerIndex b" by (simp add: n)
  define m where "m = take (writerIndex b) (buffer b) @ take n data @ drop (writerIndex b + length (take n data)) (buffer b)"
  note m = w [OF le, folded m_def]
  have start: "readFd readv b = (if length data \<le> n then Some (b\<lparr>buffer := m, writerIndex := writerIndex b + length data\<rparr>, int (length data), None)
    else do { b \<leftarrow> append (b\<lparr>buffer := m, writerIndex := length m\<rparr>) (drop n data); Some (b, int (length data), None) })"
    using assms(4) [unfolded assms(3)] m(1) [unfolded n_def]
    by (cases "writableBytes b < extrabuf_size") (simp_all add: readFd_def n_def Let_def)
  show ?thesis
  proof (cases "length data \<le> n")
    case True
    then show ?thesis using start m(2,4,5) by simp
  next
    case False
    then have "writerIndex b + length (take n data) = length m" using n m(2) buffer_wfD [OF assms(1)] by simp
    then have b1: "buffer_wf (b\<lparr>buffer := m, writerIndex := length m\<rparr>)"
      "content (b\<lparr>buffer := m, writerIndex := length m\<rparr>) = content b @ take n data"
      using m(4,5) by simp_all
    have "length (drop n data) \<le> extrabuf_size" using assms(3,5) False by (auto simp: n_def split: if_splits)
    then have cap: "length (buffer (b\<lparr>buffer := m, writerIndex := length m\<rparr>)) + length (drop n data) \<le> vector_max"
      using assms(2) m(2) by simp
    obtain b' where "append (b\<lparr>buffer := m, writerIndex := length m\<rparr>) (drop n data) = Some b'" "buffer_wf b'"
      "content b' = (content b @ take n data) @ drop n data" "length (buffer b') \<le> length m + length (drop n data)"
      using append_ok [OF b1(1) cap] unfolding b1(2) by auto
    then show ?thesis using start False m(2) by simp
  qed
qed

section \<open>Properties\<close>

text \<open>
  C10. The buffer is a queue of bytes. A client that starts with a fresh buffer and, in any order, appends,
  prepends within the reserved room, retrieves or unwrites no more than is readable sees exactly a list of
  bytes: no assertion fails, no byte outside the vector is touched, and the data survive every compaction
  and every growth of the vector, as long as the sizes stay below what a vector can hold.
\<close>

theorem buffer_run_refines_queue:
  assumes "kCheapPrepend + initialSize + sum_list (map bq_appended ops) \<le> vector_max"
    "run_steps (bq_spec_step kCheapPrepend) ([], kCheapPrepend) ops = Some ((q, m), replies)"
  shows "\<exists>b b'. Buffer_init initialSize = Some b \<and>
    run_steps (bq_step append prepend retrieve retrieveAsString unwrite) b ops = Some (b', replies) \<and>
    buffer_wf b' \<and> content b' = q \<and> readableBytes b' = length q"
proof -
  obtain b where b: "Buffer_init initialSize = Some b" "buffer_wf b" "content b = []"
    "prependableBytes b = kCheapPrepend" "length (buffer b) = kCheapPrepend + initialSize"
    using Buffer_init_ok [of initialSize] assms(1) by auto
  show ?thesis
    using bq.run_refines [OF b(2), of ops kCheapPrepend q m replies] b assms readableBytes_eq by auto
qed

theorem buffer_run_refines_queue_witness:
  "\<exists>b b'. Buffer_init 4 = Some b \<and>
    run_steps (bq_step append prepend retrieve retrieveAsString unwrite) b
      [QAppend [1, 2, 3], QPrepend [9], QTake 2, QAppend [4, 5, 6, 7], QUnwrite 1, QTake 5] =
      Some (b', [[], [], [9, 1], [], [], [2, 3, 4, 5, 6]]) \<and> content b' = []"
  using buffer_run_refines_queue [of 4 "[QAppend [1, 2, 3], QPrepend [9], QTake 2, QAppend [4, 5, 6, 7], QUnwrite 1, QTake 5]"]
  by (auto simp: kCheapPrepend_def vector_max_def)

text \<open>
  C38. Integers written with \<open>appendInt64\<close>, \<open>appendInt32\<close>, \<open>appendInt16\<close> and \<open>appendInt8\<close> are read back unchanged by the
  corresponding \<open>readInt\<close> calls, in order and with their signs, and an integer pushed in front with
  \<open>prependInt32\<close> is read first.
\<close>

theorem buffer_int_roundtrip:
  assumes "buffer_wf b" "content b = []" "4 \<le> prependableBytes b" "length (buffer b) + 15 \<le> vector_max"
    "int64 x" "- (2 ^ 31) \<le> y" "y < 2 ^ 31" "- (2 ^ 15) \<le> z" "z < 2 ^ 15" "- (2 ^ 7) \<le> w" "w < 2 ^ 7"
    "- (2 ^ 31) \<le> h" "h < 2 ^ 31"
  shows "\<exists>b1 b2. do { b \<leftarrow> appendInt64 b x; b \<leftarrow> appendInt32 b y; b \<leftarrow> appendInt16 b z; b \<leftarrow> appendInt8 b w;
        prependInt32 b h } = Some b1 \<and>
      do { (b, h') \<leftarrow> readInt32 b1; (b, x') \<leftarrow> readInt64 b; (b, y') \<leftarrow> readInt32 b; (b, z') \<leftarrow> readInt16 b;
        (b, w') \<leftarrow> readInt8 b; Some (b, h', x', y', z', w') } = Some (b2, h, x, y, z, w) \<and> content b2 = []"
proof -
  define r where "r = min kCheapPrepend (prependableBytes b)"
  obtain s1 where s1: "appendInt64 b x = Some s1" "buffer_wf s1" "content s1 = rev (le_enc 8 x)"
    "r \<le> prependableBytes s1" "length (buffer s1) \<le> length (buffer b) + 8"
    using append_ok [OF assms(1), of "rev (le_enc 8 x)"] assms(2,4) by (auto simp: appendInt_eq r_def)
  obtain s2 where s2: "appendInt32 s1 y = Some s2" "buffer_wf s2" "content s2 = content s1 @ rev (le_enc 4 y)"
    "r \<le> prependableBytes s2" "length (buffer s2) \<le> length (buffer b) + 12"
    using append_ok [OF s1(2), of "rev (le_enc 4 y)"] s1(4,5) assms(4) by (auto simp: appendInt_eq r_def)
  obtain s3 where s3: "appendInt16 s2 z = Some s3" "buffer_wf s3" "content s3 = content s2 @ rev (le_enc 2 z)"
    "r \<le> prependableBytes s3" "length (buffer s3) \<le> length (buffer b) + 14"
    using append_ok [OF s2(2), of "rev (le_enc 2 z)"] s2(4,5) assms(4) by (auto simp: appendInt_eq r_def)
  obtain s4 where s4: "appendInt8 s3 w = Some s4" "buffer_wf s4" "content s4 = content s3 @ rev (le_enc 1 w)"
    "r \<le> prependableBytes s4"
    using append_ok [OF s3(2), of "rev (le_enc 1 w)"] s3(4,5) assms(4) by (auto simp: appendInt_eq r_def)
  have "4 \<le> prependableBytes s4" using s4(4) assms(3) by (simp add: r_def kCheapPrepend_def)
  then obtain s5 where s5: "prependInt32 s4 h = Some s5" "buffer_wf s5" "content s5 = rev (le_enc 4 h) @ content s4"
    using prepend_ok [OF s4(2), of "rev (le_enc 4 h)"] by (auto simp: prependInt_eq)
  obtain t1 where t1: "readInt32 s5 = Some (t1, h)" "buffer_wf t1" "content t1 = content s4"
    using readInt_ok(2) [OF s5(2), of h "content s4"] s5(3) assms by auto
  obtain t2 where t2: "readInt64 t1 = Some (t2, x)" "buffer_wf t2"
    "content t2 = rev (le_enc 4 y) @ rev (le_enc 2 z) @ rev (le_enc 1 w)"
    using readInt_ok(1) [OF t1(2), of x] t1(3) s4(3) s3(3) s2(3) s1(3) assms by auto
  obtain t3 where t3: "readInt32 t2 = Some (t3, y)" "buffer_wf t3" "content t3 = rev (le_enc 2 z) @ rev (le_enc 1 w)"
    using readInt_ok(2) [OF t2(2,3)] assms by auto
  obtain t4 where t4: "readInt16 t3 = Some (t4, z)" "buffer_wf t4" "content t4 = rev (le_enc 1 w) @ []"
    using readInt_ok(3) [OF t3(2,3)] assms by auto
  obtain t5 where t5: "readInt8 t4 = Some (t5, w)" "content t5 = []"
    using readInt_ok(4) [OF t4(2,3)] assms by auto
  show ?thesis using s1(1) s2(1) s3(1) s4(1) s5(1) t1(1) t2(1) t3(1) t4(1) t5 by simp
qed

theorem buffer_int_roundtrip_witness:
  "\<exists>b b1 b2. Buffer_init 4 = Some b \<and>
    do { b \<leftarrow> appendInt64 b (- 5); b \<leftarrow> appendInt32 b 7; b \<leftarrow> appendInt16 b (- 300); b \<leftarrow> appendInt8 b (- 128);
        prependInt32 b 15 } = Some b1 \<and>
      do { (b, h') \<leftarrow> readInt32 b1; (b, x') \<leftarrow> readInt64 b; (b, y') \<leftarrow> readInt32 b; (b, z') \<leftarrow> readInt16 b;
        (b, w') \<leftarrow> readInt8 b; Some (b, h', x', y', z', w') } = Some (b2, 15, - 5, 7, - 300, - 128) \<and> content b2 = []"
proof -
  obtain b where "Buffer_init 4 = Some b" "buffer_wf b" "content b = []" "prependableBytes b = 8" "length (buffer b) = 12"
    using Buffer_init_ok [of 4] by (auto simp: kCheapPrepend_def vector_max_def)
  then show ?thesis using buffer_int_roundtrip [of b "- 5" 7 "- 300" "- 128" 15]
    by (auto simp: int64_def vector_max_def)
qed



end
