(* ===== verification/Codec.thy ===== *)
theory Codec
  imports Buffer
begin

text \<open>
  The length-prefixed message protocol of \<^verbatim>\<open>muduo/examples/asio/chat/codec.h\<close> over the network buffer. The
  callback is represented by the list of messages it is called with, \<open>conn->shutdown()\<close> by a flag. The
  results connect the sender with the receiver for every way a stream can be cut into reads.
\<close>

section \<open>Model\<close>

definition kHeaderLen :: nat where "kHeaderLen = 4"

lemma retrieve_readableBytes: "retrieve b n = Some b' \<Longrightarrow> readableBytes b' \<le> readableBytes b - n"
proof -
  assume r: "retrieve b n = Some b'"
  then have n: "n \<le> readableBytes b" by (auto simp: retrieve_def split: if_splits)
  show ?thesis
  proof (cases "n < readableBytes b")
    case True
    then have b': "b' = b\<lparr>readerIndex := readerIndex b + n\<rparr>" using r by (auto simp: retrieve_def)
    define x where "x = int (writerIndex b) - int (readerIndex b)"
    have "int n \<le> x mod 2 ^ 64" using n by (simp add: readableBytes_def sz_def x_def)
    moreover have "x mod 2 ^ 64 < 2 ^ 64" by simp
    moreover have "(x - int n) mod 2 ^ 64 = (x mod 2 ^ 64 - int n) mod 2 ^ 64" by (simp add: mod_diff_left_eq)
    ultimately have "(x - int n) mod 2 ^ 64 = x mod 2 ^ 64 - int n" by (simp only: mod_pos_pos_trivial)
    moreover have "int (writerIndex b') - int (readerIndex b') = x - int n" by (simp add: b' x_def)
    ultimately show ?thesis by (simp add: readableBytes_def sz_def x_def [symmetric] nat_diff_distrib')
  next
    case False
    then have "b' = retrieveAll b" using r by (auto simp: retrieve_def split: if_splits)
    then show ?thesis by (simp add: retrieveAll_def readableBytes_def sz_def)
  qed
qed

function onMessage :: "Buffer \<Rightarrow> (Buffer \<times> byte list list \<times> bool) option" where
  "onMessage buf =
     (if readableBytes buf \<ge> kHeaderLen then do {
        be32 \<leftarrow> rd (buffer buf) (peek buf) 4;
        let len = le_sdec (le_enc 4 (networkToHost32 (le_dec be32)));
        if len > 65536 \<or> len < 0 then Some (buf, [], True)
        else if readableBytes buf \<ge> nat len + kHeaderLen then do {
          buf1 \<leftarrow> retrieve buf kHeaderLen;
          message \<leftarrow> rd (buffer buf1) (peek buf1) (nat len);
          buf2 \<leftarrow> retrieve buf1 (nat len);
          (buf3, messages, closed) \<leftarrow> onMessage buf2;
          Some (buf3, message # messages, closed)
        } else Some (buf, [], False)
      } else Some (buf, [], False))"
  by pat_completeness auto
termination
proof (relation "measure readableBytes")
  fix buf buf1 buf2 :: Buffer and len :: int
  assume "kHeaderLen \<le> readableBytes buf" "retrieve buf kHeaderLen = Some buf1" "retrieve buf1 (nat len) = Some buf2"
  then show "(buf2, buf) \<in> measure readableBytes"
    using retrieve_readableBytes [of buf kHeaderLen buf1] retrieve_readableBytes [of buf1 "nat len" buf2]
    by (simp add: kHeaderLen_def)
qed simp

declare onMessage.simps [simp del]

definition send :: "byte list \<Rightarrow> byte list option" where
  "send message = do {
     buf \<leftarrow> Buffer_init kInitialSize;
     buf \<leftarrow> append buf message;
     let len = i32 (int (length message));
     let be32 = hostToNetwork32 len;
     buf \<leftarrow> prepend buf (le_enc 4 be32);
     (_, bytes) \<leftarrow> retrieveAllAsString buf;
     Some bytes
   }"

text \<open>A connection that reads the given pieces from its descriptor, calling \<open>onMessage\<close> after each.\<close>

fun receive :: "Buffer \<Rightarrow> byte list list \<Rightarrow> (Buffer \<times> byte list list \<times> bool) option" where
  "receive buf [] = Some (buf, [], False)"
| "receive buf (c # cs) = do {
     (buf, _, _) \<leftarrow> readFd (\<lambda>_. Inr c) buf;
     (buf, messages, closed) \<leftarrow> onMessage buf;
     (buf, messages', closed') \<leftarrow> receive buf cs;
     Some (buf, messages @ messages', closed \<or> closed')
   }"

section \<open>The protocol on lists of bytes\<close>

definition frame :: "byte list \<Rightarrow> byte list" where
  "frame m = rev (le_enc 4 (int (length m))) @ m"

definition header_len :: "byte list \<Rightarrow> int" where
  "header_len q = le_sdec (rev (take 4 q))"

text \<open>The messages at the front of a stream, the bytes that remain and whether the next header is invalid.\<close>

function parse :: "byte list \<Rightarrow> byte list list \<times> byte list \<times> bool" where
  "parse q =
     (if length q < 4 then ([], q, False)
      else if header_len q > 65536 \<or> header_len q < 0 then ([], q, True)
      else if length q < nat (header_len q) + 4 then ([], q, False)
      else let r = parse (drop (nat (header_len q)) (drop 4 q)) in
        (take (nat (header_len q)) (drop 4 q) # fst r, snd r))"
  by pat_completeness auto
termination by (relation "measure length") auto

declare parse.simps [simp del]

lemma onMessage_parse:
  "buffer_wf buf \<Longrightarrow> \<exists>buf'. onMessage buf = Some (buf', fst (parse (content buf)), snd (snd (parse (content buf)))) \<and>
     buffer_wf buf' \<and> content buf' = fst (snd (parse (content buf))) \<and> length (buffer buf') = length (buffer buf)"
proof (induction "content buf" arbitrary: buf rule: parse.induct)
  case 1
  define q where "q = content buf"
  note wf = \<open>buffer_wf buf\<close>
  note rb = readableBytes_eq [OF wf]
  consider "length q < 4" | "\<not> length q < 4" "header_len q > 65536 \<or> header_len q < 0"
    | "\<not> length q < 4" "\<not> (header_len q > 65536 \<or> header_len q < 0)" "length q < nat (header_len q) + 4"
    | "\<not> length q < 4" "\<not> (header_len q > 65536 \<or> header_len q < 0)" "\<not> length q < nat (header_len q) + 4"
    by blast
  then show ?case
  proof cases
    case 1
    then show ?thesis using wf
      by (subst onMessage.simps) (simp add: rb kHeaderLen_def parse.simps q_def)
  next
    case 2
    then show ?thesis using wf rd_content [OF wf, of 4] swap_back [of "take 4 q" 4]
      by (subst onMessage.simps)
        (simp add: rb kHeaderLen_def parse.simps [of "content buf"] q_def header_len_def networkToHost32_def)
  next
    case 3
    then show ?thesis using wf rd_content [OF wf, of 4] swap_back [of "take 4 q" 4]
      by (subst onMessage.simps)
        (simp add: rb kHeaderLen_def parse.simps [of "content buf"] q_def header_len_def networkToHost32_def)
  next
    case 4
    define n where "n = nat (header_len q)"
    obtain b1 where b1: "retrieve buf kHeaderLen = Some b1" "buffer_wf b1" "content b1 = drop 4 q"
      "length (buffer b1) = length (buffer buf)"
      using retrieve_ok [OF wf, of kHeaderLen] 4 by (auto simp: q_def kHeaderLen_def)
    have n1: "n \<le> length (content b1)" using 4 b1(3) by (simp add: n_def)
    obtain b2 where b2: "retrieve b1 n = Some b2" "buffer_wf b2" "content b2 = drop n (drop 4 q)"
      "length (buffer b2) = length (buffer buf)"
      using retrieve_ok [OF b1(2) n1] b1(3,4) by auto
    have rd1: "rd (buffer b1) (peek b1) n = Some (take n (drop 4 q))" using rd_content [OF b1(2) n1] b1(3) by simp
    have "drop (nat (header_len (content buf))) (drop 4 (content buf)) = content b2" by (simp add: b2(3) n_def q_def)
    then obtain b3 where b3: "onMessage b2 = Some (b3, fst (parse (content b2)), snd (snd (parse (content b2))))"
      "buffer_wf b3" "content b3 = fst (snd (parse (content b2)))" "length (buffer b3) = length (buffer buf)"
      using 1(1) [of b2] b2(2,4) 4 by (auto simp: q_def)
    have "parse q = (take n (drop 4 q) # fst (parse (content b2)), snd (parse (content b2)))"
      using 4 by (subst parse.simps) (simp add: b2(3) n_def Let_def)
    moreover have "onMessage buf = Some (b3, take n (drop 4 q) # fst (parse (content b2)), snd (snd (parse (content b2))))"
      using 4 wf rd_content [OF wf, of 4] swap_back [of "take 4 q" 4] b1(1) b2(1) rd1 b3(1)
      by (subst onMessage.simps)
        (simp add: rb kHeaderLen_def q_def header_len_def networkToHost32_def n_def)
    ultimately show ?thesis using b3 by (simp add: q_def)
  qed
qed

lemma header_len_frame: "length m < 2 ^ 31 \<Longrightarrow> header_len (frame m @ q) = int (length m)"
  using le_sdec_enc [of 4 "int (length m)"] by (simp add: header_len_def frame_def)

lemma length_frame [simp]: "length (frame m) = length m + 4"
  by (simp add: frame_def)

lemma drop_frame: "drop 4 (frame m) = m" "drop 4 (frame m @ q) = m @ q"
  by (simp_all add: frame_def)

lemma le_enc_numeral: "le_enc (numeral k) v = word_of_int v # le_enc (pred_numeral k) (v div 256)"
  by (simp add: numeral_eq_Suc)

lemma parse_frame: "length m \<le> 65536 \<Longrightarrow> parse (frame m @ q) = (m # fst (parse q), snd (parse q))"
  by (subst parse.simps) (simp add: header_len_frame drop_frame Let_def)

lemma parse_frames: "\<forall>m \<in> set ms. length m \<le> 65536 \<Longrightarrow>
  parse (concat (map frame ms) @ q) = (ms @ fst (parse q), snd (parse q))"
  by (induction ms) (simp_all add: parse_frame)

lemma header_len_append: "4 \<le> length a \<Longrightarrow> header_len (a @ b) = header_len a"
  by (simp add: header_len_def)

lemma parse_append:
  "snd (parse (a @ b)) = (if snd (snd (parse a)) then (fst (snd (parse a)) @ b, True) else snd (parse (fst (snd (parse a)) @ b))) \<and>
   fst (parse (a @ b)) = fst (parse a) @ (if snd (snd (parse a)) then [] else fst (parse (fst (snd (parse a)) @ b)))"
proof (induction a rule: parse.induct)
  case (1 a)
  consider "length a < 4" | "\<not> length a < 4" "header_len a > 65536 \<or> header_len a < 0"
    | "\<not> length a < 4" "\<not> (header_len a > 65536 \<or> header_len a < 0)" "length a < nat (header_len a) + 4"
    | "\<not> length a < 4" "\<not> (header_len a > 65536 \<or> header_len a < 0)" "\<not> length a < nat (header_len a) + 4"
    by blast
  then show ?case
  proof cases
    case 1
    then show ?thesis by (simp add: parse.simps [of a])
  next
    case 2
    then show ?thesis by (simp add: parse.simps [of a] parse.simps [of "a @ b"] header_len_append)
  next
    case 3
    then show ?thesis by (simp add: parse.simps [of a])
  next
    case 4
    define n where "n = nat (header_len a)"
    define a' where "a' = drop n (drop 4 a)"
    have p: "parse a = (take n (drop 4 a) # fst (parse a'), snd (parse a'))"
      using 4 by (subst parse.simps) (simp add: n_def a'_def Let_def)
    have "drop n (drop 4 (a @ b)) = a' @ b" "take n (drop 4 (a @ b)) = take n (drop 4 a)"
      using 4 by (simp_all add: n_def a'_def)
    then have "parse (a @ b) = (take n (drop 4 a) # fst (parse (a' @ b)), snd (parse (a' @ b)))"
      using 4 by (subst parse.simps) (simp add: header_len_append n_def [symmetric] Let_def del: drop_append take_append drop_drop)
    moreover have "snd (parse (a' @ b)) = (if snd (snd (parse a')) then (fst (snd (parse a')) @ b, True)
        else snd (parse (fst (snd (parse a')) @ b))) \<and>
      fst (parse (a' @ b)) = fst (parse a') @ (if snd (snd (parse a')) then [] else fst (parse (fst (snd (parse a')) @ b)))"
      using "1.IH" 4 by (simp add: a'_def n_def)
    ultimately show ?thesis using p by simp
  qed
qed

lemma parse_rest: "\<not> snd (snd (parse a)) \<Longrightarrow> parse (fst (snd (parse a))) = ([], fst (snd (parse a)), False)"
proof (induction a rule: parse.induct)
  case (1 a)
  consider "length a < 4" | "\<not> length a < 4" "header_len a > 65536 \<or> header_len a < 0"
    | "\<not> length a < 4" "\<not> (header_len a > 65536 \<or> header_len a < 0)" "length a < nat (header_len a) + 4"
    | "\<not> length a < 4" "\<not> (header_len a > 65536 \<or> header_len a < 0)" "\<not> length a < nat (header_len a) + 4"
    by blast
  then show ?case
  proof cases
    case 4
    then have "snd (parse a) = snd (parse (drop (nat (header_len a)) (drop 4 a)))"
      by (subst parse.simps) (simp add: Let_def)
    then show ?thesis using "1.IH" 4 "1.prems" by simp
  qed (use "1.prems" in \<open>simp_all add: parse.simps [of a]\<close>)
qed

lemma send_frame:
  assumes "length m < 2 ^ 31"
  shows "send m = Some (frame m)"
proof -
  obtain b0 where b0: "Buffer_init kInitialSize = Some b0" "buffer_wf b0" "content b0 = []"
    "prependableBytes b0 = kCheapPrepend" "length (buffer b0) = kCheapPrepend + kInitialSize"
    using Buffer_init_ok [of kInitialSize] by (auto simp: kInitialSize_def kCheapPrepend_def vector_max_def)
  obtain b1 where b1: "append b0 m = Some b1" "buffer_wf b1" "content b1 = m" "kCheapPrepend \<le> prependableBytes b1"
    using append_ok [OF b0(2), of m] b0 assms by (auto simp: kInitialSize_def kCheapPrepend_def vector_max_def)
  obtain b2 where b2: "prepend b1 (rev (le_enc 4 (int (length m)))) = Some b2" "buffer_wf b2" "content b2 = frame m"
    using prepend_ok [OF b1(2), of "rev (le_enc 4 (int (length m)))"] b1 by (auto simp: kCheapPrepend_def frame_def)
  then show ?thesis using b0(1) b1(1) retrieveAsString_ok [OF b2(2), of "readableBytes b2"] assms
    by (auto simp: send_def i32_id hostToNetwork32_def le_enc_swapped retrieveAllAsString_def readableBytes_eq)
qed

lemma receive_parse:
  assumes "buffer_wf buf" "\<forall>c \<in> set cs. length c \<le> extrabuf_size"
    "length (buffer buf) + length (concat cs) + extrabuf_size \<le> vector_max"
    "parse (content buf) = ([], content buf, False)" "\<not> snd (snd (parse (content buf @ concat cs)))"
  shows "\<exists>buf'. receive buf cs = Some (buf', fst (parse (content buf @ concat cs)), False) \<and>
    buffer_wf buf' \<and> content buf' = fst (snd (parse (content buf @ concat cs)))"
  using assms
proof (induction cs arbitrary: buf)
  case (Cons c cs)
  define q where "q = content buf @ c"
  define vec where "vec = (if writableBytes buf < extrabuf_size then [writableBytes buf, extrabuf_size] else [writableBytes buf])"
  have "length c \<le> sum_list vec" using Cons.prems(2) by (auto simp: vec_def)
  then obtain b1 n where b1: "readFd (\<lambda>_. Inr c) buf = Some (b1, n, None)" "buffer_wf b1" "content b1 = q"
    "length (buffer b1) \<le> length (buffer buf) + length c"
    using readFd_ok [where b = buf and vec = vec and readv = "\<lambda>_. Inr c" and data = c] Cons.prems(1,3)
    by (auto simp: vec_def q_def)
  obtain b2 where b2: "onMessage b1 = Some (b2, fst (parse q), snd (snd (parse q)))" "buffer_wf b2"
    "content b2 = fst (snd (parse q))" "length (buffer b2) = length (buffer b1)"
    using onMessage_parse [OF b1(2)] b1(3) by auto
  have tot: "content buf @ concat (c # cs) = q @ concat cs" by (simp add: q_def)
  note pa = parse_append [of q "concat cs"]
  have ok: "\<not> snd (snd (parse q))" using Cons.prems(5) pa unfolding tot by (cases "snd (snd (parse q))") auto
  have r: "fst (parse (q @ concat cs)) = fst (parse q) @ fst (parse (content b2 @ concat cs))"
    "snd (parse (q @ concat cs)) = snd (parse (content b2 @ concat cs))" using pa ok b2(3) by auto
  have "parse (content b2) = ([], content b2, False)" using parse_rest [OF ok] b2(3) by simp
  then obtain b3 where "receive b2 cs = Some (b3, fst (parse (content b2 @ concat cs)), False)" "buffer_wf b3"
    "content b3 = fst (snd (parse (content b2 @ concat cs)))"
    using Cons.IH [OF b2(2)] Cons.prems(2,3,5) b1(4) b2(4) r tot by auto
  then show ?case using b1(1) b2(1) ok r unfolding tot by simp
qed simp

section \<open>Properties\<close>



text \<open>
  C32. A header that announces a negative length or more than 65536 bytes is refused: the messages in front of
  it are delivered, the connection is shut down, and the buffer keeps the offending header and everything
  after it unread.
\<close>

theorem codec_rejects_bad_length:
  assumes "buffer_wf buf" "\<forall>m \<in> set ms. length m \<le> 65536"
    "content buf = concat (map frame ms) @ rev (le_enc 4 len) @ q"
    "- (2 ^ 31) \<le> len" "len < 2 ^ 31" "len < 0 \<or> 65536 < len"
  shows "\<exists>buf'. onMessage buf = Some (buf', ms, True) \<and> buffer_wf buf' \<and> content buf' = rev (le_enc 4 len) @ q"
proof -
  have "header_len (rev (le_enc 4 len) @ q) = len" using le_sdec_enc [of 4 len] assms(4,5) by (simp add: header_len_def)
  then have "parse (rev (le_enc 4 len) @ q) = ([], rev (le_enc 4 len) @ q, True)"
    using assms(6) by (subst parse.simps) auto
  then have "parse (content buf) = (ms, rev (le_enc 4 len) @ q, True)"
    using parse_frames [OF assms(2)] assms(3) by simp
  then show ?thesis using onMessage_parse [OF assms(1)] by auto
qed

theorem codec_rejects_bad_length_witness:
  "\<exists>buf buf'. content buf = [0, 0, 0, 1, 65, 255, 255, 255, 255, 7] \<and> onMessage buf = Some (buf', [[65]], True) \<and>
    content buf' = [255, 255, 255, 255, 7]"
proof -
  define buf where "buf = \<lparr>buffer = replicate 8 (0 :: byte) @ [0, 0, 0, 1, 65, 255, 255, 255, 255, 7],
    readerIndex = 8, writerIndex = 18\<rparr>"
  have "buffer_wf buf" "content buf = [0, 0, 0, 1, 65, 255, 255, 255, 255, 7]"
    by (simp_all add: buf_def buffer_wf_def content_def kCheapPrepend_def vector_max_def)
  moreover have "rev (le_enc 4 (- 1)) = [255, 255, 255, 255]" by (simp add: le_enc_numeral)
  moreover have "concat (map frame [[65]]) = [0, 0, 0, 1, 65]" by (simp add: frame_def le_enc_numeral)
  ultimately show ?thesis using codec_rejects_bad_length [of buf "[[65]]" "- 1" "[7]"] by auto
qed

end
