(* ===== verification/Http.thy ===== *)
theory Http
  imports Buffer NumStr
begin

text \<open>
  The HTTP layer of muduo over the network buffer: requests and responses (\<^verbatim>\<open>HttpRequest.h\<close>,
  \<^verbatim>\<open>HttpResponse.h\<close>, \<^verbatim>\<open>HttpResponse.cc\<close>), the resumable request parser (\<^verbatim>\<open>HttpContext.h\<close>, \<^verbatim>\<open>HttpContext.cc\<close>) and
  the message and request handlers of \<^verbatim>\<open>HttpServer.cc\<close>. A \<open>std::map\<close> from strings to strings is its list of
  entries in iteration order. The results show that a request is recognised for every way its bytes are cut
  into reads, that the parser returns, and what it does with malformed input.
\<close>

section \<open>Model\<close>

definition str :: "string \<Rightarrow> byte list" where
  "str s = map of_char s"

fun str_less :: "byte list \<Rightarrow> byte list \<Rightarrow> bool" where
  "str_less xs [] = False"
| "str_less [] (y # ys) = True"
| "str_less (x # xs) (y # ys) = (x < y \<or> x = y \<and> str_less xs ys)"

type_synonym str_map = "(byte list \<times> byte list) list"

text \<open>\<open>headers_[k] = v\<close>\<close>

fun map_set :: "str_map \<Rightarrow> byte list \<Rightarrow> byte list \<Rightarrow> str_map" where
  "map_set [] k v = [(k, v)]"
| "map_set ((k', v') # m) k v =
     (if k = k' then (k, v) # m
      else if str_less k k' then (k, v) # (k', v') # m
      else (k', v') # map_set m k v)"

datatype Method = kInvalid | kGet | kPost | kHead | kPut | kDelete

datatype Version = kUnknown | kHttp10 | kHttp11

record HttpRequest =
  rmethod :: Method
  version :: Version
  path :: "byte list"
  query :: "byte list"
  receiveTime :: int
  headers :: str_map

definition HttpRequest_init :: HttpRequest where
  "HttpRequest_init = \<lparr>rmethod = kInvalid, version = kUnknown, path = [], query = [], receiveTime = 0, headers = []\<rparr>"

definition setVersion :: "HttpRequest \<Rightarrow> Version \<Rightarrow> HttpRequest" where
  "setVersion r v = r\<lparr>version := v\<rparr>"

definition setMethod :: "HttpRequest \<Rightarrow> byte list \<Rightarrow> (HttpRequest \<times> bool) option" where
  "setMethod r m = do {
     check (rmethod r = kInvalid);
     let r = r\<lparr>rmethod :=
       (if m = str ''GET'' then kGet
        else if m = str ''POST'' then kPost
        else if m = str ''HEAD'' then kHead
        else if m = str ''PUT'' then kPut
        else if m = str ''DELETE'' then kDelete
        else kInvalid)\<rparr>;
     Some (r, rmethod r \<noteq> kInvalid)
   }"

fun methodString :: "Method \<Rightarrow> byte list" where
  "methodString kGet = str ''GET''"
| "methodString kPost = str ''POST''"
| "methodString kHead = str ''HEAD''"
| "methodString kPut = str ''PUT''"
| "methodString kDelete = str ''DELETE''"
| "methodString kInvalid = str ''UNKNOWN''"

definition setPath :: "HttpRequest \<Rightarrow> byte list \<Rightarrow> HttpRequest" where
  "setPath r s = r\<lparr>path := s\<rparr>"

definition setQuery :: "HttpRequest \<Rightarrow> byte list \<Rightarrow> HttpRequest" where
  "setQuery r s = r\<lparr>query := s\<rparr>"

definition setReceiveTime :: "HttpRequest \<Rightarrow> int \<Rightarrow> HttpRequest" where
  "setReceiveTime r t = r\<lparr>receiveTime := t\<rparr>"

definition isspace :: "byte \<Rightarrow> bool" where
  "isspace c \<longleftrightarrow> c = 32 \<or> 9 \<le> c \<and> c \<le> 13"

text \<open>The value of a header: the bytes after the colon without blanks on either side.\<close>

definition trim :: "byte list \<Rightarrow> byte list" where
  "trim s = rev (dropWhile isspace (rev (dropWhile isspace s)))"

text \<open>\<open>line\<close> is the range from \<open>start\<close> to \<open>end\<close> and \<open>colon\<close> the offset of the colon in it.\<close>

definition addHeader :: "HttpRequest \<Rightarrow> byte list \<Rightarrow> nat \<Rightarrow> HttpRequest" where
  "addHeader r line colon =
     (let field = take colon line; value = trim (drop (colon + 1) line) in
      r\<lparr>headers := map_set (headers r) field value\<rparr>)"

definition getHeader :: "HttpRequest \<Rightarrow> byte list \<Rightarrow> byte list" where
  "getHeader r field = (case map_of (headers r) field of None \<Rightarrow> [] | Some v \<Rightarrow> v)"

datatype HttpRequestParseState = kExpectRequestLine | kExpectHeaders | kExpectBody | kGotAll

record HttpContext =
  state :: HttpRequestParseState
  request :: HttpRequest

definition HttpContext_init :: HttpContext where
  "HttpContext_init = \<lparr>state = kExpectRequestLine, request = HttpRequest_init\<rparr>"

definition gotAll :: "HttpContext \<Rightarrow> bool" where
  "gotAll c \<longleftrightarrow> state c = kGotAll"

definition reset :: "HttpContext \<Rightarrow> HttpContext" where
  "reset c = c\<lparr>state := kExpectRequestLine, request := HttpRequest_init\<rparr>"

text \<open>\<open>std::find\<close>, as an offset; the length of the range when the byte does not occur.\<close>

fun std_find :: "byte \<Rightarrow> byte list \<Rightarrow> nat" where
  "std_find c [] = 0"
| "std_find c (x # xs) = (if x = c then 0 else Suc (std_find c xs))"

definition processRequestLine :: "HttpRequest \<Rightarrow> byte list \<Rightarrow> (HttpRequest \<times> bool) option" where
  "processRequestLine r line =
     (let space = std_find 32 line in
      if space = length line then Some (r, False)
      else do {
        (r, known) \<leftarrow> setMethod r (take space line);
        if \<not> known then Some (r, False)
        else
          let rest = drop (space + 1) line; space = std_find 32 rest in
          if space = length rest then Some (r, False)
          else
            let target = take space rest;
                question = std_find 63 target;
                r = (if question \<noteq> length target
                     then setQuery (setPath r (take question target)) (drop question target)
                     else setPath r target);
                proto = drop (space + 1) rest
            in if length proto = 8 \<and> take 7 proto = str ''HTTP/1.'' then
                 if proto ! 7 = 49 then Some (setVersion r kHttp11, True)
                 else if proto ! 7 = 48 then Some (setVersion r kHttp10, True)
                 else Some (r, False)
               else Some (r, False)
      })"

text \<open>
  The loop of \<open>parseRequest\<close>. In the states \<open>kExpectBody\<close> and \<open>kGotAll\<close> no branch of the loop changes anything,
  so it never ends.
\<close>

partial_function (option) parse_loop :: "HttpContext \<Rightarrow> Buffer \<Rightarrow> int \<Rightarrow> (HttpContext \<times> Buffer \<times> bool) option" where
  "parse_loop ctx buf t =
     (if state ctx = kExpectRequestLine then do {
        crlf \<leftarrow> findCRLF buf;
        (if crlf = None then Some (ctx, buf, True)
         else do {
           line \<leftarrow> span buf (peek buf) (the crlf);
           (r, ok) \<leftarrow> processRequestLine (request ctx) line;
           if ok then do {
             let r = setReceiveTime r t;
             buf \<leftarrow> retrieveUntil buf (the crlf + 2);
             parse_loop (ctx\<lparr>request := r, state := kExpectHeaders\<rparr>) buf t
           } else Some (ctx\<lparr>request := r\<rparr>, buf, False)
         })
      } else if state ctx = kExpectHeaders then do {
        crlf \<leftarrow> findCRLF buf;
        (if crlf = None then Some (ctx, buf, True)
         else do {
           line \<leftarrow> span buf (peek buf) (the crlf);
           let colon = std_find 58 line;
           if colon \<noteq> length line then do {
             buf \<leftarrow> retrieveUntil buf (the crlf + 2);
             parse_loop (ctx\<lparr>request := addHeader (request ctx) line colon\<rparr>) buf t
           } else do {
             buf \<leftarrow> retrieveUntil buf (the crlf + 2);
             Some (ctx\<lparr>state := kGotAll\<rparr>, buf, True)
           }
         })
      } else parse_loop ctx buf t)"

definition parseRequest :: "HttpContext \<Rightarrow> Buffer \<Rightarrow> int \<Rightarrow> (HttpContext \<times> Buffer \<times> bool) option" where
  "parseRequest ctx buf t = parse_loop ctx buf t"

datatype HttpStatusCode = kUnknownStatus | k200Ok | k301MovedPermanently | k400BadRequest | k404NotFound

fun status_num :: "HttpStatusCode \<Rightarrow> int" where
  "status_num kUnknownStatus = 0"
| "status_num k200Ok = 200"
| "status_num k301MovedPermanently = 301"
| "status_num k400BadRequest = 400"
| "status_num k404NotFound = 404"

record HttpResponse =
  rheaders :: str_map
  statusCode :: HttpStatusCode
  statusMessage :: "byte list"
  closeConnection :: bool
  body :: "byte list"

definition HttpResponse_init :: "bool \<Rightarrow> HttpResponse" where
  "HttpResponse_init close = \<lparr>rheaders = [], statusCode = kUnknownStatus, statusMessage = [], closeConnection = close, body = []\<rparr>"

definition setStatusCode :: "HttpResponse \<Rightarrow> HttpStatusCode \<Rightarrow> HttpResponse" where
  "setStatusCode r c = r\<lparr>statusCode := c\<rparr>"

definition setStatusMessage :: "HttpResponse \<Rightarrow> byte list \<Rightarrow> HttpResponse" where
  "setStatusMessage r m = r\<lparr>statusMessage := m\<rparr>"

definition setCloseConnection :: "HttpResponse \<Rightarrow> bool \<Rightarrow> HttpResponse" where
  "setCloseConnection r on = r\<lparr>closeConnection := on\<rparr>"

definition addResponseHeader :: "HttpResponse \<Rightarrow> byte list \<Rightarrow> byte list \<Rightarrow> HttpResponse" where
  "addResponseHeader r k v = r\<lparr>rheaders := map_set (rheaders r) k v\<rparr>"

definition setContentType :: "HttpResponse \<Rightarrow> byte list \<Rightarrow> HttpResponse" where
  "setContentType r ct = addResponseHeader r (str ''Content-Type'') ct"

definition setBody :: "HttpResponse \<Rightarrow> byte list \<Rightarrow> HttpResponse" where
  "setBody r b = r\<lparr>body := b\<rparr>"

text \<open>\<open>snprintf\<close> into the 32 bytes of \<open>buf\<close> keeps the first 31 characters.\<close>

definition snprintf32 :: "byte list \<Rightarrow> byte list" where
  "snprintf32 s = take 31 s"

fun append_headers :: "Buffer \<Rightarrow> str_map \<Rightarrow> Buffer option" where
  "append_headers output [] = Some output"
| "append_headers output ((k, v) # m) = do {
     output \<leftarrow> append output k;
     output \<leftarrow> append output (str '': '');
     output \<leftarrow> append output v;
     output \<leftarrow> append output [13, 10];
     append_headers output m
   }"

definition appendToBuffer :: "HttpResponse \<Rightarrow> Buffer \<Rightarrow> Buffer option" where
  "appendToBuffer r output = do {
     let buf = snprintf32 (str ''HTTP/1.1 '' @ sdec (status_num (statusCode r)) @ str '' '');
     output \<leftarrow> append output buf;
     output \<leftarrow> append output (statusMessage r);
     output \<leftarrow> append output [13, 10];
     output \<leftarrow> (if closeConnection r then append output (str ''Connection: close'' @ [13, 10])
       else do {
         let buf = snprintf32 (str ''Content-Length: '' @ udec (length (body r)) @ [13, 10]);
         output \<leftarrow> append output buf;
         append output (str ''Connection: Keep-Alive'' @ [13, 10])
       });
     output \<leftarrow> append_headers output (rheaders r);
     output \<leftarrow> append output [13, 10];
     append output (body r)
   }"

text \<open>What a handler does to its connection.\<close>

datatype conn_action = Send "byte list" | Shutdown

definition onRequest :: "(HttpRequest \<Rightarrow> HttpResponse \<Rightarrow> HttpResponse) \<Rightarrow> HttpRequest \<Rightarrow> conn_action list option" where
  "onRequest httpCallback req = do {
     let connection = getHeader req (str ''Connection'');
     let close = (connection = str ''close'' \<or> version req = kHttp10 \<and> connection \<noteq> str ''Keep-Alive'');
     let response = httpCallback req (HttpResponse_init close);
     buf \<leftarrow> Buffer_init kInitialSize;
     buf \<leftarrow> appendToBuffer response buf;
     (_, bytes) \<leftarrow> retrieveAllAsString buf;
     Some (Send bytes # (if closeConnection response then [Shutdown] else []))
   }"

definition http_onMessage :: "(HttpRequest \<Rightarrow> HttpResponse \<Rightarrow> HttpResponse) \<Rightarrow> HttpContext \<Rightarrow> Buffer \<Rightarrow> int \<Rightarrow>
    (HttpContext \<times> Buffer \<times> HttpRequest list \<times> conn_action list) option" where
  "http_onMessage httpCallback context buf t = do {
     (context, buf, ok) \<leftarrow> parseRequest context buf t;
     let bad = (if ok then [] else [Send (str ''HTTP/1.1 400 Bad Request'' @ [13, 10, 13, 10]), Shutdown]);
     if gotAll context then do {
       acts \<leftarrow> onRequest httpCallback (request context);
       Some (reset context, buf, [request context], bad @ acts)
     } else Some (context, buf, [], bad)
   }"

section \<open>Scanning\<close>

lemma std_find_le: "std_find c xs \<le> length xs"
  by (induction xs) auto

lemma std_find_append [simp]: "c \<notin> set xs \<Longrightarrow> std_find c (xs @ ys) = length xs + std_find c ys"
  by (induction xs) auto

lemma std_find_none [simp]: "c \<notin> set xs \<Longrightarrow> std_find c xs = length xs"
  by (induction xs) auto

lemma std_find_eq_length: "std_find c xs = length xs \<longleftrightarrow> c \<notin> set xs"
  by (induction xs) auto

lemma std_search_le: "std_search xs pat \<le> length xs"
  by (induction xs pat rule: std_search.induct) auto

lemma std_search_line: "13 \<notin> set l \<Longrightarrow> std_search (l @ 13 # 10 # q) kCRLF = length l"
  by (induction l) (auto simp: kCRLF_def)

lemma std_search_partial:
  "13 \<notin> set l \<Longrightarrow> std_search l kCRLF = length l" "13 \<notin> set l \<Longrightarrow> std_search (l @ [13]) kCRLF = length l + 1"
  by (induction l) (auto simp: kCRLF_def)

lemma std_search_hit:
  "std_search xs kCRLF < length xs \<Longrightarrow> std_search xs kCRLF + 2 \<le> length xs"
proof (induction xs)
  case (Cons x xs)
  then show ?case by (cases xs) (auto simp: kCRLF_def split: if_splits)
qed simp

lemma findCRLF_eq:
  assumes "buffer_wf b"
  shows "findCRLF b = Some (if std_search (content b) kCRLF = length (content b) then None
    else Some (readerIndex b + std_search (content b) kCRLF))"
proof -
  have "readerIndex b + length (content b) = writerIndex b" using assms by (simp add: length_content buffer_wf_def)
  then show ?thesis using span_content [OF assms]
    by (simp add: findCRLF_def peek_def beginWrite_def Let_def)
qed

lemma span_line: "buffer_wf b \<Longrightarrow> n \<le> length (content b) \<Longrightarrow> span b (peek b) (readerIndex b + n) = Some (take n (content b))"
  using rd_content [of b n] by (simp add: span_def peek_def)

lemma retrieveUntil_ok:
  assumes "buffer_wf b" "n \<le> length (content b)"
  shows "\<exists>b'. retrieveUntil b (readerIndex b + n) = Some b' \<and> buffer_wf b' \<and> content b' = drop n (content b)"
proof -
  have "readerIndex b + n \<le> writerIndex b"
    using assms(2) length_content [OF assms(1)] buffer_wfD(1) [OF assms(1)] by linarith
  then show ?thesis using retrieve_ok [OF assms] by (auto simp: retrieveUntil_def peek_def beginWrite_def)
qed

section \<open>The parser, line by line\<close>

lemma parse_wait:
  assumes "buffer_wf buf" "state ctx = kExpectRequestLine \<or> state ctx = kExpectHeaders"
    "std_search (content buf) kCRLF = length (content buf)"
  shows "parse_loop ctx buf t = Some (ctx, buf, True)"
  using assms by (subst parse_loop.simps) (auto simp: findCRLF_eq)

lemma parse_request_line:
  assumes "buffer_wf buf" "state ctx = kExpectRequestLine" "std_search (content buf) kCRLF = n" "n < length (content buf)"
  shows "\<exists>buf'. buffer_wf buf' \<and> content buf' = drop (n + 2) (content buf) \<and>
    parse_loop ctx buf t = do {
      (r, ok) \<leftarrow> processRequestLine (request ctx) (take n (content buf));
      if ok then parse_loop (ctx\<lparr>request := setReceiveTime r t, state := kExpectHeaders\<rparr>) buf' t
      else Some (ctx\<lparr>request := r\<rparr>, buf, False) }"
proof -
  have n2: "n + 2 \<le> length (content buf)" using std_search_hit assms(3,4) by blast
  obtain buf' where b: "retrieveUntil buf (readerIndex buf + (n + 2)) = Some buf'" "buffer_wf buf'"
    "content buf' = drop (n + 2) (content buf)"
    using retrieveUntil_ok [OF assms(1) n2] by blast
  have s: "span buf (peek buf) (readerIndex buf + n) = Some (take n (content buf))"
    using span_line [OF assms(1)] assms(4) by simp
  show ?thesis
    using b assms s
    by (intro exI [of _ buf'], subst parse_loop.simps, cases "processRequestLine (request ctx) (take n (content buf))")
      (auto simp: findCRLF_eq Let_def)
qed

lemma parse_header_line:
  assumes "buffer_wf buf" "state ctx = kExpectHeaders" "std_search (content buf) kCRLF = n" "n < length (content buf)"
  shows "\<exists>buf'. buffer_wf buf' \<and> content buf' = drop (n + 2) (content buf) \<and>
    parse_loop ctx buf t =
      (let line = take n (content buf) in
       if 58 \<in> set line then parse_loop (ctx\<lparr>request := addHeader (request ctx) line (std_find 58 line)\<rparr>) buf' t
       else Some (ctx\<lparr>state := kGotAll\<rparr>, buf', True))"
proof -
  have n2: "n + 2 \<le> length (content buf)" using std_search_hit assms(3,4) by blast
  obtain buf' where b: "retrieveUntil buf (readerIndex buf + (n + 2)) = Some buf'" "buffer_wf buf'"
    "content buf' = drop (n + 2) (content buf)"
    using retrieveUntil_ok [OF assms(1) n2] by blast
  have s: "span buf (peek buf) (readerIndex buf + n) = Some (take n (content buf))"
    using span_line [OF assms(1)] assms(4) by simp
  show ?thesis
    using b assms s std_find_eq_length [of 58 "take n (content buf)"]
    by (intro exI [of _ buf'], subst parse_loop.simps, cases "58 \<in> set (take n (content buf))")
      (simp_all add: findCRLF_eq Let_def)
qed

lemma processRequestLine_total:
  assumes "rmethod r = kInvalid"
  shows "\<exists>r' ok. processRequestLine r line = Some (r', ok)"
proof -
  obtain r1 known where "setMethod r (take (std_find 32 line) line) = Some (r1, known)"
    using assms by (simp add: setMethod_def Let_def)
  then have "processRequestLine r line \<noteq> None" by (simp add: processRequestLine_def Let_def del: not_None_eq)
  then show ?thesis by auto
qed

lemma parse_loop_total:
  assumes "buffer_wf buf"
    "state ctx = kExpectRequestLine \<and> rmethod (request ctx) = kInvalid \<or> state ctx = kExpectHeaders"
  shows "\<exists>ctx' buf' ok. parse_loop ctx buf t = Some (ctx', buf', ok) \<and> buffer_wf buf' \<and>
    length (content buf') \<le> length (content buf)"
  using assms
proof (induction "length (content buf)" arbitrary: buf ctx rule: less_induct)
  case less
  define n where "n = std_search (content buf) kCRLF"
  show ?case
  proof (cases "n < length (content buf)")
    case False
    then have "n = length (content buf)" using std_search_le [of "content buf" kCRLF] by (simp add: n_def)
    then show ?thesis using parse_wait [OF less.prems(1)] less.prems by (auto simp: n_def)
  next
    case True
    show ?thesis
    proof (cases "state ctx = kExpectRequestLine")
      case rl: True
      obtain buf' where b: "buffer_wf buf'" "content buf' = drop (n + 2) (content buf)"
        "parse_loop ctx buf t = do {
          (r, ok) \<leftarrow> processRequestLine (request ctx) (take n (content buf));
          if ok then parse_loop (ctx\<lparr>request := setReceiveTime r t, state := kExpectHeaders\<rparr>) buf' t
          else Some (ctx\<lparr>request := r\<rparr>, buf, False) }"
        using parse_request_line [OF less.prems(1) rl n_def [symmetric] True] by blast
      obtain r ok where r: "processRequestLine (request ctx) (take n (content buf)) = Some (r, ok)"
        using processRequestLine_total less.prems rl by fastforce
      have short: "length (content buf') < length (content buf)" using b(2) True by auto
      then obtain ctx' buf2 ok' where "parse_loop (ctx\<lparr>request := setReceiveTime r t, state := kExpectHeaders\<rparr>) buf' t
          = Some (ctx', buf2, ok')" "buffer_wf buf2" "length (content buf2) \<le> length (content buf')"
        using less.hyps [OF short b(1), of "ctx\<lparr>request := setReceiveTime r t, state := kExpectHeaders\<rparr>"] by auto
      then show ?thesis using b(3) r short less.prems(1) by (cases ok) auto
    next
      case F: False
      then have st: "state ctx = kExpectHeaders" using less.prems by auto
      define line where "line = take n (content buf)"
      obtain buf' where b: "buffer_wf buf'" "content buf' = drop (n + 2) (content buf)"
        "parse_loop ctx buf t = (if 58 \<in> set line
          then parse_loop (ctx\<lparr>request := addHeader (request ctx) line (std_find 58 line)\<rparr>) buf' t
          else Some (ctx\<lparr>state := kGotAll\<rparr>, buf', True))"
        using parse_header_line [OF less.prems(1) st n_def [symmetric] True, of t] by (auto simp: line_def Let_def)
      have short: "length (content buf') < length (content buf)" using b(2) True by auto
      obtain ctx' buf2 ok' where "parse_loop (ctx\<lparr>request := addHeader (request ctx) line (std_find 58 line)\<rparr>) buf' t
          = Some (ctx', buf2, ok')" "buffer_wf buf2" "length (content buf2) \<le> length (content buf')"
        using less.hyps [OF short b(1), of "ctx\<lparr>request := addHeader (request ctx) line (std_find 58 line)\<rparr>"] st by auto
      then show ?thesis using b short by auto
    qed
  qed
qed

lemma parse_loop_stuck:
  assumes "state ctx = kExpectBody \<or> state ctx = kGotAll"
  shows "parse_loop ctx buf t = None"
proof (rule ccontr)
  assume "parse_loop ctx buf t \<noteq> None"
  then obtain r where r: "parse_loop ctx buf t = Some r" by auto
  have "state ctx \<noteq> kExpectBody \<and> state ctx \<noteq> kGotAll"
  proof (rule parse_loop.raw_induct [where P = "\<lambda>ctx buf t r. state ctx \<noteq> kExpectBody \<and> state ctx \<noteq> kGotAll", OF _ r], goal_cases)
    case (1 f ctx buf t r)
    then show ?case using 1(1) [of ctx buf t r] by (cases "state ctx") simp_all
  qed
  then show False using assms by auto
qed

section \<open>Well-formed requests\<close>

text \<open>The text of a request and the request it stands for.\<close>

fun version_string :: "Version \<Rightarrow> byte list" where
  "version_string kHttp10 = str ''HTTP/1.0''"
| "version_string kHttp11 = str ''HTTP/1.1''"
| "version_string kUnknown = []"

definition query_string :: "byte list option \<Rightarrow> byte list" where
  "query_string q = (case q of None \<Rightarrow> [] | Some s \<Rightarrow> 63 # s)"

definition request_line :: "Method \<Rightarrow> byte list \<Rightarrow> byte list option \<Rightarrow> Version \<Rightarrow> byte list" where
  "request_line m p q v = methodString m @ 32 # p @ query_string q @ 32 # version_string v"

definition header_line :: "byte list \<times> byte list \<Rightarrow> byte list" where
  "header_line h = fst h @ 58 # snd h"

definition header_block :: "(byte list \<times> byte list) list \<Rightarrow> byte list" where
  "header_block hs = concat (map (\<lambda>h. header_line h @ [13, 10]) hs) @ [13, 10]"

definition request_text :: "Method \<Rightarrow> byte list \<Rightarrow> byte list option \<Rightarrow> Version \<Rightarrow> (byte list \<times> byte list) list \<Rightarrow> byte list" where
  "request_text m p q v hs = request_line m p q v @ [13, 10] @ header_block hs"

definition request_ok :: "Method \<Rightarrow> byte list \<Rightarrow> byte list option \<Rightarrow> Version \<Rightarrow> (byte list \<times> byte list) list \<Rightarrow> bool" where
  "request_ok m p q v hs \<longleftrightarrow> m \<noteq> kInvalid \<and> v \<noteq> kUnknown \<and> 32 \<notin> set p \<and> 63 \<notin> set p \<and> 13 \<notin> set p \<and>
     32 \<notin> set (query_string q) \<and> 13 \<notin> set (query_string q) \<and>
     (\<forall>h \<in> set hs. 58 \<notin> set (fst h) \<and> 13 \<notin> set (fst h) \<and> 13 \<notin> set (snd h))"

definition add_headers :: "HttpRequest \<Rightarrow> (byte list \<times> byte list) list \<Rightarrow> HttpRequest" where
  "add_headers r hs = foldl (\<lambda>r h. addHeader r (header_line h) (length (fst h))) r hs"

lemma map_of_map_set: "map_of (map_set m k v) = (map_of m)(k \<mapsto> v)"
  by (induction m k v rule: map_set.induct) (auto simp: fun_eq_iff)

lemma add_headers_fields [simp]:
  "add_headers r [] = r" "add_headers r (h # hs) = add_headers (addHeader r (header_line h) (length (fst h))) hs"
  "rmethod (add_headers r hs) = rmethod r" "version (add_headers r hs) = version r" "path (add_headers r hs) = path r"
  "query (add_headers r hs) = query r"
proof -
  show "add_headers r [] = r" "add_headers r (h # hs) = add_headers (addHeader r (header_line h) (length (fst h))) hs"
    by (simp_all add: add_headers_def)
  show "rmethod (add_headers r hs) = rmethod r" "version (add_headers r hs) = version r" "path (add_headers r hs) = path r"
    "query (add_headers r hs) = query r"
    by (induction hs arbitrary: r) (simp_all add: add_headers_def addHeader_def Let_def)
qed

lemma map_of_add_headers:
  "map_of (headers (add_headers r hs)) = map_of (headers r) ++ map_of (rev (map (\<lambda>h. (fst h, trim (snd h))) hs))"
proof (induction hs arbitrary: r)
  case (Cons h hs)
  then show ?case
    by (simp add: addHeader_def header_line_def map_of_map_set Let_def map_add_upd [symmetric] del: map_add_upd)
      (simp add: map_add_def fun_eq_iff split: option.splits)
qed simp

lemma processRequestLine_parts:
  assumes "std_find 32 line = n" "n \<noteq> length line" "setMethod r (take n line) = Some (r1, True)" "drop (n + 1) line = rest"
    "std_find 32 rest = k" "k \<noteq> length rest" "take k rest = target" "std_find 63 target = j" "drop (k + 1) rest = proto"
    "length proto = 8" "take 7 proto = str ''HTTP/1.''" "proto ! 7 = (if v = kHttp11 then 49 else 48)" "v \<noteq> kUnknown"
  shows "processRequestLine r line = Some (setVersion (if j \<noteq> length target
    then setQuery (setPath r1 (take j target)) (drop j target) else setPath r1 target) v, True)"
  unfolding processRequestLine_def assms(1) Let_def if_not_P [OF assms(2)] assms(3) bind.simps(2) prod.case
    assms(4,5) if_not_P [OF assms(6)] assms(7-12)
  using assms(13) by (cases v) simp_all

lemma processRequestLine_ok:
  assumes "request_ok m p q v hs" "rmethod r = kInvalid" "query r = []"
  shows "processRequestLine r (request_line m p q v) =
    Some (r\<lparr>rmethod := m, path := p, query := query_string q, version := v\<rparr>, True)"
proof -
  define T where "T = p @ query_string q"
  define rest where "rest = T @ 32 # version_string v"
  have m: "32 \<notin> set (methodString m)" by (cases m) (simp_all add: str_def)
  have T: "32 \<notin> set T" using assms(1) by (simp add: T_def request_ok_def)
  have line: "request_line m p q v = methodString m @ 32 # rest" by (simp add: request_line_def rest_def T_def)
  have sm: "setMethod r (methodString m) = Some (r\<lparr>rmethod := m\<rparr>, True)"
    using assms(1,2) by (cases m) (simp_all add: setMethod_def str_def request_ok_def)
  have v: "length (version_string v) = 8" "take 7 (version_string v) = str ''HTTP/1.''"
    "version_string v ! 7 = (if v = kHttp11 then 49 else 48)" "v \<noteq> kUnknown"
    using assms(1) by (cases v; simp add: str_def request_ok_def)+
  have t: "std_find 63 T = length p"
    using assms(1) by (cases q) (simp_all add: request_ok_def query_string_def T_def)
  have "processRequestLine r (request_line m p q v) = Some (setVersion (if length p \<noteq> length T
    then setQuery (setPath (r\<lparr>rmethod := m\<rparr>) (take (length p) T)) (drop (length p) T) else setPath (r\<lparr>rmethod := m\<rparr>) T) v, True)"
    using m T sm t v unfolding line
    by (intro processRequestLine_parts [where n = "length (methodString m)" and rest = rest and k = "length T" and
      proto = "version_string v"]) (simp_all add: rest_def)
  then show ?thesis using assms(3)
    by (cases q) (simp_all add: T_def query_string_def setVersion_def setQuery_def setPath_def)
qed

lemma partial_line:
  assumes "c @ d = l @ 13 # 10 # q" "13 \<notin> set l" "length c < length l + 2"
  shows "std_search c kCRLF = length c"
proof (cases "length c \<le> length l")
  case True
  then have "c = take (length c) (l @ 13 # 10 # q)" using assms(1) by (metis append_eq_conv_conj)
  then have "c = take (length c) l" using True by simp
  then have "l = c @ drop (length c) l" by (metis append_take_drop_id)
  then show ?thesis using assms(2) std_search_partial(1) [of c] by (metis Un_iff set_append)
next
  case False
  then have "length c = length l + 1" using assms(3) by simp
  then have "c = take (length l + 1) (c @ d)" by simp
  then have "c = l @ [13]" unfolding assms(1) by simp
  then show ?thesis using std_search_partial(2) [OF assms(2)] by simp
qed

lemma whole_line:
  assumes "c @ d = l @ 13 # 10 # q" "13 \<notin> set l" "\<not> length c < length l + 2"
  shows "std_search c kCRLF = length l" "length l < length c" "take (length l) c = l" "drop (length l + 2) c @ d = q"
proof -
  obtain x where x: "c = l @ 13 # 10 # x"
  proof -
    have "take (length l + 2) c = take (length l + 2) (c @ d)" using assms(3) by simp
    also have "\<dots> = l @ [13, 10]" unfolding assms(1) by simp
    finally have "c = (l @ [13, 10]) @ drop (length l + 2) c" by (metis append_take_drop_id)
    then show ?thesis using that by (metis append.assoc append_Cons append_Nil)
  qed
  show "std_search c kCRLF = length l" using std_search_line [OF assms(2)] x by simp
  show "length l < length c" "take (length l) c = l" using x by simp_all
  show "drop (length l + 2) c @ d = q" using assms(1) x by simp
qed

lemma parse_headers:
  assumes "buffer_wf buf" "state ctx = kExpectHeaders" "content buf @ d = header_block hs"
    "\<forall>h \<in> set hs. 58 \<notin> set (fst h) \<and> 13 \<notin> set (fst h) \<and> 13 \<notin> set (snd h)"
  shows "if d = [] then \<exists>buf'. buffer_wf buf' \<and> content buf' = [] \<and>
      parse_loop ctx buf t = Some (ctx\<lparr>state := kGotAll, request := add_headers (request ctx) hs\<rparr>, buf', True)
    else \<exists>buf' hs1 hs2. buffer_wf buf' \<and> hs = hs1 @ hs2 \<and> content buf' @ d = header_block hs2 \<and>
      parse_loop ctx buf t = Some (ctx\<lparr>request := add_headers (request ctx) hs1\<rparr>, buf', True)"
  using assms
proof (induction hs arbitrary: buf ctx)
  case Nil
  define c where "c = content buf"
  have c: "c @ d = [] @ 13 # 10 # []" using Nil.prems(3) by (simp add: c_def header_block_def)
  show ?case
  proof (cases "length c < length ([] :: byte list) + 2")
    case True
    then have "d \<noteq> []" using c by auto
    moreover have "parse_loop ctx buf t = Some (ctx, buf, True)"
      using partial_line [OF c _ True] parse_wait [OF Nil.prems(1)] Nil.prems(2) by (simp add: c_def)
    ultimately show ?thesis using Nil.prems by auto
  next
    case False
    note w = whole_line [OF c _ False, simplified]
    have "d = []" using w(4) by simp
    moreover have "take 0 c = []" by simp
    ultimately show ?thesis
      using parse_header_line [OF Nil.prems(1,2), of 0 t] w c by (auto simp: c_def Let_def)
  qed
next
  case (Cons h hs)
  define c where "c = content buf"
  define l where "l = header_line h"
  have h: "58 \<notin> set (fst h)" "13 \<notin> set (fst h)" "13 \<notin> set (snd h)" using Cons.prems(4) by auto
  have l: "13 \<notin> set l" "58 \<in> set l" "std_find 58 l = length (fst h)" using h by (auto simp: l_def header_line_def)
  have c: "c @ d = l @ 13 # 10 # header_block hs" using Cons.prems(3) by (simp add: c_def l_def header_block_def)
  show ?case
  proof (cases "length c < length l + 2")
    case True
    then have "d \<noteq> []" using arg_cong [OF c, of length] by auto
    moreover have "parse_loop ctx buf t = Some (ctx, buf, True)"
      using partial_line [OF c l(1) True] parse_wait [OF Cons.prems(1)] Cons.prems(2) by (simp add: c_def)
    moreover have "\<exists>buf' hs1 hs2. buffer_wf buf' \<and> h # hs = hs1 @ hs2 \<and> content buf' @ d = header_block hs2 \<and>
      Some (ctx, buf, True) = Some (ctx\<lparr>request := add_headers (request ctx) hs1\<rparr>, buf', True)"
      using Cons.prems(1,3) by (intro exI [of _ buf] exI [of _ "[]"] exI [of _ "h # hs"]) simp
    ultimately show ?thesis by simp
  next
    case False
    note w = whole_line [OF c l(1) False]
    define ctx1 where "ctx1 = ctx\<lparr>request := addHeader (request ctx) l (length (fst h))\<rparr>"
    obtain b1 where b1: "buffer_wf b1" "content b1 = drop (length l + 2) c" "parse_loop ctx buf t = parse_loop ctx1 b1 t"
      using parse_header_line [OF Cons.prems(1,2) w(1) [unfolded c_def] w(2) [unfolded c_def], of t] w(3) l
      by (auto simp: c_def ctx1_def Let_def)
    have st: "state ctx1 = kExpectHeaders" using Cons.prems(2) by (simp add: ctx1_def)
    have r: "add_headers (request ctx) (h # hs1) = add_headers (request ctx1) hs1" for hs1 by (simp add: ctx1_def l_def)
    have u: "ctx\<lparr>request := x\<rparr> = ctx1\<lparr>request := x\<rparr>" "ctx\<lparr>state := y, request := x\<rparr> = ctx1\<lparr>state := y, request := x\<rparr>" for x y
      by (simp_all add: ctx1_def)
    note ih = Cons.IH [OF b1(1) st, unfolded b1(2), OF w(4)]
    show ?thesis
    proof (cases "d = []")
      case True
      then show ?thesis using ih Cons.prems(4) b1(3) by (simp add: u r del: add_headers_fields(2))
    next
      case F: False
      then obtain b2 hs1 hs2 where "buffer_wf b2" "hs = hs1 @ hs2" "content b2 @ d = header_block hs2"
        "parse_loop ctx1 b1 t = Some (ctx1\<lparr>request := add_headers (request ctx1) hs1\<rparr>, b2, True)"
        using ih Cons.prems(4) by auto
      then have "buffer_wf b2 \<and> h # hs = (h # hs1) @ hs2 \<and> content b2 @ d = header_block hs2 \<and>
        parse_loop ctx buf t = Some (ctx\<lparr>request := add_headers (request ctx) (h # hs1)\<rparr>, b2, True)"
        using b1(3) by (simp add: u r del: add_headers_fields(2))
      then show ?thesis using F by metis
    qed
  qed
qed

lemma parse_request:
  assumes "buffer_wf buf" "state ctx = kExpectRequestLine" "rmethod (request ctx) = kInvalid" "query (request ctx) = []"
    "content buf @ d = request_text m p q v hs" "request_ok m p q v hs"
  shows "(\<exists>buf'. buffer_wf buf' \<and> parse_loop ctx buf t = Some (ctx, buf', True) \<and> d \<noteq> [] \<and>
      content buf' @ d = request_text m p q v hs) \<or>
    (\<exists>buf' ctx'. buffer_wf buf' \<and> content buf' @ d = header_block hs \<and> state ctx' = kExpectHeaders \<and>
      request ctx' = (request ctx)\<lparr>rmethod := m, path := p, query := query_string q, version := v, receiveTime := t\<rparr> \<and>
      parse_loop ctx buf t = parse_loop ctx' buf' t)"
proof -
  define c where "c = content buf"
  define l where "l = request_line m p q v"
  have l: "13 \<notin> set l" using assms(6)
    by (cases m; cases v) (simp_all add: l_def request_line_def request_ok_def str_def)
  have c: "c @ d = l @ 13 # 10 # header_block hs" using assms(5) by (simp add: c_def l_def request_text_def)
  show ?thesis
  proof (cases "length c < length l + 2")
    case True
    then have "d \<noteq> []" using arg_cong [OF c, of length] by auto
    moreover have "parse_loop ctx buf t = Some (ctx, buf, True)"
      using partial_line [OF c l True] parse_wait [OF assms(1)] assms(2) by (simp add: c_def)
    ultimately show ?thesis using assms(1,5) by blast
  next
    case False
    note w = whole_line [OF c l False]
    define ctx' where "ctx' = ctx\<lparr>request := (request ctx)\<lparr>rmethod := m, path := p, query := query_string q,
      version := v, receiveTime := t\<rparr>, state := kExpectHeaders\<rparr>"
    obtain b1 where b1: "buffer_wf b1" "content b1 = drop (length l + 2) c" "parse_loop ctx buf t = parse_loop ctx' b1 t"
      using parse_request_line [OF assms(1,2) w(1) [unfolded c_def] w(2) [unfolded c_def], of t]
        processRequestLine_ok [OF assms(6,3,4)] w(3)
      by (auto simp: c_def l_def ctx'_def setReceiveTime_def)
    moreover have "state ctx' = kExpectHeaders" "request ctx' = (request ctx)\<lparr>rmethod := m, path := p,
      query := query_string q, version := v, receiveTime := t\<rparr>" by (simp_all add: ctx'_def)
    ultimately show ?thesis using w(4) by metis
  qed
qed

section \<open>Responses\<close>

definition response_text :: "HttpResponse \<Rightarrow> byte list" where
  "response_text r =
     str ''HTTP/1.1 '' @ sdec (status_num (statusCode r)) @ str '' '' @ statusMessage r @ [13, 10] @
     (if closeConnection r then str ''Connection: close'' @ [13, 10]
      else str ''Content-Length: '' @ udec (length (body r)) @ [13, 10] @ str ''Connection: Keep-Alive'' @ [13, 10]) @
     concat (map (\<lambda>h. fst h @ str '': '' @ snd h @ [13, 10]) (rheaders r)) @ [13, 10] @ body r"

text \<open>A buffer with the given content and enough capacity for \<open>k\<close> more bytes.\<close>

definition holds :: "Buffer \<Rightarrow> byte list \<Rightarrow> nat \<Rightarrow> bool" where
  "holds b c k \<longleftrightarrow> buffer_wf b \<and> content b = c \<and> length (buffer b) + k \<le> vector_max"

lemma append_holds: "holds b c k \<Longrightarrow> length d + k' \<le> k \<Longrightarrow> \<exists>b'. append b d = Some b' \<and> holds b' (c @ d) k'"
  using append_ok [of b d] by (fastforce simp: holds_def)

definition header_text :: "str_map \<Rightarrow> byte list" where
  "header_text m = concat (map (\<lambda>h. fst h @ str '': '' @ snd h @ [13, 10]) m)"

lemma append_headers_holds:
  "holds b c k \<Longrightarrow> length (header_text m) + k' \<le> k \<Longrightarrow>
   \<exists>b'. append_headers b m = Some b' \<and> holds b' (c @ header_text m) k'"
proof (induction m arbitrary: b c k)
  case (Cons h m)
  obtain f v where h: "h = (f, v)" by (cases h)
  define n where "n = length (header_text m) + k'"
  have le: "length f + (2 + (length v + (2 + n))) \<le> k" using Cons.prems(2) h by (simp add: header_text_def str_def n_def)
  obtain b1 where b1: "append b f = Some b1" "holds b1 (c @ f) (2 + (length v + (2 + n)))"
    using append_holds [OF Cons.prems(1) le] by auto
  obtain b2 where b2: "append b1 (str '': '') = Some b2" "holds b2 (c @ f @ str '': '') (length v + (2 + n))"
    using append_holds [OF b1(2), of "str '': ''" "length v + (2 + n)"] by (auto simp: str_def)
  obtain b3 where b3: "append b2 v = Some b3" "holds b3 (c @ f @ str '': '' @ v) (2 + n)"
    using append_holds [OF b2(2), of v "2 + n"] by auto
  obtain b4 where b4: "append b3 [13, 10] = Some b4" "holds b4 (c @ f @ str '': '' @ v @ [13, 10]) n"
    using append_holds [OF b3(2), of "[13, 10]" n] by auto
  show ?case using Cons.IH [OF b4(2)] b1(1) b2(1) b3(1) b4(1) h by (simp add: header_text_def n_def)
qed (simp add: header_text_def holds_def)

lemma status_sdec: "length (sdec (status_num c)) \<le> 3"
  using length_udec_le [of "nat (status_num c)" 3] by (cases c) (simp_all add: sdec_def)

lemma appendToBuffer_holds:
  assumes "holds b c k" "length (response_text r) + k' \<le> k" "length (body r) < 10 ^ 13"
  shows "\<exists>b'. appendToBuffer r b = Some b' \<and> holds b' (c @ response_text r) k'"
proof -
  define s1 where "s1 = str ''HTTP/1.1 '' @ sdec (status_num (statusCode r)) @ str '' ''"
  define s2 where "s2 = str ''Content-Length: '' @ udec (length (body r)) @ [13, 10]"
  define cl where "cl = (if closeConnection r then str ''Connection: close'' @ [13, 10]
    else s2 @ str ''Connection: Keep-Alive'' @ [13, 10])"
  have sn: "snprintf32 s1 = s1" "snprintf32 s2 = s2"
    using status_sdec [of "statusCode r"] length_udec_le [OF assms(3)]
    by (simp_all add: snprintf32_def s1_def s2_def str_def)
  define n where "n = length (header_text (rheaders r)) + (2 + (length (body r) + k'))"
  have rtext: "response_text r = s1 @ statusMessage r @ [13, 10] @ cl @ header_text (rheaders r) @ [13, 10] @ body r"
    by (simp add: response_text_def s1_def s2_def cl_def header_text_def)
  have le: "length s1 + (length (statusMessage r) + (2 + (length cl + n))) \<le> k" using assms(2) by (simp add: rtext n_def)
  obtain b1 where b1: "append b s1 = Some b1" "holds b1 (c @ s1) (length (statusMessage r) + (2 + (length cl + n)))"
    using append_holds [OF assms(1) le] by auto
  obtain b2 where b2: "append b1 (statusMessage r) = Some b2" "holds b2 (c @ s1 @ statusMessage r) (2 + (length cl + n))"
    using append_holds [OF b1(2), of "statusMessage r" "2 + (length cl + n)"] by auto
  define c3 where "c3 = c @ s1 @ statusMessage r @ [13, 10]"
  obtain b3 where b3: "append b2 [13, 10] = Some b3" "holds b3 c3 (length cl + n)"
    using append_holds [OF b2(2), of "[13, 10]" "length cl + n"] by (auto simp: c3_def)
  obtain b4 where b4: "(if closeConnection r then append b3 (str ''Connection: close'' @ [13, 10])
      else do { b \<leftarrow> append b3 s2; append b (str ''Connection: Keep-Alive'' @ [13, 10]) }) = Some b4" "holds b4 (c3 @ cl) n"
  proof (cases "closeConnection r")
    case True
    then show ?thesis using that append_holds [OF b3(2), of cl n] by (auto simp: cl_def)
  next
    case False
    define ka where "ka = str ''Connection: Keep-Alive'' @ [13, 10]"
    have cl: "cl = s2 @ ka" using False by (simp add: cl_def ka_def)
    obtain b' where b': "append b3 s2 = Some b'" "holds b' (c3 @ s2) (length ka + n)"
      using append_holds [OF b3(2), of s2 "length ka + n"] by (auto simp: cl)
    then show ?thesis using that append_holds [OF b'(2), of ka n] False by (auto simp: cl ka_def)
  qed
  define c5 where "c5 = (c3 @ cl) @ header_text (rheaders r)"
  obtain b5 where b5: "append_headers b4 (rheaders r) = Some b5" "holds b5 c5 (2 + (length (body r) + k'))"
    using append_headers_holds [OF b4(2), of "rheaders r" "2 + (length (body r) + k')"] by (auto simp: n_def c5_def)
  obtain b6 where b6: "append b5 [13, 10] = Some b6" "holds b6 (c5 @ [13, 10]) (length (body r) + k')"
    using append_holds [OF b5(2), of "[13, 10]" "length (body r) + k'"] by auto
  obtain b7 where b7: "append b6 (body r) = Some b7" "holds b7 ((c5 @ [13, 10]) @ body r) k'"
    using append_holds [OF b6(2), of "body r" k'] by auto
  have "appendToBuffer r b = Some b7"
    using b1(1) b2(1) b3(1) b4(1) b5(1) b6(1) b7(1) sn
    by (cases "closeConnection r") (simp_all add: appendToBuffer_def s1_def [symmetric] s2_def [symmetric] Let_def
      del: Option.bind_assoc)
  then show ?thesis using b7(2) by (simp add: rtext c5_def c3_def)
qed

definition wants_close :: "HttpRequest \<Rightarrow> bool" where
  "wants_close req \<longleftrightarrow> getHeader req (str ''Connection'') = str ''close'' \<or>
     version req = kHttp10 \<and> getHeader req (str ''Connection'') \<noteq> str ''Keep-Alive''"

text \<open>A callback whose responses are of a size that memory can hold.\<close>

definition callback_ok :: "(HttpRequest \<Rightarrow> HttpResponse \<Rightarrow> HttpResponse) \<Rightarrow> bool" where
  "callback_ok cb \<longleftrightarrow> (\<forall>req r. length (response_text (cb req r)) < 2 ^ 62 \<and> length (body (cb req r)) < 10 ^ 13)"

lemma onRequest_ok:
  assumes "callback_ok cb"
  shows "onRequest cb req = (let r = cb req (HttpResponse_init (wants_close req)) in
    Some (Send (response_text r) # (if closeConnection r then [Shutdown] else [])))"
proof -
  define r where "r = cb req (HttpResponse_init (wants_close req))"
  have len: "length (response_text r) < 2 ^ 62" "length (body r) < 10 ^ 13" using assms by (auto simp: callback_ok_def r_def)
  obtain b0 where b0: "Buffer_init kInitialSize = Some b0" "holds b0 [] (2 ^ 62)"
    using Buffer_init_ok [of kInitialSize]
    by (auto simp: kInitialSize_def kCheapPrepend_def vector_max_def holds_def)
  obtain b1 where b1: "appendToBuffer r b0 = Some b1" "holds b1 (response_text r) 0"
    using appendToBuffer_holds [OF b0(2), of r 0] len by auto
  have "retrieveAllAsString b1 = Some (retrieveAll b1, response_text r)"
    using b1(2) rd_content [of b1 "length (content b1)"]
    by (simp add: holds_def retrieveAllAsString_def retrieveAsString_def retrieve_def readableBytes_eq)
  then show ?thesis using b0(1) b1(1)
    by (simp add: onRequest_def Let_def wants_close_def [symmetric] r_def [symmetric])
qed

section \<open>A connection\<close>

text \<open>A connection that reads the given pieces, each with its arrival time, handling every piece as it comes.\<close>

fun http_receive :: "(HttpRequest \<Rightarrow> HttpResponse \<Rightarrow> HttpResponse) \<Rightarrow> HttpContext \<Rightarrow> Buffer \<Rightarrow> (byte list \<times> int) list \<Rightarrow>
    (HttpContext \<times> Buffer \<times> HttpRequest list \<times> conn_action list) option" where
  "http_receive cb ctx buf [] = Some (ctx, buf, [], [])"
| "http_receive cb ctx buf ((c, t) # cs) = do {
     (buf, _, _) \<leftarrow> readFd (\<lambda>_. Inr c) buf;
     (ctx, buf, reqs, acts) \<leftarrow> http_onMessage cb ctx buf t;
     (ctx, buf, reqs', acts') \<leftarrow> http_receive cb ctx buf cs;
     Some (ctx, buf, reqs @ reqs', acts @ acts')
   }"

lemma readFd_piece:
  assumes "buffer_wf buf" "length c \<le> extrabuf_size" "length (buffer buf) + extrabuf_size \<le> vector_max"
  shows "\<exists>b1. readFd (\<lambda>_. Inr c) buf = Some (b1, int (length c), None) \<and> buffer_wf b1 \<and> content b1 = content buf @ c \<and>
    length (buffer b1) \<le> length (buffer buf) + length c"
proof -
  define vec where "vec = (if writableBytes buf < extrabuf_size then [writableBytes buf, extrabuf_size] else [writableBytes buf])"
  have "length c \<le> sum_list vec" using assms(2) by (auto simp: vec_def)
  then show ?thesis
    using readFd_ok [where b = buf and vec = vec and readv = "\<lambda>_. Inr c" and data = c] assms(1,3) by (simp add: vec_def)
qed

lemma retrieveUntil_buffer: "retrieveUntil b e = Some b' \<Longrightarrow> buffer b' = buffer b"
  by (auto simp: retrieveUntil_def retrieve_def retrieveAll_def split: if_splits)

lemma parse_loop_buffer:
  assumes "parse_loop ctx buf t = Some r"
  shows "buffer (fst (snd r)) = buffer buf"
proof (rule parse_loop.raw_induct [where P = "\<lambda>ctx buf t r. buffer (fst (snd r)) = buffer buf", OF _ assms], goal_cases)
  case (1 f ctx buf t r)
  note ih = 1(1)
  have again: "buffer (fst (snd r)) = buffer buf" if "retrieveUntil buf e = Some b" "f c b t = Some r" for b c e
    using retrieveUntil_buffer [OF that(1)] ih [OF that(2)] by simp
  consider "state ctx = kExpectRequestLine" | "state ctx = kExpectHeaders" | "f ctx buf t = Some r"
    using 1(2) by (auto split: if_splits)
  then show ?case
  proof cases
    case 1
    then show ?thesis using \<open>_ = Some r\<close> again by (auto simp: Let_def split: if_splits bind_splits)
  next
    case 2
    then show ?thesis using \<open>_ = Some r\<close> again retrieveUntil_buffer by (auto simp: Let_def split: if_splits bind_splits)
  next
    case 3
    then show ?thesis by (rule ih)
  qed
qed

definition line_request :: "Method \<Rightarrow> byte list \<Rightarrow> byte list option \<Rightarrow> Version \<Rightarrow> int \<Rightarrow> HttpRequest" where
  "line_request m p q v t = HttpRequest_init\<lparr>rmethod := m, path := p, query := query_string q, version := v, receiveTime := t\<rparr>"

text \<open>The states of a connection in the middle of a request: \<open>c\<close> is in the buffer and \<open>d\<close> still to come.\<close>

definition awaiting :: "Method \<Rightarrow> byte list \<Rightarrow> byte list option \<Rightarrow> Version \<Rightarrow> (byte list \<times> byte list) list \<Rightarrow>
    HttpContext \<Rightarrow> byte list \<Rightarrow> byte list \<Rightarrow> bool" where
  "awaiting m p q v hs ctx c d \<longleftrightarrow> ctx = HttpContext_init \<and> c @ d = request_text m p q v hs \<or>
     (\<exists>t hs1 hs2. ctx = \<lparr>state = kExpectHeaders, request = add_headers (line_request m p q v t) hs1\<rparr> \<and>
        hs = hs1 @ hs2 \<and> c @ d = header_block hs2)"

lemma add_headers_append: "add_headers r (xs @ ys) = add_headers (add_headers r xs) ys"
  by (simp add: add_headers_def)

lemma parse_awaiting_headers:
  assumes "buffer_wf buf" "ctx = \<lparr>state = kExpectHeaders, request = add_headers (line_request m p q v t) hs1\<rparr>"
    "hs = hs1 @ hs2" "content buf @ d = header_block hs2" "request_ok m p q v hs"
  shows "\<exists>ctx' buf'. parse_loop ctx buf t' = Some (ctx', buf', True) \<and> buffer_wf buf' \<and>
    (if d = [] then content buf' = [] \<and> (\<exists>t. ctx' = \<lparr>state = kGotAll, request = add_headers (line_request m p q v t) hs\<rparr>)
     else awaiting m p q v hs ctx' (content buf') d)"
proof -
  have ok: "\<forall>h \<in> set hs2. 58 \<notin> set (fst h) \<and> 13 \<notin> set (fst h) \<and> 13 \<notin> set (snd h)"
    using assms(3,5) by (auto simp: request_ok_def)
  have st: "state ctx = kExpectHeaders" using assms(2) by simp
  note ph = parse_headers [OF assms(1) st assms(4) ok, of t']
  show ?thesis
  proof (cases "d = []")
    case True
    then show ?thesis using ph assms(2,3) by (auto simp: add_headers_append)
  next
    case False
    then obtain b x y where "buffer_wf b" "hs2 = x @ y" "content b @ d = header_block y"
      "parse_loop ctx buf t' = Some (ctx\<lparr>request := add_headers (request ctx) x\<rparr>, b, True)"
      using ph by auto
    moreover from this have "awaiting m p q v hs (ctx\<lparr>request := add_headers (request ctx) x\<rparr>) (content b) d"
      unfolding awaiting_def
      by (intro disjI2 exI [of _ t] exI [of _ "hs1 @ x"] exI [of _ y]) (simp add: assms(2,3) add_headers_append)
    ultimately show ?thesis using False by auto
  qed
qed

lemma parse_awaiting:
  assumes "buffer_wf buf" "awaiting m p q v hs ctx (content buf) d" "request_ok m p q v hs"
  shows "\<exists>ctx' buf'. parse_loop ctx buf t' = Some (ctx', buf', True) \<and> buffer_wf buf' \<and>
    (if d = [] then content buf' = [] \<and> (\<exists>t. ctx' = \<lparr>state = kGotAll, request = add_headers (line_request m p q v t) hs\<rparr>)
     else awaiting m p q v hs ctx' (content buf') d)"
proof (cases "ctx = HttpContext_init \<and> content buf @ d = request_text m p q v hs")
  case True
  then have i: "state ctx = kExpectRequestLine" "rmethod (request ctx) = kInvalid" "query (request ctx) = []"
    "content buf @ d = request_text m p q v hs"
    by (simp_all add: HttpContext_init_def HttpRequest_init_def)
  consider b where "buffer_wf b" "parse_loop ctx buf t' = Some (ctx, b, True)" "d \<noteq> []" "content b @ d = request_text m p q v hs"
    | b ctx1 where "buffer_wf b" "content b @ d = header_block hs" "state ctx1 = kExpectHeaders"
      "request ctx1 = (request ctx)\<lparr>rmethod := m, path := p, query := query_string q, version := v, receiveTime := t'\<rparr>"
      "parse_loop ctx buf t' = parse_loop ctx1 b t'"
    using parse_request [OF assms(1) i assms(3), of t'] by blast
  then show ?thesis
  proof cases
    case 1
    then show ?thesis using True by (auto simp: awaiting_def)
  next
    case 2
    have "ctx1 = \<lparr>state = kExpectHeaders, request = add_headers (line_request m p q v t') []\<rparr>"
      using 2(3,4) True by (cases ctx1) (simp add: line_request_def HttpContext_init_def)
    from parse_awaiting_headers [OF 2(1) this _ 2(2) assms(3), of t'] 2(5) show ?thesis by simp
  qed
next
  case False
  then obtain t hs1 hs2 where h: "ctx = \<lparr>state = kExpectHeaders, request = add_headers (line_request m p q v t) hs1\<rparr>"
    "hs = hs1 @ hs2" "content buf @ d = header_block hs2"
    using assms(2) unfolding awaiting_def by blast
  show ?thesis by (rule parse_awaiting_headers [OF assms(1) h assms(3)])
qed

lemma receive_awaiting:
  assumes "buffer_wf buf" "awaiting m p q v hs ctx (content buf) (concat (map fst cs))" "request_ok m p q v hs"
    "callback_ok cb" "cs \<noteq> []" "\<forall>c \<in> set cs. fst c \<noteq> [] \<and> length (fst c) \<le> extrabuf_size"
    "length (buffer buf) + length (concat (map fst cs)) + extrabuf_size \<le> vector_max"
  shows "\<exists>buf' t acts. http_receive cb ctx buf cs =
      Some (HttpContext_init, buf', [add_headers (line_request m p q v t) hs], acts) \<and>
    onRequest cb (add_headers (line_request m p q v t) hs) = Some acts \<and> content buf' = []"
  using assms
proof (induction cs arbitrary: buf ctx)
  case (Cons ct cs)
  obtain c t0 where ct: "ct = (c, t0)" by (cases ct)
  define d where "d = concat (map fst cs)"
  obtain b1 where b1: "readFd (\<lambda>_. Inr c) buf = Some (b1, int (length c), None)" "buffer_wf b1" "content b1 = content buf @ c"
    "length (buffer b1) \<le> length (buffer buf) + length c"
    using readFd_piece [OF Cons.prems(1), of c] Cons.prems(6,7) ct by auto
  have aw: "awaiting m p q v hs ctx (content b1) d" using Cons.prems(2) ct b1(3) by (simp add: awaiting_def d_def)
  obtain ctx1 b2 where p: "parse_loop ctx b1 t0 = Some (ctx1, b2, True)" "buffer_wf b2"
    "if d = [] then content b2 = [] \<and> (\<exists>t. ctx1 = \<lparr>state = kGotAll, request = add_headers (line_request m p q v t) hs\<rparr>)
     else awaiting m p q v hs ctx1 (content b2) d"
    using parse_awaiting [OF b1(2) aw Cons.prems(3), of t0] by blast
  have len: "length (buffer b2) = length (buffer b1)" using parse_loop_buffer [OF p(1)] by simp
  show ?case
  proof (cases "cs = []")
    case True
    then have "d = []" by (simp add: d_def)
    then obtain t where t: "content b2 = []" "ctx1 = \<lparr>state = kGotAll, request = add_headers (line_request m p q v t) hs\<rparr>"
      using p(3) by auto
    obtain acts where "onRequest cb (add_headers (line_request m p q v t) hs) = Some acts"
      using onRequest_ok [OF Cons.prems(4)] by (simp add: Let_def)
    then show ?thesis using b1(1) p(1) t True ct
      by (auto simp: http_onMessage_def parseRequest_def gotAll_def reset_def HttpContext_init_def)
  next
    case False
    then have "d \<noteq> []" using Cons.prems(6) by (cases cs) (auto simp: d_def)
    then have "awaiting m p q v hs ctx1 (content b2) d" using p(3) by simp
    note aw2 = this [unfolded d_def]
    then have "\<not> gotAll ctx1" by (auto simp: awaiting_def gotAll_def HttpContext_init_def)
    moreover have "length (buffer b2) + length (concat (map fst cs)) + extrabuf_size \<le> vector_max"
      using Cons.prems(7) b1(4) len ct by simp
    ultimately show ?thesis
      using Cons.IH [OF p(2) aw2 Cons.prems(3,4) False] Cons.prems(6) b1(1) p(1) ct
      by (auto simp: http_onMessage_def parseRequest_def)
  qed
qed simp

section \<open>Properties\<close>


definition hello_callback :: "HttpRequest \<Rightarrow> HttpResponse \<Rightarrow> HttpResponse" where
  "hello_callback req r = setBody (setStatusMessage (setStatusCode (HttpResponse_init (closeConnection r)) k200Ok) (str ''OK'')) (str ''hi'')"

lemma hello_ok: "callback_ok hello_callback"
proof -
  have "udec (Suc (Suc 0)) = [50]" "sdec 200 = [50, 48, 48]"
    by (simp_all add: sdec_def udec.simps [of 200] udec.simps [of 20] udec.simps [of 2] udec_small digit_char_def)
  then show ?thesis
    by (simp add: callback_ok_def hello_callback_def setBody_def setStatusMessage_def setStatusCode_def
      HttpResponse_init_def response_text_def str_def)
qed




text \<open>
  C30. A request line with a known method but an unsupported protocol version is reported as a bad request, and
  the parser keeps the stored method and the line. When anything more arrives on the connection, which is
  only half closed, parsing the same line again fails the assertion of \<open>setMethod\<close> that no method is stored.
\<close>

theorem bad_version_then_assertion:
  assumes "buffer_wf buf" "content buf = methodString m @ [32] @ target @ [32] @ proto @ [13, 10] @ q" "m \<noteq> kInvalid"
    "32 \<notin> set target" "13 \<notin> set target" "13 \<notin> set proto"
    "proto \<noteq> str ''HTTP/1.0''" "proto \<noteq> str ''HTTP/1.1''"
    "length c \<le> extrabuf_size" "length (buffer buf) + extrabuf_size \<le> vector_max"
  shows "\<exists>ctx' buf'. http_onMessage cb HttpContext_init buf t =
      Some (ctx', buf, [], [Send (str ''HTTP/1.1 400 Bad Request'' @ [13, 10, 13, 10]), Shutdown]) \<and>
    readFd (\<lambda>_. Inr c) buf = Some (buf', int (length c), None) \<and> http_onMessage cb ctx' buf' t' = None"
proof -
  define l where "l = methodString m @ 32 # target @ 32 # proto"
  have l: "13 \<notin> set l" "std_find 32 l = length (methodString m)" "length (methodString m) \<noteq> length l"
    "take (length (methodString m)) l = methodString m" "drop (length (methodString m) + 1) l = target @ 32 # proto"
    using assms by (cases m; simp add: l_def str_def)+
  define r where "r = (if std_find 63 target \<noteq> length target
    then setQuery (setPath (HttpRequest_init\<lparr>rmethod := m\<rparr>) (take (std_find 63 target) target)) (drop (std_find 63 target) target)
    else setPath (HttpRequest_init\<lparr>rmethod := m\<rparr>) target)"
  have sm: "setMethod HttpRequest_init (methodString m) = Some (HttpRequest_init\<lparr>rmethod := m\<rparr>, True)"
    using assms(3) by (cases m) (simp_all add: setMethod_def str_def HttpRequest_init_def)
  have "proto = take 7 proto @ [proto ! 7]" if "length proto = 8"
    using that id_take_nth_drop [of 7 proto] by simp
  then have bad: "\<not> (length proto = 8 \<and> take 7 proto = str ''HTTP/1.'' \<and> (proto ! 7 = 49 \<or> proto ! 7 = 48))"
    using assms(7,8) by (auto simp: str_def)
  have pl: "processRequestLine HttpRequest_init l = Some (r, False)"
    using l sm assms(4) bad by (simp add: processRequestLine_def Let_def r_def)
  have mr: "rmethod r = m" by (simp add: r_def setQuery_def setPath_def)
  have pl2: "processRequestLine r l = None"
    using l mr assms(3) by (simp add: processRequestLine_def setMethod_def Let_def)
  have c: "content buf @ d = l @ 13 # 10 # (q @ d)" for d using assms(2) by (simp add: l_def)
  have w: "std_search (content buf @ d) kCRLF = length l" "length l < length (content buf @ d)"
    "take (length l) (content buf @ d) = l" for d
    using c [of d] std_search_line [OF l(1)] by simp_all
  define ctx' where "ctx' = HttpContext_init\<lparr>request := r\<rparr>"
  have "parse_loop HttpContext_init buf t = Some (ctx', buf, False)"
    using parse_request_line [OF assms(1), of HttpContext_init "length l" t] w [of "[]"] pl
    by (auto simp: HttpContext_init_def ctx'_def)
  moreover obtain buf' where b: "readFd (\<lambda>_. Inr c) buf = Some (buf', int (length c), None)" "buffer_wf buf'"
    "content buf' = content buf @ c"
    using readFd_piece [OF assms(1,9,10)] by auto
  moreover have "parse_loop ctx' buf' t' = None"
    using parse_request_line [OF b(2), of ctx' "length l" t'] w [of c] b(3) pl2
    by (auto simp: HttpContext_init_def ctx'_def)
  ultimately show ?thesis
    by (auto simp: http_onMessage_def parseRequest_def gotAll_def ctx'_def HttpContext_init_def)
qed

theorem bad_version_then_assertion_witness:
  "\<exists>buf ctx' buf'. content buf = str ''GET / HTTP/2.0'' @ [13, 10] \<and>
    http_onMessage hello_callback HttpContext_init buf 0 =
      Some (ctx', buf, [], [Send (str ''HTTP/1.1 400 Bad Request'' @ [13, 10, 13, 10]), Shutdown]) \<and>
    readFd (\<lambda>_. Inr [65]) buf = Some (buf', 1, None) \<and> http_onMessage hello_callback ctx' buf' 1 = None"
proof -
  define buf where "buf = \<lparr>buffer = replicate 8 (0 :: byte) @ str ''GET / HTTP/2.0'' @ [13, 10], readerIndex = 8, writerIndex = 24\<rparr>"
  have "buffer_wf buf" by (simp add: buf_def buffer_wf_def kCheapPrepend_def vector_max_def str_def)
  moreover have c: "content buf = str ''GET / HTTP/2.0'' @ [13, 10]" by (simp add: buf_def content_def str_def)
  moreover have "length (buffer buf) = 24" by (simp add: buf_def str_def)
  ultimately show ?thesis
    using bad_version_then_assertion [of buf kGet "str ''/''" "str ''HTTP/2.0''" "[]" "[65]" hello_callback 0 1]
    by (auto simp: str_def extrabuf_size_def vector_max_def)
qed

text \<open>
  C39. In the header section every line without a colon, not only an empty one, ends the request: the request is
  handed to the server with the headers read so far and the bytes after that line stay in the buffer, where
  they are taken for the next request.
\<close>

theorem colonless_line_ends_request:
  assumes "buffer_wf buf" "state ctx = kExpectHeaders" "content buf = line @ [13, 10] @ q" "13 \<notin> set line" "58 \<notin> set line"
  shows "\<exists>buf'. parseRequest ctx buf t = Some (ctx\<lparr>state := kGotAll\<rparr>, buf', True) \<and> content buf' = q"
proof -
  have "std_search (content buf) kCRLF = length line" using std_search_line [OF assms(4)] assms(3) by simp
  from parse_header_line [OF assms(1,2) this, of t] show ?thesis using assms(3,5) by (auto simp: parseRequest_def Let_def)
qed

theorem colonless_line_ends_request_witness:
  "\<exists>buf buf'. content buf = str ''xyz'' @ [13, 10] @ str ''Host: x'' @ [13, 10] \<and>
    parseRequest (HttpContext_init\<lparr>state := kExpectHeaders\<rparr>) buf 0 =
      Some (HttpContext_init\<lparr>state := kGotAll\<rparr>, buf', True) \<and> content buf' = str ''Host: x'' @ [13, 10]"
proof -
  define buf where "buf = \<lparr>buffer = replicate 8 (0 :: byte) @ str ''xyz'' @ [13, 10] @ str ''Host: x'' @ [13, 10],
    readerIndex = 8, writerIndex = 22\<rparr>"
  have "buffer_wf buf" by (simp add: buf_def buffer_wf_def kCheapPrepend_def vector_max_def str_def)
  moreover have "content buf = str ''xyz'' @ [13, 10] @ str ''Host: x'' @ [13, 10]"
    by (simp add: buf_def content_def str_def)
  ultimately show ?thesis
    using colonless_line_ends_request [of buf "HttpContext_init\<lparr>state := kExpectHeaders\<rparr>" "str ''xyz''" "str ''Host: x'' @ [13, 10]" 0]
    by (auto simp: str_def)
qed

end
