(* ===== verification/Lzf.thy ===== *)
theory Lzf
  imports Prelude
begin

text \<open>
  The LZF compressor and decompressor of \<^verbatim>\<open>redis/src/lzf_c.c\<close> and \<^verbatim>\<open>redis/src/lzf_d.c\<close> in the configuration of
  \<^verbatim>\<open>lzfP.h\<close> (\<open>VERY_FAST\<close>, hash table of pointers, not initialised, input checks on). Input and output are memory
  with checked accesses; pointers are offsets from the start of the data, those found in the hash table are
  arbitrary integers. The results: the decompressor is memory safe on every input, and it restores whatever
  the compressor accepted, for every initial content of the hash table.
\<close>

section \<open>Model of the compressor\<close>

definition HLOG :: nat where "HLOG = 16"

definition MAX_LIT :: nat where "MAX_LIT = 32"

definition MAX_OFF :: nat where "MAX_OFF = 8192"

definition MAX_REF :: nat where "MAX_REF = 264"

definition get :: "byte list \<Rightarrow> nat \<Rightarrow> byte option" where
  "get m i = (if i < length m then Some (m ! i) else None)"

definition put :: "byte list \<Rightarrow> int \<Rightarrow> byte \<Rightarrow> byte list option" where
  "put m i b = (if 0 \<le> i \<and> nat i < length m then Some (m[nat i := b]) else None)"

definition FRST :: "byte list \<Rightarrow> nat \<Rightarrow> 32 word option" where
  "FRST m p = do { a \<leftarrow> get m p; b \<leftarrow> get m (p + 1); Some (push_bit 8 (ucast a) OR ucast b) }"

definition NEXT :: "32 word \<Rightarrow> byte list \<Rightarrow> nat \<Rightarrow> 32 word option" where
  "NEXT v m p = do { c \<leftarrow> get m (p + 2); Some (push_bit 8 v OR ucast c) }"

definition IDX :: "32 word \<Rightarrow> nat" where
  "IDX h = unat ((drop_bit (3 * 8 - HLOG) h - h * 5) AND (2 ^ HLOG - 1))"

text \<open>Comparison of the bytes after the first three: sixteen unrolled steps and a loop.\<close>

fun match16 :: "byte list \<Rightarrow> nat \<Rightarrow> nat \<Rightarrow> nat \<Rightarrow> nat \<Rightarrow> (nat \<times> bool) option" where
  "match16 m ref ip 0 len = Some (len, False)"
| "match16 m ref ip (Suc k) len = do {
     a \<leftarrow> get m (ref + (len + 1));
     b \<leftarrow> get m (ip + (len + 1));
     if a \<noteq> b then Some (len + 1, True) else match16 m ref ip k (len + 1)
   }"

function match_more :: "byte list \<Rightarrow> nat \<Rightarrow> nat \<Rightarrow> nat \<Rightarrow> nat \<Rightarrow> nat option" where
  "match_more m ref ip maxlen len =
     (if len + 1 < maxlen then do {
        a \<leftarrow> get m (ref + (len + 1));
        b \<leftarrow> get m (ip + (len + 1));
        if a = b then match_more m ref ip maxlen (len + 1) else Some (len + 1)
      } else Some (len + 1))"
  by pat_completeness auto
termination by (relation "measure (\<lambda>(_, _, _, maxlen, len). maxlen - len)") auto

declare match_more.simps [simp del]

definition match_len :: "byte list \<Rightarrow> nat \<Rightarrow> nat \<Rightarrow> nat \<Rightarrow> nat option" where
  "match_len m ref ip maxlen = do {
     (len, stop) \<leftarrow> (if maxlen > 16 then match16 m ref ip 16 2 else Some (2, False));
     if stop then Some len else match_more m ref ip maxlen len
   }"

record lzf_state =
  ip :: nat
  op :: int
  lit :: nat
  htab :: "nat \<Rightarrow> int"
  hval :: "32 word"
  out :: "byte list"

text \<open>\<open>op[-lit-1] = lit - 1\<close>\<close>

definition stop_run :: "lzf_state \<Rightarrow> lzf_state option" where
  "stop_run s = do {
     m \<leftarrow> put (out s) (op s - int (lit s) - 1) (of_int (int (lit s) - 1));
     Some (s\<lparr>out := m\<rparr>)
   }"

definition emit :: "lzf_state \<Rightarrow> byte \<Rightarrow> lzf_state option" where
  "emit s b = do { m \<leftarrow> put (out s) (op s) b; Some (s\<lparr>out := m, op := op s + 1\<rparr>) }"

text \<open>\<open>lit++; *op++ = *ip++\<close> and, when the run is full, its end and the start of a new one.\<close>

definition literal :: "byte list \<Rightarrow> lzf_state \<Rightarrow> lzf_state option" where
  "literal m s = do {
     b \<leftarrow> get m (ip s);
     s \<leftarrow> emit (s\<lparr>lit := lit s + 1\<rparr>) b;
     let s = s\<lparr>ip := ip s + 1\<rparr>;
     if lit s = MAX_LIT then do {
       s \<leftarrow> stop_run s;
       Some (s\<lparr>lit := 0, op := op s + 1\<rparr>)
     } else Some s
   }"

text \<open>The test for a match at the position found in the hash table; the reads happen only after the range checks.\<close>

definition is_match :: "byte list \<Rightarrow> nat \<Rightarrow> int \<Rightarrow> bool option" where
  "is_match m i ref =
     (if \<not> (int i - ref - 1) mod 2 ^ 64 < int MAX_OFF then Some False
      else if \<not> ref > 0 then Some False
      else do {
        r2 \<leftarrow> get m (nat ref + 2); i2 \<leftarrow> get m (i + 2);
        if r2 \<noteq> i2 then Some False
        else do {
          r0 \<leftarrow> get m (nat ref); r1 \<leftarrow> get m (nat ref + 1);
          i0 \<leftarrow> get m i; i1 \<leftarrow> get m (i + 1);
          Some (r0 = i0 \<and> r1 = i1)
        }
      })"

text \<open>The bytes of a back reference.\<close>

definition emit_ref :: "nat \<Rightarrow> nat \<Rightarrow> lzf_state \<Rightarrow> lzf_state option" where
  "emit_ref off len s = do {
     s \<leftarrow> (if len < 7 then emit s (of_nat (off div 2 ^ 8 + len * 2 ^ 5))
           else do {
             s \<leftarrow> emit s (of_nat (off div 2 ^ 8 + 7 * 2 ^ 5));
             emit s (of_nat (len - 7))
           });
     emit s (of_nat off)
   }"

text \<open>After a match the last two positions it covers are entered in the hash table.\<close>

definition rehash :: "byte list \<Rightarrow> lzf_state \<Rightarrow> lzf_state option" where
  "rehash m s = do {
     let s = s\<lparr>ip := ip s - 2\<rparr>;
     h \<leftarrow> FRST m (ip s);
     h \<leftarrow> NEXT h m (ip s);
     let s = s\<lparr>htab := (htab s)(IDX h := int (ip s)), ip := ip s + 1\<rparr>;
     h \<leftarrow> NEXT h m (ip s);
     Some (s\<lparr>htab := (htab s)(IDX h := int (ip s)), hval := h, ip := ip s + 1\<rparr>)
   }"

text \<open>
  A match: the pending run is closed, the reference emitted and a new run started. \<open>Inl\<close> is the return with \<open>0\<close>
  when the output is too small, with the output memory; the flag is true when the main loop ends.
\<close>

definition match_found :: "byte list \<Rightarrow> nat \<Rightarrow> int \<Rightarrow> lzf_state \<Rightarrow> (byte list + (lzf_state \<times> bool)) option" where
  "match_found m in_len ref s = do {
     let off = nat ((int (ip s) - ref - 1) mod 2 ^ 64);
     let maxlen = in_len - ip s - 2;
     let maxlen = (if maxlen > MAX_REF then MAX_REF else maxlen);
     let out_end = int (length (out s));
     if op s + 3 + 1 \<ge> out_end \<and> op s - of_bool (lit s = 0) + 3 + 1 \<ge> out_end then Some (Inl (out s))
     else do {
       s \<leftarrow> stop_run s;
       let s = s\<lparr>op := op s - of_bool (lit s = 0)\<rparr>;
       len \<leftarrow> match_len m (nat ref) (ip s) maxlen;
       let len = len - 2;
       let s = s\<lparr>ip := ip s + 1\<rparr>;
       s \<leftarrow> emit_ref off len s;
       let s = s\<lparr>lit := 0, op := op s + 1\<rparr>;
       let s = s\<lparr>ip := ip s + len + 1\<rparr>;
       if ip s \<ge> in_len - 2 then Some (Inr (s, True))
       else do { s \<leftarrow> rehash m s; Some (Inr (s, False)) }
     }
   }"

text \<open>One round of the main loop.\<close>

definition compress_step :: "byte list \<Rightarrow> nat \<Rightarrow> lzf_state \<Rightarrow> (byte list + (lzf_state \<times> bool)) option" where
  "compress_step m in_len s = do {
     h \<leftarrow> NEXT (hval s) m (ip s);
     let ref = htab s (IDX h);
     let s = s\<lparr>hval := h, htab := (htab s)(IDX h := int (ip s))\<rparr>;
     found \<leftarrow> is_match m (ip s) ref;
     if found then match_found m in_len ref s
     else if op s \<ge> int (length (out s)) then Some (Inl (out s))
     else do { s \<leftarrow> literal m s; Some (Inr (s, False)) }
   }"

partial_function (option) compress_loop :: "byte list \<Rightarrow> nat \<Rightarrow> lzf_state \<Rightarrow> (byte list + lzf_state) option" where
  "compress_loop m in_len s =
     (if int (ip s) < int in_len - 2 then do {
        r \<leftarrow> compress_step m in_len s;
        case r of
          Inl outm \<Rightarrow> Some (Inl outm)
        | Inr (s, stop) \<Rightarrow> if stop then Some (Inr s) else compress_loop m in_len s
      }
      else Some (Inr s))"

fun tail_loop :: "byte list \<Rightarrow> nat \<Rightarrow> lzf_state \<Rightarrow> lzf_state option" where
  "tail_loop m 0 s = Some s"
| "tail_loop m (Suc k) s = do { s \<leftarrow> literal m s; tail_loop m k s }"

text \<open>
  \<open>junk\<close> is the content of the hash table, which is not initialised, and \<open>out\<close> the memory of the output. The
  result has the compressed length, \<open>0\<close> when the output is too small.
\<close>

definition lzf_compress :: "(nat \<Rightarrow> int) \<Rightarrow> byte list \<Rightarrow> nat \<Rightarrow> byte list \<Rightarrow> (byte list \<times> nat) option" where
  "lzf_compress junk m in_len out_data =
     (if in_len = 0 \<or> length out_data = 0 then Some (out_data, 0)
      else do {
        h \<leftarrow> FRST m 0;
        let s = \<lparr>ip = 0, op = 1, lit = 0, htab = junk, hval = h, out = out_data\<rparr>;
        r \<leftarrow> compress_loop m in_len s;
        case r of
          Inl outm \<Rightarrow> Some (outm, 0)
        | Inr s \<Rightarrow>
            if op s + 3 > int (length (out s)) then Some (out s, 0)
            else do {
              s \<leftarrow> tail_loop m (in_len - ip s) s;
              s \<leftarrow> stop_run s;
              let s = s\<lparr>op := op s - of_bool (lit s = 0)\<rparr>;
              Some (out s, nat (op s))
            }
      })"

section \<open>Model of the decompressor\<close>

datatype lzf_errno = E2BIG | EINVAL

fun copy_fwd :: "byte list \<Rightarrow> nat \<Rightarrow> nat \<Rightarrow> nat \<Rightarrow> byte list option" where
  "copy_fwd m opos ref 0 = Some m"
| "copy_fwd m opos ref (Suc k) = do {
     b \<leftarrow> get m ref;
     m \<leftarrow> put m (int opos) b;
     copy_fwd m (opos + 1) (ref + 1) k
   }"

text \<open>Copying \<open>len + 2\<close> bytes of a back reference.\<close>

definition copy_ref :: "byte list \<Rightarrow> nat \<Rightarrow> nat \<Rightarrow> nat \<Rightarrow> byte list option" where
  "copy_ref m opos ref len =
     (if len \<le> 9 then copy_fwd m opos ref (len + 2)
      else if opos \<ge> ref + (len + 2) then do { bs \<leftarrow> rd m ref (len + 2); wr m opos bs }
      else copy_fwd m opos ref (len + 2))"

text \<open>
  The main loop, on the rest of the input: the output memory and the number of bytes written or the error. A
  length byte or an offset byte that is missing is an error, as is a reference before the start of the output.
\<close>

function decompress_loop :: "byte list \<Rightarrow> byte list \<Rightarrow> nat \<Rightarrow> (byte list \<times> (lzf_errno + nat)) option" where
  "decompress_loop [] m opos = Some (m, Inr opos)"
| "decompress_loop (c # inp) m opos =
     (let ctrl = unat c in
      if ctrl < 2 ^ 5 then
        let ctrl = ctrl + 1 in
        if opos + ctrl > length m then Some (m, Inl E2BIG)
        else if ctrl > length inp then Some (m, Inl EINVAL)
        else do {
          m \<leftarrow> wr m opos (take ctrl inp);
          decompress_loop (drop ctrl inp) m (opos + ctrl)
        }
      else
        let len = ctrl div 2 ^ 5; ref = int opos - int (ctrl mod 2 ^ 5 * 2 ^ 8) - 1 in
        if inp = [] then Some (m, Inl EINVAL)
        else
          let (len, inp) = (if len = 7 then (len + unat (hd inp), tl inp) else (len, inp)) in
          if inp = [] then Some (m, Inl EINVAL)
          else
            let ref = ref - int (unat (hd inp)); rest = tl inp in
            if opos + len + 2 > length m then Some (m, Inl E2BIG)
            else if ref < 0 then Some (m, Inl EINVAL)
            else do {
              m \<leftarrow> copy_ref m opos (nat ref) len;
              decompress_loop rest m (opos + len + 2)
            })"
  by pat_completeness auto
termination by (relation "measure (\<lambda>(inp, _, _). length inp)") (auto split: if_splits prod.splits)

definition lzf_decompress :: "byte list \<Rightarrow> byte list \<Rightarrow> (byte list \<times> (lzf_errno + nat)) option" where
  "lzf_decompress inp out_data = decompress_loop inp out_data 0"

section \<open>The meaning of a compressed stream\<close>

fun extend :: "byte list \<Rightarrow> nat \<Rightarrow> nat \<Rightarrow> byte list" where
  "extend acc ref 0 = acc"
| "extend acc ref (Suc k) = extend (acc @ [acc ! ref]) (ref + 1) k"

text \<open>The length field, the offset field and the rest of the input after a back reference that starts with \<open>c\<close>.\<close>

definition ref_token :: "byte \<Rightarrow> byte list \<Rightarrow> (nat \<times> nat \<times> byte list) option" where
  "ref_token c inp = do {
     (len, q) \<leftarrow> (if unat c div 32 = 7 then (case inp of [] \<Rightarrow> None | b # q \<Rightarrow> Some (7 + unat b, q))
                  else Some (unat c div 32, inp));
     case q of [] \<Rightarrow> None | b # rest \<Rightarrow> Some (len, unat c mod 32 * 256 + unat b, rest)
   }"

lemma ref_token_rest: "ref_token c inp = Some (len, off, rest) \<Longrightarrow> length rest < length inp"
  by (auto simp: ref_token_def split: if_splits list.splits)

lemma ref_token_append: "ref_token c inp = Some (len, off, rest) \<Longrightarrow> ref_token c (inp @ t) = Some (len, off, rest @ t)"
  by (auto simp: ref_token_def split: if_splits list.splits)

text \<open>The bytes a stream stands for, after those already produced; \<open>None\<close> when it is malformed.\<close>

function decode :: "byte list \<Rightarrow> byte list \<Rightarrow> byte list option" where
  "decode acc [] = Some acc"
| "decode acc (c # inp) =
     (if unat c < 32 then
        if unat c + 1 > length inp then None else decode (acc @ take (unat c + 1) inp) (drop (unat c + 1) inp)
      else case ref_token c inp of
        None \<Rightarrow> None
      | Some (len, off, rest) \<Rightarrow>
          if off + 1 > length acc then None else decode (extend acc (length acc - (off + 1)) (len + 2)) rest)"
  by pat_completeness auto
termination by (relation "measure (\<lambda>(_, inp). length inp)") (auto dest: ref_token_rest)

declare decode.simps(2) [simp del] extend.simps(2) [simp del]

lemma decode_literal:
  "unat c < 32 \<Longrightarrow> unat c + 1 \<le> length inp \<Longrightarrow>
     decode acc (c # inp) = decode (acc @ take (unat c + 1) inp) (drop (unat c + 1) inp)"
  by (simp add: decode.simps)

lemma decode_ref:
  "\<not> unat c < 32 \<Longrightarrow> ref_token c inp = Some (len, off, rest) \<Longrightarrow> off + 1 \<le> length acc \<Longrightarrow>
     decode acc (c # inp) = decode (extend acc (length acc - (off + 1)) (len + 2)) rest"
  by (simp add: decode.simps)

lemma length_extend [simp]: "length (extend acc ref k) = length acc + k"
  by (induction acc ref k rule: extend.induct) (auto simp: extend.simps(2))

lemma extend_disjoint: "ref + k \<le> length acc \<Longrightarrow> extend acc ref k = acc @ take k (drop ref acc)"
proof (induction acc ref k rule: extend.induct)
  case (2 acc ref k)
  have "extend acc ref (Suc k) = (acc @ [acc ! ref]) @ take k (drop (ref + 1) (acc @ [acc ! ref]))"
    using 2 by (simp add: extend.simps(2))
  also have "take k (drop (ref + 1) (acc @ [acc ! ref])) = take k (drop (ref + 1) acc)" using "2.prems" by simp
  finally show ?case using "2.prems" by (simp add: Cons_nth_drop_Suc [symmetric])
qed simp

lemma extend_periodic:
  assumes "acc = take i m" "ref < i" "i + k \<le> length m" "\<forall>j < k. m ! (ref + j) = m ! (i + j)"
  shows "extend acc ref k = take (i + k) m"
  using assms
proof (induction acc ref k arbitrary: i rule: extend.induct)
  case (2 acc ref k)
  have "acc ! ref = m ! i" using "2.prems"(1,2,4) by auto
  then have "acc @ [acc ! ref] = take (i + 1) m" using "2.prems"(1,3) by (simp add: take_Suc_conv_app_nth)
  moreover have "\<forall>j < k. m ! (ref + 1 + j) = m ! (i + 1 + j)" using "2.prems"(4) [rule_format, of "Suc _"] by simp
  ultimately show ?case using "2.IH" [of "i + 1"] "2.prems" by (simp add: extend.simps(2))
qed simp

lemma decode_cases:
  assumes "decode acc (c # inp) = Some acc'"
  obtains (Lit) "unat c < 32" "unat c + 1 \<le> length inp"
    | (Ref) len off rest where "\<not> unat c < 32" "ref_token c inp = Some (len, off, rest)" "off + 1 \<le> length acc"
  using assms by (auto simp: decode.simps split: if_splits option.splits)

lemma decode_append: "decode acc s = Some acc' \<Longrightarrow> decode acc (s @ t) = decode acc' t"
proof (induction acc s rule: decode.induct)
  case (2 acc c inp)
  from "2.prems" show ?case
  proof (cases rule: decode_cases)
    case Lit
    then have "unat c + 1 \<le> length (inp @ t)" by simp
    from decode_literal [OF Lit(1) this, of acc] decode_literal [OF Lit, of acc] "2.IH"(1) [OF Lit(1)] "2.prems" Lit
    show ?thesis by simp
  next
    case (Ref len off rest)
    from decode_ref [OF Ref(1) ref_token_append [OF Ref(2)] Ref(3), of t] decode_ref [OF Ref] "2.IH"(2) [OF Ref(1,2) refl refl] "2.prems" Ref(3)
    show ?thesis by simp
  qed
qed simp

section \<open>The decompressor\<close>

lemma get_Some: "i < length m \<Longrightarrow> get m i = Some (m ! i)"
  by (simp add: get_def)

lemma put_Some: "0 \<le> i \<Longrightarrow> i < int (length m) \<Longrightarrow> put m i b = Some (m[nat i := b])"
  by (simp add: put_def)

lemma copy_fwd_ok:
  "ref < opos \<Longrightarrow> opos + k \<le> length m \<Longrightarrow>
     \<exists>m'. copy_fwd m opos ref k = Some m' \<and> length m' = length m \<and> take (opos + k) m' = extend (take opos m) ref k"
proof (induction m opos ref k rule: copy_fwd.induct)
  case (2 m opos ref k)
  let ?m = "m[opos := m ! ref]"
  from "2.prems" have g: "get m ref = Some (m ! ref)" and p: "put m (int opos) (m ! ref) = Some ?m"
    by (simp_all add: get_Some put_Some)
  have t: "take (opos + 1) ?m = take opos m @ [take opos m ! ref]"
    using "2.prems" by (simp add: take_Suc_conv_app_nth)
  from "2.IH" [OF g p] "2.prems" obtain m' where m':
    "copy_fwd ?m (opos + 1) (ref + 1) k = Some m'" "length m' = length m"
    "take (opos + 1 + k) m' = extend (take (opos + 1) ?m) (ref + 1) k"
    by auto
  from m' g p show ?case unfolding t by (auto simp: extend.simps(2))
qed simp

lemma copy_ref_ok:
  assumes "ref < opos" "opos + (len + 2) \<le> length m"
  shows "\<exists>m'. copy_ref m opos ref len = Some m' \<and> length m' = length m \<and> take (opos + (len + 2)) m' = extend (take opos m) ref (len + 2)"
proof (cases "len \<le> 9 \<or> \<not> opos \<ge> ref + (len + 2)")
  case True
  then have "copy_ref m opos ref len = copy_fwd m opos ref (len + 2)" by (auto simp: copy_ref_def)
  then show ?thesis using copy_fwd_ok [OF assms] by simp
next
  case False
  let ?bs = "take (len + 2) (drop ref m)"
  have l: "length ?bs = len + 2" using assms False by (auto simp: min_def)
  have "copy_ref m opos ref len = wr m opos ?bs" using False assms by (auto simp: copy_ref_def rd_Some)
  also have "\<dots> = Some (take opos m @ ?bs @ drop (opos + (len + 2)) m)" using assms l by (simp add: wr_Some del: length_take)
  finally have c: "copy_ref m opos ref len = Some (take opos m @ ?bs @ drop (opos + (len + 2)) m)" .
  have "extend (take opos m) ref (len + 2) = take opos m @ take (len + 2) (drop ref (take opos m))"
    using assms False by (intro extend_disjoint) simp
  also have "take (len + 2) (drop ref (take opos m)) = ?bs" using False by (auto simp: drop_take min_def)
  finally show ?thesis unfolding c using assms l by (simp add: min_def)
qed

lemma ref_sign: "int p - int a - 1 - int b < 0 \<longleftrightarrow> a + b + 1 > p"
  by arith

lemma ref_pos: "nat (int p - int a - 1 - int b) = p - (a + b + 1)"
  by arith

lemma decompress_ref:
  assumes "\<not> unat c < 32"
  shows "decompress_loop (c # inp) m opos =
    (case ref_token c inp of
       None \<Rightarrow> Some (m, Inl EINVAL)
     | Some (len, off, rest) \<Rightarrow>
         if opos + len + 2 > length m then Some (m, Inl E2BIG)
         else if off + 1 > opos then Some (m, Inl EINVAL)
         else do {
           m \<leftarrow> copy_ref m opos (opos - (off + 1)) len;
           decompress_loop rest m (opos + len + 2)
         })"
  unfolding decompress_loop.simps Let_def ref_sign ref_pos
  using assms by (cases inp; cases "tl inp"; simp add: ref_token_def)

lemma decode_longer: "decode acc s = Some acc' \<Longrightarrow> length acc \<le> length acc'"
proof (induction acc s rule: decode.induct)
  case (2 acc c inp)
  from "2.prems" show ?case
  proof (cases rule: decode_cases)
    case Lit
    then show ?thesis using "2.IH"(1) [OF Lit(1)] "2.prems" decode_literal [OF Lit, of acc] by simp
  next
    case (Ref len off rest)
    then show ?thesis using "2.IH"(2) [OF Ref(1,2) refl refl] "2.prems" decode_ref [OF Ref] by simp
  qed
qed simp

definition decompress_post :: "byte list \<Rightarrow> byte list \<Rightarrow> nat \<Rightarrow> (byte list \<times> (lzf_errno + nat)) option \<Rightarrow> bool" where
  "decompress_post acc inp cap r =
     (case r of
        None \<Rightarrow> False
      | Some (m', Inr n) \<Rightarrow> length m' = cap \<and> n \<le> cap \<and> decode acc inp = Some (take n m')
      | Some (m', Inl E2BIG) \<Rightarrow> length m' = cap \<and> (\<forall>acc'. decode acc inp = Some acc' \<longrightarrow> cap < length acc')
      | Some (m', Inl EINVAL) \<Rightarrow> length m' = cap \<and> decode acc inp = None)"

lemma decompress_post_eq: "decode acc inp = decode acc' inp' \<Longrightarrow> decompress_post acc inp cap r = decompress_post acc' inp' cap r"
  by (simp only: decompress_post_def)

lemma decompress_post_literal:
  assumes "unat c < 32" "opos \<le> length m"
  and IH: "\<And>m'. unat c + 1 \<le> length inp \<Longrightarrow> opos + (unat c + 1) \<le> length m \<Longrightarrow> length m' = length m \<Longrightarrow>
    decompress_post (take (opos + (unat c + 1)) m') (drop (unat c + 1) inp) (length m') (decompress_loop (drop (unat c + 1) inp) m' (opos + (unat c + 1)))"
  shows "decompress_post (take opos m) (c # inp) (length m) (decompress_loop (c # inp) m opos)"
proof (cases "opos + (unat c + 1) > length m \<or> unat c + 1 > length inp")
  case True
  then show ?thesis using assms(1,2) decode_longer
    by (fastforce simp: decompress_post_def decode.simps(2) Let_def split: if_splits)
next
  case False
  let ?bs = "take (unat c + 1) inp"
  define m' where "m' = take opos m @ ?bs @ drop (opos + (unat c + 1)) m"
  have w: "wr m opos ?bs = Some m'" using False by (auto simp: wr_Some m'_def min_def)
  have l: "length m' = length m" using False by (auto simp: m'_def min_def)
  have t: "take (opos + (unat c + 1)) m' = take opos m @ ?bs" using False by (simp add: m'_def min_def)
  have step: "decompress_loop (c # inp) m opos = decompress_loop (drop (unat c + 1) inp) m' (opos + (unat c + 1))"
    using False assms(1) w by (simp add: Let_def del: add_Suc_right)
  have dec: "decode (take opos m) (c # inp) = decode (take (opos + (unat c + 1)) m') (drop (unat c + 1) inp)"
    unfolding t using False by (intro decode_literal assms(1)) simp
  show ?thesis unfolding step decompress_post_eq [OF dec] using IH [OF _ _ l] False unfolding l by simp
qed

lemma decompress_post_ref:
  assumes c: "\<not> unat c < 32" and o: "opos \<le> length m"
  and IH: "\<And>len off rest m'. ref_token c inp = Some (len, off, rest) \<Longrightarrow> length m' = length m \<Longrightarrow> opos + (len + 2) \<le> length m \<Longrightarrow>
    decompress_post (take (opos + (len + 2)) m') rest (length m') (decompress_loop rest m' (opos + (len + 2)))"
  shows "decompress_post (take opos m) (c # inp) (length m) (decompress_loop (c # inp) m opos)"
proof (cases "ref_token c inp")
  case None
  then show ?thesis using c by (simp add: decompress_ref [OF c] decompress_post_def decode.simps(2) del: decompress_loop.simps(2))
next
  case (Some tok)
  then obtain len off rest where tok: "ref_token c inp = Some (len, off, rest)" by (cases tok) auto
  show ?thesis
  proof (cases "opos + (len + 2) > length m \<or> off + 1 > opos")
    case True
    then show ?thesis using c o tok decode_longer
      by (fastforce simp: decompress_ref [OF c] decompress_post_def decode.simps(2) min_def simp del: decompress_loop.simps(2) split: if_splits)
  next
    case False
    then obtain m' where m': "copy_ref m opos (opos - (off + 1)) len = Some m'" "length m' = length m"
      "take (opos + (len + 2)) m' = extend (take opos m) (opos - (off + 1)) (len + 2)"
      using copy_ref_ok [of "opos - (off + 1)" opos len m] by auto
    have step: "decompress_loop (c # inp) m opos = decompress_loop rest m' (opos + (len + 2))"
      unfolding decompress_ref [OF c] using tok False m'(1) by simp
    have dec: "decode (take opos m) (c # inp) = decode (take (opos + (len + 2)) m') rest"
      unfolding m'(3) using decode_ref [OF c tok, of "take opos m"] False o by (simp add: min_def)
    show ?thesis unfolding step decompress_post_eq [OF dec] using IH [OF tok m'(2)] False unfolding m'(2) by simp
  qed
qed

lemma decompress_loop_ok:
  "opos \<le> length m \<Longrightarrow> decompress_post (take opos m) inp (length m) (decompress_loop inp m opos)"
proof (induction "length inp" arbitrary: inp m opos rule: less_induct)
  case less
  show ?case
  proof (cases inp)
    case Nil
    then show ?thesis using less.prems by (simp add: decompress_post_def)
  next
    case (Cons c inp')
    show ?thesis
    proof (cases "unat c < 32")
      case True
      show ?thesis unfolding Cons
        by (rule decompress_post_literal [OF True less.prems], rule less.hyps) (simp_all add: Cons)
    next
      case False
      show ?thesis unfolding Cons
        by (rule decompress_post_ref [OF False less.prems], rule less.hyps) (auto simp: Cons dest: ref_token_rest)
    qed
  qed
qed

section \<open>The compressor\<close>

abbreviation agree :: "byte list \<Rightarrow> nat \<Rightarrow> nat \<Rightarrow> nat \<Rightarrow> bool" where
  "agree m ref i n \<equiv> \<forall>j < n. m ! (ref + j) = m ! (i + j)"

lemma agree_Suc: "agree m ref i (Suc n) \<longleftrightarrow> agree m ref i n \<and> m ! (ref + n) = m ! (i + n)"
  by (auto simp: less_Suc_eq)

lemma match16_ok:
  "agree m ref i (len + 1) \<Longrightarrow> ref < i \<Longrightarrow> i + len + k < length m \<Longrightarrow>
     \<exists>len' stop. match16 m ref i k len = Some (len', stop) \<and> len \<le> len' \<and> len' \<le> len + k \<and> agree m ref i len' \<and>
       (if stop then len < len' else len' = len + k \<and> agree m ref i (len' + 1))"
proof (induction k arbitrary: len)
  case (Suc k)
  have g: "get m (ref + (len + 1)) = Some (m ! (ref + (len + 1)))" "get m (i + (len + 1)) = Some (m ! (i + (len + 1)))"
    using Suc.prems by (simp_all add: get_Some)
  show ?case
  proof (cases "m ! (ref + (len + 1)) = m ! (i + (len + 1))")
    case True
    then have "agree m ref i (len + 1 + 1)" using Suc.prems(1) agree_Suc [of "len + 1" m ref i] by simp
    from Suc.IH [OF this Suc.prems(2)] Suc.prems(3) g True show ?thesis by fastforce
  next
    case False
    then show ?thesis using g Suc.prems(1) by auto
  qed
qed auto

lemma match_more_ok:
  "agree m ref i (len + 1) \<Longrightarrow> ref < i \<Longrightarrow> i + maxlen \<le> length m \<Longrightarrow>
     \<exists>len'. match_more m ref i maxlen len = Some len' \<and> len < len' \<and> len' \<le> max (len + 1) maxlen \<and> agree m ref i len'"
proof (induction "maxlen - len" arbitrary: len)
  case 0
  then show ?case by (subst match_more.simps) auto
next
  case (Suc k)
  show ?case
  proof (cases "len + 1 < maxlen \<and> m ! (ref + (len + 1)) = m ! (i + (len + 1))")
    case True
    then have "agree m ref i (len + 1 + 1)" using Suc.prems(1) agree_Suc [of "len + 1" m ref i] by simp
    moreover have "k = maxlen - (len + 1)" using Suc.hyps(2) by simp
    ultimately obtain len' where l:
      "match_more m ref i maxlen (len + 1) = Some len'" "len + 1 < len'" "len' \<le> max (len + 1 + 1) maxlen" "agree m ref i len'"
      using Suc.hyps(1) [OF _ _ Suc.prems(2,3)] by blast
    have "match_more m ref i maxlen len = Some len'"
      using True Suc.prems l(1) by (subst match_more.simps) (simp add: get_Some)
    then show ?thesis using l True by auto
  next
    case False
    have "match_more m ref i maxlen len = Some (len + 1)"
      using False Suc.prems by (subst match_more.simps) (auto simp: get_Some)
    then show ?thesis using Suc.prems(1) by simp
  qed
qed

lemma match_len_ok:
  assumes "agree m ref i 3" "ref < i" "i + 2 < in_len" "in_len \<le> length m" "maxlen = min MAX_REF (in_len - i - 2)"
  shows "\<exists>len. match_len m ref i maxlen = Some len \<and> 3 \<le> len \<and> len \<le> 264 \<and> i + len \<le> in_len \<and> agree m ref i len"
proof (cases "maxlen > 16")
  case True
  have "agree m ref i (2 + 1)" "i + 2 + 16 < length m" using assms True by (simp_all add: min_def split: if_splits)
  from match16_ok [OF this(1) assms(2) this(2)] obtain len stop where l: "match16 m ref i 16 2 = Some (len, stop)"
    "len \<le> 18" "agree m ref i len" "if stop then 2 < len else len = 18 \<and> agree m ref i (len + 1)" by auto
  show ?thesis
  proof (cases stop)
    case stop: True
    then show ?thesis using l True assms(5) by (auto simp: match_len_def MAX_REF_def)
  next
    case False
    have "i + maxlen \<le> length m" using assms by simp
    from match_more_ok [OF _ assms(2) this, of len] l(4) False obtain len' where
      "match_more m ref i maxlen len = Some len'" "len < len'" "len' \<le> max (len + 1) maxlen" "agree m ref i len'" by auto
    then show ?thesis using l False True assms(3,5) by (auto simp: match_len_def MAX_REF_def)
  qed
next
  case False
  have "agree m ref i (2 + 1)" "i + maxlen \<le> length m" using assms by simp_all
  from match_more_ok [OF this(1) assms(2) this(2)] obtain len where
    "match_more m ref i maxlen 2 = Some len" "2 < len" "len \<le> max 3 maxlen" "agree m ref i len" by auto
  then show ?thesis using False assms(3,5) by (auto simp: match_len_def MAX_REF_def)
qed

lemma is_match_ok:
  assumes "ref < 2 ^ 64 - int MAX_OFF" "i + 2 < length m" "int (length m) < 2 ^ 64"
  shows "\<exists>b. is_match m i ref = Some b \<and>
    (b \<longrightarrow> (\<exists>r off. ref = int r \<and> i = r + off + 1 \<and> off < 8192 \<and> (int i - ref - 1) mod 2 ^ 64 = int off \<and> agree m r i 3))"
proof (cases "(int i - ref - 1) mod 2 ^ 64 < int MAX_OFF \<and> ref > 0")
  case False
  then show ?thesis by (auto simp: is_match_def)
next
  case True
  have lt: "ref < int i"
  proof (rule ccontr)
    assume "\<not> ref < int i"
    then have "(int i - ref - 1) mod 2 ^ 64 = int i - ref - 1 + 2 ^ 64"
      using assms by (subst mod_add_self2 [symmetric], intro mod_pos_pos_trivial) (simp_all add: MAX_OFF_def)
    then show False using True assms(1) by simp
  qed
  then have e: "(int i - ref - 1) mod 2 ^ 64 = int i - ref - 1" using True assms(2,3) by (intro mod_pos_pos_trivial) simp_all
  obtain r where r: "ref = int r" using True by (metis less_imp_le zero_le_imp_eq_int)
  obtain off where off: "i = r + off + 1" using lt r by (metis Suc_eq_plus1 add_Suc_right less_iff_Suc_add of_nat_less_iff)
  have o: "off < 8192" using True e r off by (simp add: MAX_OFF_def)
  have "is_match m i ref = Some (m ! (r + 2) = m ! (i + 2) \<and> m ! r = m ! i \<and> m ! (r + 1) = m ! (i + 1))"
    using True r off assms(2) by (simp add: is_match_def get_Some)
  moreover have "m ! (r + 2) = m ! (i + 2) \<and> m ! r = m ! i \<and> m ! (r + 1) = m ! (i + 1) \<Longrightarrow> agree m r i 3"
    by (auto simp: numeral_3_eq_3 less_Suc_eq numeral_2_eq_2)
  ultimately show ?thesis using r off o e by auto
qed

text \<open>
  The state between two steps: \<open>st\<close> is the place of the length byte of the open run. What is before \<open>st\<close> stands for the
  input before the run, and the run holds the last \<open>lit\<close> bytes of it.
\<close>

definition run_ok :: "byte list \<Rightarrow> nat \<Rightarrow> nat \<Rightarrow> lzf_state \<Rightarrow> nat \<Rightarrow> bool" where
  "run_ok m in_len cap s st \<longleftrightarrow>
     op s = int (st + 1 + lit s) \<and> lit s \<le> ip s \<and> ip s \<le> in_len \<and>
     st \<le> cap \<and> length (out s) = cap \<and> (0 < lit s \<longrightarrow> st + 1 + lit s \<le> cap) \<and>
     take (lit s) (drop (st + 1) (out s)) = take (lit s) (drop (ip s - lit s) m) \<and>
     decode [] (take st (out s)) = Some (take (ip s - lit s) m) \<and>
     (\<forall>i. htab s i < 2 ^ 64 - int MAX_OFF)"

lemma take_update_snoc: "p < length xs \<Longrightarrow> take (p + 1) (xs[p := b]) = take p xs @ [b]"
  by (simp add: take_Suc_conv_app_nth)

lemma emit_ok:
  "op s = int p \<Longrightarrow> p < length (out s) \<Longrightarrow> emit s b = Some (s\<lparr>out := (out s)[p := b], op := int (p + 1)\<rparr>)"
  by (simp add: emit_def put_Some)

lemma stop_run_ok:
  assumes "run_ok m in_len cap s st" "st < cap" "lit s \<le> 32" "in_len \<le> length m"
  shows "stop_run s = Some (s\<lparr>out := (out s)[st := of_int (int (lit s) - 1)]\<rparr>)"
    and "decode [] (take (if lit s = 0 then st else st + 1 + lit s) ((out s)[st := of_int (int (lit s) - 1)])) = Some (take (ip s) m)"
proof -
  have op: "op s - int (lit s) - 1 = int st" using assms(1) by (simp add: run_ok_def)
  show "stop_run s = Some (s\<lparr>out := (out s)[st := of_int (int (lit s) - 1)]\<rparr>)"
    unfolding stop_run_def op using assms(1,2) by (simp add: put_Some run_ok_def)
  show "decode [] (take (if lit s = 0 then st else st + 1 + lit s) ((out s)[st := of_int (int (lit s) - 1)])) = Some (take (ip s) m)"
  proof (cases "lit s")
    case 0
    then show ?thesis using assms(1) by (simp add: run_ok_def)
  next
    case (Suc k)
    define c :: byte where "c = of_int (int (lit s) - 1)"
    have c: "unat c = k" using assms(3) Suc by (simp add: c_def unat_of_nat)
    let ?run = "take (lit s) (drop (st + 1) (out s))"
    have "st + 1 + lit s \<le> length (out s)" using assms(1) Suc by (simp add: run_ok_def)
    then have len: "length ?run = k + 1" using Suc by simp
    have "take (st + 1 + lit s) ((out s)[st := c]) = take (st + 1) ((out s)[st := c]) @ take (lit s) (drop (st + 1) ((out s)[st := c]))"
      by (rule take_add)
    also have "\<dots> = take st (out s) @ c # ?run"
      using assms(1,2) by (simp only: take_update_snoc run_ok_def) simp
    finally have "decode [] (take (st + 1 + lit s) ((out s)[st := c])) = decode (take (ip s - lit s) m) (c # ?run)"
      using assms(1) by (simp add: decode_append run_ok_def)
    also have "\<dots> = Some (take (ip s - lit s) m @ ?run)"
      using decode_literal [of c ?run] c len Suc assms(3) by simp
    also have "take (ip s - lit s) m @ ?run = take (ip s) m"
      using assms(1) take_add [of "ip s - lit s" "lit s" m] by (simp add: run_ok_def)
    finally show ?thesis using Suc by (simp add: c_def)
  qed
qed

lemma run_ok_append:
  assumes "run_ok m in_len cap s st" "st + 1 + lit s < cap" "ip s < in_len" "in_len \<le> length m"
  shows "run_ok m in_len cap (s\<lparr>lit := lit s + 1, out := (out s)[st + 1 + lit s := m ! ip s], op := int (st + 1 + lit s + 1), ip := ip s + 1\<rparr>) st"
proof -
  let ?p = "st + 1 + lit s"
  have "take (lit s + 1) (drop (st + 1) ((out s)[?p := m ! ip s])) = take (lit s + 1) ((drop (st + 1) (out s))[lit s := m ! ip s])"
    by (simp add: drop_update_swap)
  also have "\<dots> = take (lit s) (drop (st + 1) (out s)) @ [m ! ip s]"
    using assms(1,2) by (intro take_update_snoc) (simp add: run_ok_def)
  also have "\<dots> = take (lit s) (drop (ip s - lit s) m) @ [m ! ip s]" using assms(1) by (simp add: run_ok_def)
  also have "\<dots> = take (lit s + 1) (drop (ip s - lit s) m)"
    using assms by (simp add: run_ok_def take_Suc_conv_app_nth)
  finally show ?thesis using assms by (simp add: run_ok_def)
qed

lemma literal_ok:
  assumes inv: "run_ok m in_len cap s st" "lit s < 32" and room: "st + 1 + lit s < cap" and i: "ip s < in_len" "in_len \<le> length m"
  shows "\<exists>s' st'. literal m s = Some s' \<and> run_ok m in_len cap s' st' \<and> lit s' < 32 \<and> ip s' = ip s + 1 \<and>
    st' + lit s' = st + lit s + 1 + of_bool (lit s = 31) \<and> (lit s = 31 \<longrightarrow> lit s' = 0) \<and> (lit s \<noteq> 31 \<longrightarrow> lit s' = lit s + 1)"
proof -
  define s1 where "s1 = s\<lparr>lit := lit s + 1, out := (out s)[st + 1 + lit s := m ! ip s], op := int (st + 1 + lit s + 1), ip := ip s + 1\<rparr>"
  have r1: "run_ok m in_len cap s1 st" unfolding s1_def by (rule run_ok_append [OF inv(1) room i])
  have e: "emit (s\<lparr>lit := lit s + 1\<rparr>) (m ! ip s) = Some (s\<lparr>lit := lit s + 1, out := (out s)[st + 1 + lit s := m ! ip s], op := int (st + 1 + lit s + 1)\<rparr>)"
    using inv(1) room by (subst emit_ok [where p = "st + 1 + lit s"]) (simp_all add: run_ok_def)
  have l: "literal m s = (if lit s1 = MAX_LIT then do { s \<leftarrow> stop_run s1; Some (s\<lparr>lit := 0, op := op s + 1\<rparr>) } else Some s1)"
    using i e by (simp add: literal_def get_Some s1_def)
  show ?thesis
  proof (cases "lit s = 31")
    case False
    then show ?thesis using l r1 inv(2) by (auto simp: MAX_LIT_def s1_def)
  next
    case True
    then have l1: "lit s1 = 32" by (simp add: s1_def)
    have st: "st < cap" "lit s1 \<le> 32" using room l1 by simp_all
    note sr = stop_run_ok [OF r1 st i(2)]
    define s2 where "s2 = s1\<lparr>out := (out s1)[st := of_int (int (lit s1) - 1)], lit := 0, op := op s1 + 1\<rparr>"
    have l2: "literal m s = Some s2" using l l1 sr(1) by (simp add: MAX_LIT_def s2_def)
    have "run_ok m in_len cap s2 (st + 33)"
      using sr(2) r1 room True l1 by (simp add: run_ok_def s2_def add.commute)
    then show ?thesis using l2 True by (intro exI [of _ s2] exI [of _ "st + 33"]) (simp add: s2_def s1_def)
  qed
qed

lemma unat_byte: "n < 256 \<Longrightarrow> unat (of_nat n :: byte) = n"
  by (simp add: unat_of_nat)

lemma ref_token_short:
  assumes "off < 8192" "1 \<le> len" "len < 7"
  shows "ref_token (of_nat (off div 256 + len * 32)) (of_nat off # rest) = Some (len, off, rest)"
    and "\<not> unat (of_nat (off div 256 + len * 32) :: byte) < 32"
proof -
  have o: "unat (of_nat off :: byte) = off mod 256" by (simp add: unat_of_nat)
  have u: "unat (of_nat (off div 256 + len * 32) :: byte) = off div 256 + len * 32"
    using assms by (intro unat_byte) simp
  have "(off div 256 + len * 32) div 32 = len" "(off div 256 + len * 32) mod 32 = off div 256" using assms by auto
  then show "ref_token (of_nat (off div 256 + len * 32)) (of_nat off # rest) = Some (len, off, rest)"
    "\<not> unat (of_nat (off div 256 + len * 32) :: byte) < 32"
    unfolding ref_token_def u list.case using assms by (simp_all add: o)
qed

lemma high_ref: "x < 32 \<Longrightarrow> (x + 224) div 32 = 7" "x < 32 \<Longrightarrow> (x + 224) mod 32 = x" for x :: nat
  by (simp_all add: div_nat_eqI mod_nat_eqI)

lemma ref_token_long:
  assumes "off < 8192" "7 \<le> len" "len \<le> 262"
  shows "ref_token (of_nat (off div 256 + 224)) (of_nat (len - 7) # of_nat off # rest) = Some (len, off, rest)"
    and "\<not> unat (of_nat (off div 256 + 224) :: byte) < 32"
proof -
  have o: "unat (of_nat off :: byte) = off mod 256" by (simp add: unat_of_nat)
  have l: "unat (of_nat (len - 7) :: byte) = len - 7" using assms by (intro unat_byte) simp
  have u: "unat (of_nat (off div 256 + 224) :: byte) = off div 256 + 224" using assms by (intro unat_byte) simp
  have x: "off div 256 < 32" using assms by auto
  note d = high_ref [OF x]
  have "7 + (len - 7) = len" using assms by simp
  then show "ref_token (of_nat (off div 256 + 224)) (of_nat (len - 7) # of_nat off # rest) = Some (len, off, rest)"
    unfolding ref_token_def u d l list.case by (simp add: o)
  show "\<not> unat (of_nat (off div 256 + 224) :: byte) < 32" unfolding u by simp
qed

lemma emit_ref_ok:
  assumes "op s = int p" "p + 3 \<le> length (out s)" and dec: "decode [] (take p (out s)) = Some acc"
    and off: "off < 8192" "off + 1 \<le> length acc" and len: "1 \<le> len" "len \<le> 262"
  shows "\<exists>out' p'. emit_ref off len s = Some (s\<lparr>out := out', op := int p'\<rparr>) \<and> length out' = length (out s) \<and> p' \<le> p + 3 \<and>
    decode [] (take p' out') = Some (extend acc (length acc - (off + 1)) (len + 2))"
proof (cases "len < 7")
  case True
  define a b :: byte where "a = of_nat (off div 256 + len * 32)" and "b = of_nat off"
  let ?out = "(out s)[p := a, p + 1 := b]"
  have "emit_ref off len s = Some (s\<lparr>out := ?out, op := int (p + 2)\<rparr>)"
    using True assms(1,2) by (simp add: emit_ref_def emit_ok [of _ p] emit_ok [of _ "p + 1"] a_def b_def)
  moreover have "take (p + 2) ?out = take p (out s) @ [a, b]"
    using assms(2) take_update_snoc [of "p + 1" "(out s)[p := a]" b] take_update_snoc [of p "out s" a] by simp
  then have "decode [] (take (p + 2) ?out) = decode acc [a, b]" using decode_append [OF dec] by simp
  then have "decode [] (take (p + 2) ?out) = Some (extend acc (length acc - (off + 1)) (len + 2))"
    using decode_ref [OF ref_token_short(2,1) [OF off(1) len(1) True] off(2)] by (simp add: a_def b_def)
  ultimately show ?thesis by (intro exI [of _ ?out] exI [of _ "p + 2"]) simp
next
  case False
  define a b c :: byte where "a = of_nat (off div 256 + 224)" and "b = of_nat (len - 7)" and "c = of_nat off"
  let ?out = "(out s)[p := a, p + 1 := b, p + 2 := c]"
  have "emit_ref off len s = Some (s\<lparr>out := ?out, op := int (p + 3)\<rparr>)"
    using False assms(1,2) by (simp add: emit_ref_def emit_ok [of _ p] emit_ok [of _ "p + 1"] emit_ok [of _ "p + 2"] a_def b_def c_def)
  moreover have "take (p + 3) ?out = take p (out s) @ [a, b, c]"
    using assms(2) take_update_snoc [of "p + 2" "(out s)[p := a, p + 1 := b]" c] take_update_snoc [of "p + 1" "(out s)[p := a]" b]
      take_update_snoc [of p "out s" a] by (simp add: numeral_3_eq_3)
  then have "decode [] (take (p + 3) ?out) = decode acc [a, b, c]" using decode_append [OF dec] by simp
  then have "decode [] (take (p + 3) ?out) = Some (extend acc (length acc - (off + 1)) (len + 2))"
    using decode_ref [OF ref_token_long(2,1) [OF off(1) _ len(2)] off(2)] False by (simp add: a_def b_def c_def)
  ultimately show ?thesis by (intro exI [of _ ?out] exI [of _ "p + 3"]) simp
qed

lemma rehash_ok:
  assumes "2 \<le> ip s" "ip s + 1 < length m" "\<forall>i. htab s i < B" "int (ip s) < B"
  shows "\<exists>ht h. rehash m s = Some (s\<lparr>htab := ht, hval := h\<rparr>) \<and> (\<forall>i. ht i < B)"
proof -
  obtain i where i: "ip s = Suc (Suc i)" using assms(1) by (metis add_2_eq_Suc le_Suc_ex)
  show ?thesis using assms(2-4) i by (cases s) (simp add: rehash_def FRST_def NEXT_def get_Some)
qed

lemma run_ok_restart:
  assumes "decode [] (take st o1) = Some (take i m)" "st \<le> cap" "length o1 = cap" "i \<le> in_len" "\<forall>i. ht i < 2 ^ 64 - int MAX_OFF"
  shows "run_ok m in_len cap \<lparr>ip = i, op = int st + 1, lit = 0, htab = ht, hval = h, out = o1\<rparr> st"
  using assms by (simp add: run_ok_def)

definition step_post :: "byte list \<Rightarrow> nat \<Rightarrow> nat \<Rightarrow> nat \<Rightarrow> byte list + (lzf_state \<times> bool) \<Rightarrow> bool" where
  "step_post m in_len cap i r =
     (case r of
        Inl o1 \<Rightarrow> length o1 = cap
      | Inr (s, stop) \<Rightarrow> (\<exists>st. run_ok m in_len cap s st) \<and> lit s < 32 \<and> i < ip s \<and> (stop \<longrightarrow> in_len \<le> ip s + 2))"

lemma match_found_ok:
  assumes inv: "run_ok m in_len cap s st" "lit s < 32" and i: "ip s + 2 < in_len" "in_len \<le> length m" "int (length m) < 2 ^ 64 - int MAX_OFF"
    and ref: "ip s = r + off + 1" "off < 8192" "(int (ip s) - int r - 1) mod 2 ^ 64 = int off" "agree m r (ip s) 3"
  shows "\<exists>x. match_found m in_len (int r) s = Some x \<and> step_post m in_len cap (ip s) x"
proof (cases "op s - of_bool (lit s = 0) + 3 + 1 \<ge> int (length (out s))")
  case True
  moreover have "op s + 3 + 1 \<ge> op s - of_bool (lit s = 0) + 3 + 1" by simp
  ultimately have "match_found m in_len (int r) s = Some (Inl (out s))"
    unfolding match_found_def Let_def by (intro if_P) linarith
  then show ?thesis using inv(1) by (simp add: step_post_def run_ok_def)
next
  case False
  define p where "p = (if lit s = 0 then st else st + 1 + lit s)"
  have opp: "op s - of_bool (lit s = 0) = int p" using inv(1) by (simp add: p_def run_ok_def)
  have room: "p + 4 < cap" using False inv(1) unfolding opp by (simp add: run_ok_def)
  then have "st < cap" "lit s \<le> 32" using inv(2) by (simp_all add: p_def split: if_splits)
  note sr = stop_run_ok [OF inv(1) this i(2)]
  define o1 where "o1 = (out s)[st := of_int (int (lit s) - 1)]"
  define s1 where "s1 = s\<lparr>out := o1, op := int p\<rparr>"
  obtain len where len: "match_len m r (ip s) (min MAX_REF (in_len - ip s - 2)) = Some len" "3 \<le> len" "len \<le> 264"
      "ip s + len \<le> in_len" "agree m r (ip s) len"
    using match_len_ok [OF ref(4) _ i(1,2) refl] ref(1) by auto
  have acc: "off + 1 \<le> length (take (ip s) m)" using ref(1) i by simp
  have "decode [] (take p o1) = Some (take (ip s) m)" using sr(2) by (simp only: p_def o1_def)
  moreover have "length (take (ip s) m) - (off + 1) = r" "len - 2 + 2 = len" using ref(1) i len(2) by auto
  moreover have "extend (take (ip s) m) r len = take (ip s + len) m"
    using ref(1) i(2) len(4,5) by (intro extend_periodic [OF refl]) auto
  moreover have "length o1 = cap" using inv(1) by (simp add: o1_def run_ok_def)
  ultimately obtain out' p' where e: "emit_ref off (len - 2) (s1\<lparr>ip := ip s + 1\<rparr>) = Some (s1\<lparr>ip := ip s + 1, out := out', op := int p'\<rparr>)"
    "length out' = cap" "p' \<le> cap" "decode [] (take p' out') = Some (take (ip s + len) m)"
    using emit_ref_ok [of "s1\<lparr>ip := ip s + 1\<rparr>" p "take (ip s) m" off "len - 2"] room acc ref(2) len(2,3)
    by (fastforce simp: s1_def)
  define s2 where "s2 = \<lparr>ip = ip s + len, op = int p' + 1, lit = 0, htab = htab s, hval = hval s, out = out'\<rparr>"
  have mf: "match_found m in_len (int r) s =
      (if ip s2 \<ge> in_len - 2 then Some (Inr (s2, True)) else do { s \<leftarrow> rehash m s2; Some (Inr (s, False)) })"
  proof -
    have c: "\<not> (op s + 3 + 1 \<ge> int (length (out s)) \<and> op s - of_bool (lit s = 0) + 3 + 1 \<ge> int (length (out s)))" using False by simp
    have mx: "(if in_len - ip s - 2 > MAX_REF then MAX_REF else in_len - ip s - 2) = min MAX_REF (in_len - ip s - 2)" by simp
    have s2': "s\<lparr>out := out', lit := 0, op := int p' + 1, ip := Suc (Suc (ip s + len - 2))\<rparr> = s2" "ip s2 = ip s + len"
      using len(2) by (cases s, simp_all add: s2_def)
    have "s\<lparr>out := o1, op := op s - of_bool (lit s = 0)\<rparr> = s1" by (simp add: s1_def opp)
    then show ?thesis
      unfolding match_found_def Let_def ref(3) mx if_not_P [OF c] sr(1) o1_def [symmetric]
      using len(1) e(1) len(2) s2' by (simp add: s1_def)
  qed
  have h: "\<forall>i. htab s i < 2 ^ 64 - int MAX_OFF" using inv(1) by (simp add: run_ok_def)
  show ?thesis
  proof (cases "ip s2 \<ge> in_len - 2")
    case True
    have "run_ok m in_len cap s2 p'" unfolding s2_def by (rule run_ok_restart [OF e(4,3,2) len(4) h])
    then show ?thesis using mf True len(2) by (auto simp: step_post_def s2_def)
  next
    case False
    then have "2 \<le> ip s2" "ip s2 + 1 < length m" "\<forall>i. htab s2 i < 2 ^ 64 - int MAX_OFF" "int (ip s2) < 2 ^ 64 - int MAX_OFF"
      using i h len(2) by (auto simp: s2_def)
    then obtain ht hv where rh: "rehash m s2 = Some (s2\<lparr>htab := ht, hval := hv\<rparr>)" "\<forall>i. ht i < 2 ^ 64 - int MAX_OFF"
      using rehash_ok [of s2 m "2 ^ 64 - int MAX_OFF"] by blast
    have "run_ok m in_len cap (s2\<lparr>htab := ht, hval := hv\<rparr>) p'"
      using run_ok_restart [OF e(4,3,2) len(4) rh(2), of hv] by (simp add: s2_def)
    then show ?thesis using mf False rh(1) len(2) by (auto simp: step_post_def s2_def)
  qed
qed

lemma compress_step_ok:
  assumes inv: "run_ok m in_len cap s st" "lit s < 32" and i: "ip s + 2 < in_len" "in_len \<le> length m" "int (length m) < 2 ^ 64 - int MAX_OFF"
  shows "\<exists>x. compress_step m in_len s = Some x \<and> step_post m in_len cap (ip s) x"
proof -
  obtain h where h: "NEXT (hval s) m (ip s) = Some h" using i by (simp add: NEXT_def get_Some)
  define s1 where "s1 = s\<lparr>hval := h, htab := (htab s)(IDX h := int (ip s))\<rparr>"
  have r1: "run_ok m in_len cap s1 st" "lit s1 < 32" and ip1: "ip s1 = ip s" using inv i by (simp_all add: run_ok_def s1_def)
  have "htab s (IDX h) < 2 ^ 64 - int MAX_OFF" using inv(1) by (simp add: run_ok_def)
  from is_match_ok [OF this, of "ip s1" m] i ip1 obtain b where b: "is_match m (ip s1) (htab s (IDX h)) = Some b"
    "b \<longrightarrow> (\<exists>r off. htab s (IDX h) = int r \<and> ip s1 = r + off + 1 \<and> off < 8192 \<and> (int (ip s1) - htab s (IDX h) - 1) mod 2 ^ 64 = int off \<and> agree m r (ip s1) 3)"
    by auto
  have step: "compress_step m in_len s = (if b then match_found m in_len (htab s (IDX h)) s1
      else if op s1 \<ge> int (length (out s1)) then Some (Inl (out s1)) else do { s \<leftarrow> literal m s1; Some (Inr (s, False)) })"
    unfolding compress_step_def Let_def h using b(1) by (simp add: s1_def)
  consider "b" | "\<not> b" "op s1 \<ge> int (length (out s1))" | "\<not> b" "\<not> op s1 \<ge> int (length (out s1))" by blast
  then show ?thesis
  proof cases
    case 1
    with b(2) obtain r off where r: "htab s (IDX h) = int r" "ip s1 = r + off + 1" "off < 8192"
      "(int (ip s1) - int r - 1) mod 2 ^ 64 = int off" "agree m r (ip s1) 3" by auto
    from match_found_ok [OF r1 _ i(2,3) r(2-5)] i(1) ip1 1 r(1) show ?thesis unfolding step by simp
  next
    case 2
    then show ?thesis using r1(1) unfolding step by (simp add: step_post_def run_ok_def)
  next
    case 3
    have "st + 1 + lit s1 < cap" using 3 r1(1) by (simp add: run_ok_def)
    from literal_ok [OF r1 this _ i(2)] ip1 i(1) 3 show ?thesis unfolding step by (auto simp: step_post_def)
  qed
qed

lemma compress_loop_ok:
  assumes i: "in_len \<le> length m" "int (length m) < 2 ^ 64 - int MAX_OFF"
  shows "run_ok m in_len cap s st \<Longrightarrow> lit s < 32 \<Longrightarrow>
    \<exists>r. compress_loop m in_len s = Some r \<and>
      (case r of Inl o1 \<Rightarrow> length o1 = cap | Inr s' \<Rightarrow> (\<exists>st'. run_ok m in_len cap s' st') \<and> lit s' < 32 \<and> in_len \<le> ip s' + 2)"
proof (induction "in_len - ip s" arbitrary: s st rule: less_induct)
  case less
  show ?case
  proof (cases "ip s + 2 < in_len")
    case False
    then have "compress_loop m in_len s = Some (Inr s)" by (subst compress_loop.simps) simp
    then show ?thesis using False less.prems by auto
  next
    case True
    from compress_step_ok [OF less.prems True i] obtain x where x: "compress_step m in_len s = Some x" "step_post m in_len cap (ip s) x" by blast
    have l: "compress_loop m in_len s = (case x of Inl outm \<Rightarrow> Some (Inl outm) | Inr (s, stop) \<Rightarrow> if stop then Some (Inr s) else compress_loop m in_len s)"
      using True x(1) by (subst compress_loop.simps) simp
    show ?thesis
    proof (cases x)
      case (Inl o1)
      then show ?thesis using l x(2) by (simp add: step_post_def)
    next
      case (Inr y)
      obtain s' stop where y: "y = (s', stop)" by (cases y)
      from x(2) obtain st' where p: "run_ok m in_len cap s' st'" "lit s' < 32" "ip s < ip s'" "stop \<longrightarrow> in_len \<le> ip s' + 2"
        unfolding Inr y by (auto simp: step_post_def)
      show ?thesis
      proof (cases stop)
        case True
        then show ?thesis using l p by (auto simp: Inr y)
      next
        case False
        have "in_len - ip s' < in_len - ip s" using p(3) \<open>ip s + 2 < in_len\<close> by simp
        from less.hyps [OF this p(1,2)] show ?thesis using l False by (simp add: Inr y)
      qed
    qed
  qed
qed

lemma tail_loop_ok:
  "run_ok m in_len cap s st \<Longrightarrow> lit s < 32 \<Longrightarrow> in_len \<le> length m \<Longrightarrow> ip s + k = in_len \<Longrightarrow> k < 32 \<Longrightarrow>
     st + 1 + lit s + k + of_bool (lit s + k \<ge> 32) \<le> cap \<Longrightarrow>
     \<exists>s' st'. tail_loop m k s = Some s' \<and> run_ok m in_len cap s' st' \<and> lit s' < 32 \<and> ip s' = in_len \<and> st' + 1 + lit s' \<le> cap"
proof (induction k arbitrary: s st)
  case (Suc k)
  have "st + 1 + lit s < cap" "ip s < in_len" using Suc.prems(4,6) by simp_all
  from literal_ok [OF Suc.prems(1,2) this Suc.prems(3)] obtain s1 st1 where s1:
    "literal m s = Some s1" "run_ok m in_len cap s1 st1" "lit s1 < 32" "ip s1 = ip s + 1"
    "st1 + lit s1 = st + lit s + 1 + of_bool (lit s = 31)" "lit s = 31 \<longrightarrow> lit s1 = 0" "lit s \<noteq> 31 \<longrightarrow> lit s1 = lit s + 1" by blast
  have "st1 + 1 + lit s1 + k + of_bool (lit s1 + k \<ge> 32) \<le> cap"
    using Suc.prems(5,6) s1(5-7) by (cases "lit s = 31") auto
  with Suc.IH [OF s1(2,3) Suc.prems(3)] s1(1,4) Suc.prems(4,5) show ?case by simp
qed auto

lemma lzf_compress_ok:
  assumes i: "in_len \<le> length m" "2 \<le> length m" "int (length m) < 2 ^ 64 - int MAX_OFF" and j: "\<forall>i. junk i < 2 ^ 64 - int MAX_OFF"
  shows "\<exists>o1 n. lzf_compress junk m in_len o0 = Some (o1, n) \<and> length o1 = length o0 \<and> n \<le> length o0 \<and>
    (0 < n \<longrightarrow> decode [] (take n o1) = Some (take in_len m))"
proof (cases "in_len = 0 \<or> length o0 = 0")
  case True
  then show ?thesis by (auto simp: lzf_compress_def)
next
  case False
  obtain h where h: "FRST m 0 = Some h" using i(2) by (cases m; cases "tl m") (auto simp: FRST_def get_def)
  define s0 where "s0 = \<lparr>ip = 0, op = 1, lit = 0, htab = junk, hval = h, out = o0\<rparr>"
  have s0: "run_ok m in_len (length o0) s0 0" "lit s0 < 32" using j by (simp_all add: s0_def run_ok_def)
  from compress_loop_ok [OF i(1,3) s0] obtain r where r: "compress_loop m in_len s0 = Some r"
    "case r of Inl o1 \<Rightarrow> length o1 = length o0 | Inr s \<Rightarrow> (\<exists>st. run_ok m in_len (length o0) s st) \<and> lit s < 32 \<and> in_len \<le> ip s + 2"
    by blast
  show ?thesis
  proof (cases r)
    case (Inl o1)
    then show ?thesis using False h r by (simp add: lzf_compress_def s0_def)
  next
    case (Inr s)
    then obtain st where s: "run_ok m in_len (length o0) s st" "lit s < 32" "in_len \<le> ip s + 2" using r(2) by auto
    show ?thesis
    proof (cases "op s + 3 > int (length (out s))")
      case True
      then show ?thesis using False h r Inr s(1) by (simp add: lzf_compress_def s0_def run_ok_def)
    next
      case room: False
      have k: "ip s + (in_len - ip s) = in_len" "in_len - ip s < 32"
        "st + 1 + lit s + (in_len - ip s) + of_bool (lit s + (in_len - ip s) \<ge> 32) \<le> length o0"
        using room s by (auto simp: run_ok_def)
      from tail_loop_ok [OF s(1,2) i(1) k] obtain s1 st1 where t: "tail_loop m (in_len - ip s) s = Some s1"
        "run_ok m in_len (length o0) s1 st1" "lit s1 < 32" "ip s1 = in_len" "st1 + 1 + lit s1 \<le> length o0" by blast
      have st: "st1 < length o0" "lit s1 \<le> 32" using t(3,5) by simp_all
      note sr = stop_run_ok [OF t(2) st i(1)]
      let ?o = "(out s1)[st1 := of_int (int (lit s1) - 1)]" and ?n = "if lit s1 = 0 then st1 else st1 + 1 + lit s1"
      have "nat (op s1 - of_bool (lit s1 = 0)) = ?n" using t(2) by (simp add: run_ok_def nat_add_distrib)
      then have "lzf_compress junk m in_len o0 = Some (?o, ?n)"
        using False h r(1) Inr room t(1) sr(1) by (simp add: lzf_compress_def s0_def)
      then show ?thesis using sr(2) t(2,4,5) by (simp add: run_ok_def)
    qed
  qed
qed

lemma lzf_decompress_ok:
  "\<exists>d1 r. lzf_decompress inp d0 = Some (d1, r) \<and> length d1 = length d0 \<and>
     (case r of
        Inr n \<Rightarrow> n \<le> length d0 \<and> decode [] inp = Some (take n d1)
      | Inl E2BIG \<Rightarrow> (\<forall>bs. decode [] inp = Some bs \<longrightarrow> length d0 < length bs)
      | Inl EINVAL \<Rightarrow> decode [] inp = None)"
proof -
  have p: "decompress_post [] inp (length d0) (decompress_loop inp d0 0)" using decompress_loop_ok [of 0 d0 inp] by simp
  then obtain d1 r where d: "decompress_loop inp d0 0 = Some (d1, r)" by (auto simp: decompress_post_def split: option.splits)
  show ?thesis
    using p d by (intro exI [of _ d1] exI [of _ r]) (auto simp: lzf_decompress_def decompress_post_def split: sum.splits lzf_errno.splits)
qed

lemmas lzf_eval = lzf_compress_def FRST_def NEXT_def get_def compress_loop.simps compress_step_def IDX_def HLOG_def is_match_def
  match_found_def Let_def MAX_OFF_def MAX_REF_def match_len_def match_more.simps emit_ref_def literal_def emit_def put_def stop_run_def MAX_LIT_def

lemma compress_six:
  "lzf_compress (\<lambda>_. 0) [97, 97, 97, 97, 97, 97] 6 [0, 0, 0, 0, 0, 0, 0, 0, 0, 0, 0, 0] =
     Some ([1, 97, 97, 32, 0, 0, 97, 0, 0, 0, 0, 0], 7)"
  by (simp add: lzf_eval)

section \<open>Properties\<close>

text \<open>
  C3. \<open>lzf_compress\<close> and \<open>lzf_decompress\<close> round trip. For every input of which at least two bytes are addressable, every
  output buffer and every content of the uninitialised hash table, the compressor returns without an access
  outside the input or the output buffer. When the length it returns is not \<open>0\<close>, the decompressor restores the input
  from that many bytes in every buffer that is large enough. The table's entries are addresses: they are below
  \<open>2^64\<close>, and the input is not in the first \<open>8192\<close> bytes of the address space.
\<close>
theorem lzf_roundtrip:
  assumes "in_len \<le> length m" "2 \<le> length m" "int (length m) < 2 ^ 64 - int MAX_OFF" "\<forall>i. junk i < 2 ^ 64 - int MAX_OFF"
  shows "\<exists>o1 n. lzf_compress junk m in_len o0 = Some (o1, n) \<and> length o1 = length o0 \<and> n \<le> length o0 \<and>
    (0 < n \<longrightarrow> (\<forall>d0. in_len \<le> length d0 \<longrightarrow>
       (\<exists>d1. lzf_decompress (take n o1) d0 = Some (d1, Inr in_len) \<and> take in_len d1 = take in_len m \<and> length d1 = length d0)))"
proof -
  from lzf_compress_ok [OF assms] obtain o1 n where c: "lzf_compress junk m in_len o0 = Some (o1, n)" "length o1 = length o0"
    "n \<le> length o0" "0 < n \<longrightarrow> decode [] (take n o1) = Some (take in_len m)" by blast
  have "\<exists>d1. lzf_decompress (take n o1) d0 = Some (d1, Inr in_len) \<and> take in_len d1 = take in_len m \<and> length d1 = length d0"
    if n: "0 < n" "in_len \<le> length d0" for d0
  proof -
    from lzf_decompress_ok [of "take n o1" d0] obtain d1 r where d: "lzf_decompress (take n o1) d0 = Some (d1, r)"
      "length d1 = length d0" "case r of Inr k \<Rightarrow> k \<le> length d0 \<and> decode [] (take n o1) = Some (take k d1)
       | Inl E2BIG \<Rightarrow> (\<forall>bs. decode [] (take n o1) = Some bs \<longrightarrow> length d0 < length bs)
       | Inl EINVAL \<Rightarrow> decode [] (take n o1) = None" by blast
    then obtain k where k: "r = Inr k" "k \<le> length d0" "take k d1 = take in_len m"
      using c(4) n assms(1) by (auto split: sum.splits lzf_errno.splits)
    then have "k = in_len" using d(2) assms(1) by (auto dest: arg_cong [where f = length])
    then show ?thesis using d k by simp
  qed
  with c show ?thesis by blast
qed

theorem lzf_roundtrip_witness:
  "\<exists>d1. lzf_decompress [1, 97, 97, 32, 0, 0, 97] (replicate 9 0) = Some (d1, Inr 6) \<and> take 6 d1 = [97, 97, 97, 97, 97, 97]"
proof -
  have "\<forall>i. (\<lambda>_. 0 :: int) (i :: nat) < 2 ^ 64 - int MAX_OFF" by (simp add: MAX_OFF_def)
  from lzf_roundtrip [of 6 "[97, 97, 97, 97, 97, 97]" "\<lambda>_. 0" "[0, 0, 0, 0, 0, 0, 0, 0, 0, 0, 0, 0]", OF _ _ _ this]
  have "\<forall>d0. 6 \<le> length d0 \<longrightarrow> (\<exists>d1. lzf_decompress [1, 97, 97, 32, 0, 0, 97] d0 = Some (d1, Inr 6) \<and>
      take 6 d1 = [97, 97, 97, 97, 97, 97])"
    unfolding compress_six by (auto simp: MAX_OFF_def)
  then show ?thesis by simp
qed



end
