(* ===== verification/Scanner.thy ===== *)
theory Scanner
  imports Prelude
begin

text \<open>
  Byte scanners: loops \<open>for (p = pos; p < last; p++) { ch = *p; switch (state) ... }\<close> that keep their state between
  calls, as the parsers of nginx do. Memory maps addresses to bytes; an address that is not mapped may not be
  read. The locale has the loop as an interface: one round either goes on, at the next byte or once more at the
  same byte, or returns. Its lemmas give the behaviour of the loop from that of a round: it ends, an invariant of
  the rounds holds at the end, stopping and resuming it is the same as one run, and two runs whose rounds
  simulate each other have the same outcome.
\<close>

type_synonym mem = "int \<Rightarrow> byte option"

abbreviation chr :: "char \<Rightarrow> byte" where "chr \<equiv> of_char"

abbreviation CR :: byte where "CR \<equiv> 13"

abbreviation LF :: byte where "LF \<equiv> 10"

text \<open>The bytes of the addresses from \<open>a\<close> on, and memory with bytes stored there.\<close>

fun mem_load :: "mem \<Rightarrow> int \<Rightarrow> nat \<Rightarrow> byte list option" where
  "mem_load mem a 0 = Some []"
| "mem_load mem a (Suc n) = do { b \<leftarrow> mem a; bs \<leftarrow> mem_load mem (a + 1) n; Some (b # bs) }"

definition mem_store :: "mem \<Rightarrow> int \<Rightarrow> byte list \<Rightarrow> mem" where
  "mem_store mem a bs = (\<lambda>x. if a \<le> x \<and> x < a + int (length bs) then Some (bs ! nat (x - a)) else mem x)"

locale scanner =
  fixes step :: "'s \<Rightarrow> int \<Rightarrow> ('s \<times> int + 'r) option"
    and scan :: "int \<Rightarrow> 's \<Rightarrow> int \<Rightarrow> ('s \<times> int + 'r) option"
    and rank :: "'s \<Rightarrow> nat"
  assumes scan_eq: "scan lst s p =
      (if p < lst then do {
         x \<leftarrow> step s p;
         case x of Inl (s', p') \<Rightarrow> scan lst s' p' | Inr r \<Rightarrow> Some (Inr r)
       } else Some (Inl (s, p)))"
    and step_advance: "step s p = Some (Inl (s', p')) \<Longrightarrow> p' = p + 1 \<or> p' = p \<and> rank s' < rank s"
begin

lemma scan_end: "lst \<le> p \<Longrightarrow> scan lst s p = Some (Inl (s, p))"
  by (subst scan_eq) simp

lemma scan_go: "p < lst \<Longrightarrow> step s p = Some (Inl (s', p')) \<Longrightarrow> scan lst s p = scan lst s' p'"
  by (subst scan_eq) simp

lemma scan_stop: "p < lst \<Longrightarrow> step s p = Some (Inr r) \<Longrightarrow> scan lst s p = Some (Inr r)"
  by (subst scan_eq) simp

lemma scan_fault: "p < lst \<Longrightarrow> step s p = None \<Longrightarrow> scan lst s p = None"
  by (subst scan_eq) simp

lemma scan_induct [case_names round]:
  assumes "\<And>s p. (\<And>s' p'. p < lst \<Longrightarrow> step s p = Some (Inl (s', p')) \<Longrightarrow> P s' p') \<Longrightarrow> P s p"
  shows "P s p"
proof (induction "(nat (lst - p), rank s)" arbitrary: s p rule: wf_induct_rule [OF wf_lex_prod [OF wf_less wf_less]])
  case (1 s p)
  show ?case
  proof (rule assms)
    fix s' p' assume "p < lst" and "step s p = Some (Inl (s', p'))"
    then show "P s' p'" using step_advance [of s p s' p'] by (intro "1.hyps") auto
  qed
qed

lemma scan_resume:
  assumes "lst \<le> lst'"
  shows "scan lst' s p = do {
      x \<leftarrow> scan lst s p;
      case x of Inl (s', p') \<Rightarrow> scan lst' s' p' | Inr r \<Rightarrow> Some (Inr r)
    }"
proof (induction s p rule: scan_induct [of lst])
  case (round s p)
  show ?case
  proof (cases "p < lst")
    case False
    then show ?thesis by (simp add: scan_end)
  next
    case True
    with assms have "p < lst'" by simp
    then consider "step s p = None" | s' p' where "step s p = Some (Inl (s', p'))" | r where "step s p = Some (Inr r)"
      by (cases "step s p"; cases "the (step s p)") auto
    then show ?thesis
      using True \<open>p < lst'\<close> round by cases (simp_all add: scan_fault scan_stop scan_go)
  qed
qed

lemma scan_inv:
  assumes round: "\<And>s p. I s p \<Longrightarrow> p < lst \<Longrightarrow> \<exists>x. step s p = Some x \<and> (case x of Inl (s', p') \<Rightarrow> I s' p' | Inr r \<Rightarrow> J r)"
    and "I s p" "p \<le> lst"
  shows "\<exists>x. scan lst s p = Some x \<and> (case x of Inl (s', p') \<Rightarrow> I s' p' \<and> p' = lst | Inr r \<Rightarrow> J r)"
  using assms(2,3)
proof (induction s p rule: scan_induct [of lst])
  case (round s p)
  show ?case
  proof (cases "p < lst")
    case False
    then show ?thesis using round.prems by (simp add: scan_end)
  next
    case True
    from assms(1) [OF round.prems(1) True] obtain x where
      x: "step s p = Some x" "case x of Inl (s', p') \<Rightarrow> I s' p' | Inr r \<Rightarrow> J r" by blast
    show ?thesis
    proof (cases x)
      case (Inl y)
      obtain s' p' where y: "y = (s', p')" by (cases y)
      have s: "step s p = Some (Inl (s', p'))" using x(1) Inl y by simp
      have "p' \<le> lst" using step_advance [OF s] True by auto
      then show ?thesis using round.IH [OF True s] x(2) scan_go [OF True s] by (simp add: Inl y)
    next
      case (Inr r)
      then show ?thesis using x True by (simp add: scan_stop)
    qed
  qed
qed

lemma scan_sim:
  assumes scan2: "\<And>s p. scan2 s p = (if p < lst2 then do {
         x \<leftarrow> step2 s p;
         case x of Inl (s', p') \<Rightarrow> scan2 s' p' | Inr r \<Rightarrow> Some (Inr r)
       } else Some (Inl (s, p)))"
    and ends: "\<And>s1 p1 s2 p2. R s1 p1 s2 p2 \<Longrightarrow> p1 < lst \<longleftrightarrow> p2 < lst2"
    and round: "\<And>s1 p1 s2 p2 x. R s1 p1 s2 p2 \<Longrightarrow> p1 < lst \<Longrightarrow> step s1 p1 = Some x \<Longrightarrow>
      \<exists>y. step2 s2 p2 = Some y \<and> rel_sum (\<lambda>(s1, p1) (s2, p2). R s1 p1 s2 p2) Q x y"
  shows "R s1 p1 s2 p2 \<Longrightarrow> scan lst s1 p1 = Some x \<Longrightarrow>
      \<exists>y. scan2 s2 p2 = Some y \<and> rel_sum (\<lambda>(s1, p1) (s2, p2). R s1 p1 s2 p2) Q x y"
proof (induction s1 p1 arbitrary: s2 p2 rule: scan_induct [of lst])
  case (round s1 p1)
  show ?case
  proof (cases "p1 < lst")
    case False
    then have "x = Inl (s1, p1)" "scan2 s2 p2 = Some (Inl (s2, p2))"
      using round.prems ends [OF round.prems(1)] scan2 [of s2 p2] by (simp_all add: scan_end)
    then show ?thesis using round.prems(1) by simp
  next
    case True
    then obtain z where z: "step s1 p1 = Some z" using round.prems(2) scan_fault [OF True] by fastforce
    from assms(3) [OF round.prems(1) True z] obtain y where
      y: "step2 s2 p2 = Some y" "rel_sum (\<lambda>(s1, p1) (s2, p2). R s1 p1 s2 p2) Q z y" by blast
    have p2: "p2 < lst2" using ends [OF round.prems(1)] True by simp
    show ?thesis
    proof (cases z)
      case (Inl a)
      obtain s' p' where a: "a = (s', p')" by (cases a)
      from y(2) obtain t q where t: "y = Inl (t, q)" "R s' p' t q" by (auto simp: Inl a rel_sum.simps)
      have s: "step s1 p1 = Some (Inl (s', p'))" using z Inl a by simp
      have "scan lst s' p' = Some x" using scan_go [OF True s] round.prems(2) by simp
      from round.IH [OF True s t(2) this] show ?thesis using scan2 [of s2 p2] p2 y(1) t(1) by simp
    next
      case (Inr r)
      with y(2) obtain r' where r: "y = Inr r'" "Q r r'" by (auto simp: rel_sum.simps)
      have "x = Inr r" using z Inr scan_stop [OF True] round.prems(2) by simp
      then show ?thesis using r scan2 [of s2 p2] p2 y(1) by simp
    qed
  qed
qed

end

section \<open>Memory\<close>

lemma mem_load_length: "mem_load mem a n = Some bs \<Longrightarrow> length bs = n"
  by (induction n arbitrary: a bs) (auto split: bind_splits)

lemma mem_load_nth: "mem_load mem a n = Some bs \<Longrightarrow> i < n \<Longrightarrow> mem (a + int i) = Some (bs ! i)"
proof (induction n arbitrary: a bs i)
  case (Suc n)
  then show ?case by (cases i) (fastforce simp: algebra_simps split: bind_splits)+
qed simp

lemma mem_load_cong: "(\<And>x. a \<le> x \<Longrightarrow> x < a + int n \<Longrightarrow> mem' (x + d) = mem x) \<Longrightarrow> mem_load mem' (a + d) n = mem_load mem a n"
proof (induction n arbitrary: a)
  case (Suc n)
  have "mem_load mem' (a + 1 + d) n = mem_load mem (a + 1) n" using Suc.prems by (intro Suc.IH) auto
  moreover have "mem' (a + d) = mem a" using Suc.prems by simp
  ultimately show ?case by (simp add: algebra_simps)
qed simp

lemma mem_load_Some: "(\<And>x. a \<le> x \<Longrightarrow> x < a + int n \<Longrightarrow> mem x \<noteq> None) \<Longrightarrow> \<exists>bs. mem_load mem a n = Some bs"
proof (induction n arbitrary: a)
  case (Suc n)
  obtain b where "mem a = Some b" using Suc.prems [of a] by auto
  moreover obtain bs where "mem_load mem (a + 1) n = Some bs" using Suc.IH [of "a + 1"] Suc.prems by fastforce
  ultimately show ?case by simp
qed simp

fun bytes_at :: "mem \<Rightarrow> int \<Rightarrow> byte list \<Rightarrow> bool" where
  "bytes_at mem p [] = True"
| "bytes_at mem p (b # bs) = (mem p = Some b \<and> bytes_at mem (p + 1) bs)"

lemma bytes_at_append: "bytes_at mem p (as @ bs) \<longleftrightarrow> bytes_at mem p as \<and> bytes_at mem (p + int (length as)) bs"
  by (induction as arbitrary: p) (auto simp: add.assoc)

lemma bytes_at_drop: "bytes_at mem p bs \<Longrightarrow> n \<le> length bs \<Longrightarrow> bytes_at mem (p + int n) (drop n bs)"
  using bytes_at_append [of mem p "take n bs" "drop n bs"] by simp

lemma bytes_at_nth: "bytes_at mem p bs \<Longrightarrow> i < length bs \<Longrightarrow> mem (p + int i) = Some (bs ! i)"
proof (induction bs arbitrary: p i)
  case (Cons b bs)
  then show ?case using Cons.IH [of "p + 1" "i - 1"] by (cases i) (auto simp: add.assoc)
qed simp

lemma bytes_atI: "(\<And>i. i < length bs \<Longrightarrow> mem (p + int i) = Some (bs ! i)) \<Longrightarrow> bytes_at mem p bs"
proof (induction bs arbitrary: p)
  case (Cons b bs)
  have "mem p = Some b" using Cons.prems [of 0] by simp
  moreover have "mem (p + 1 + int i) = Some (bs ! i)" if "i < length bs" for i
    using Cons.prems [of "Suc i"] that by (simp add: algebra_simps)
  ultimately show ?case using Cons.IH by simp
qed simp

lemma bytes_at_store [simp]: "bytes_at (mem_store mem p bs) p bs"
  by (rule bytes_atI) (simp add: mem_store_def)

text \<open>The bytes of the addresses from \<open>a\<close> up to \<open>b\<close>.\<close>

definition slice :: "mem \<Rightarrow> int \<Rightarrow> int \<Rightarrow> byte list" where
  "slice mem a b = map (\<lambda>x. the (mem x)) [a..b - 1]"

lemma length_slice [simp]: "length (slice mem a b) = nat (b - a)"
  by (simp add: slice_def)

lemma slice_Cons: "a < b \<Longrightarrow> slice mem a b = the (mem a) # slice mem (a + 1) b"
  by (simp add: slice_def upto_rec1)

lemma slice_empty: "b \<le> a \<Longrightarrow> slice mem a b = []"
  by (simp add: slice_def)

lemma bytes_at_slice: "bytes_at mem p bs \<Longrightarrow> slice mem p (p + int (length bs)) = bs"
proof (induction bs arbitrary: p)
  case (Cons b bs)
  have "slice mem (p + 1) (p + 1 + int (length bs)) = bs" using Cons by simp
  then show ?case using Cons.prems by (simp add: slice_Cons algebra_simps)
qed (simp add: slice_empty)

end
