(* ===== verification/NgxRequestLine.thy ===== *)
theory NgxRequestLine
  imports Scanner
begin

text \<open>
  The request line parser of \<^verbatim>\<open>nginx/src/http/ngx_http_parse.c\<close> (\<open>ngx_http_parse_request_line\<close>), one definition per state
  of its \<open>switch\<close>, in the configuration of a little-endian machine with unaligned loads that is not Windows.
  Pointers are addresses, with \<open>0\<close> for \<open>NULL\<close>.
\<close>

section \<open>Data\<close>

datatype rl_state = sw_start | sw_method | sw_spaces_before_uri | sw_schema | sw_schema_slash | sw_schema_slash_slash
  | sw_host_start | sw_host | sw_host_end | sw_host_ip_literal | sw_port | sw_host_http_09 | sw_after_slash_in_uri
  | sw_check_uri | sw_check_uri_http_09 | sw_uri | sw_http_09 | sw_http_H | sw_http_HT | sw_http_HTT | sw_http_HTTP
  | sw_first_major_digit | sw_major_digit | sw_first_minor_digit | sw_minor_digit | sw_spaces_after_digit | sw_almost_done

datatype ngx_method = NGX_HTTP_UNKNOWN | NGX_HTTP_GET | NGX_HTTP_HEAD | NGX_HTTP_POST | NGX_HTTP_PUT | NGX_HTTP_DELETE
  | NGX_HTTP_MKCOL | NGX_HTTP_COPY | NGX_HTTP_MOVE | NGX_HTTP_OPTIONS | NGX_HTTP_PROPFIND | NGX_HTTP_PROPPATCH
  | NGX_HTTP_LOCK | NGX_HTTP_UNLOCK | NGX_HTTP_PATCH | NGX_HTTP_TRACE

datatype ngx_rc = NGX_OK | NGX_AGAIN | NGX_HTTP_PARSE_INVALID_METHOD | NGX_HTTP_PARSE_INVALID_REQUEST
  | NGX_HTTP_PARSE_INVALID_VERSION | NGX_HTTP_PARSE_INVALID_09_METHOD | NGX_DECLINED | NGX_ERROR

record ngx_request =
  r_state :: rl_state
  r_method :: ngx_method
  http_version :: nat
  http_protocol :: int
  complex_uri :: bool
  quoted_uri :: bool
  plus_in_uri :: bool
  space_in_uri :: bool
  uri_start :: int
  uri_end :: int
  uri_ext :: int
  args_start :: int
  request_start :: int
  request_end :: int
  method_end :: int
  schema_start :: int
  schema_end :: int
  host_start :: int
  host_end :: int
  port_start :: int
  port_end :: int
  http_minor :: nat
  http_major :: nat

text \<open>The outcome of a round: \<open>break\<close> with the next state, \<open>p--; break\<close>, \<open>goto done\<close> or \<open>return\<close>.\<close>

datatype rl_round = Break rl_state ngx_request | Unread rl_state ngx_request | Done ngx_request | Return ngx_rc ngx_request

section \<open>Tables and comparisons\<close>

definition usual_tab :: "32 word list" where
  "usual_tab = [0xffffdbfe, 0x7fff37d6, 0xffffffff, 0xffffffff, 0xffffffff, 0xffffffff, 0xffffffff, 0xffffffff]"

definition usual :: "byte \<Rightarrow> bool" where
  "usual ch = (usual_tab ! unat (drop_bit 5 ch) AND push_bit (unat (ch AND 0x1f)) 1 \<noteq> 0)"

definition load32 :: "mem \<Rightarrow> int \<Rightarrow> int option" where
  "load32 mem m = do { bs \<leftarrow> mem_load mem m 4; Some (le_dec bs) }"

definition word4 :: "char \<Rightarrow> char \<Rightarrow> char \<Rightarrow> char \<Rightarrow> int" where
  "word4 c0 c1 c2 c3 = le_dec [chr c0, chr c1, chr c2, chr c3]"

definition ngx_str3_cmp :: "mem \<Rightarrow> int \<Rightarrow> char \<Rightarrow> char \<Rightarrow> char \<Rightarrow> char \<Rightarrow> bool option" where
  "ngx_str3_cmp mem m c0 c1 c2 c3 = do { w \<leftarrow> load32 mem m; Some (w = word4 c0 c1 c2 c3) }"

definition ngx_str3Ocmp :: "mem \<Rightarrow> int \<Rightarrow> char \<Rightarrow> char \<Rightarrow> char \<Rightarrow> char \<Rightarrow> bool option" where
  "ngx_str3Ocmp mem m c0 c1 c2 c3 = do { w \<leftarrow> load32 mem m; Some (w = word4 c0 c1 c2 c3) }"

definition ngx_str4cmp :: "mem \<Rightarrow> int \<Rightarrow> char \<Rightarrow> char \<Rightarrow> char \<Rightarrow> char \<Rightarrow> bool option" where
  "ngx_str4cmp mem m c0 c1 c2 c3 = do { w \<leftarrow> load32 mem m; Some (w = word4 c0 c1 c2 c3) }"

definition ngx_str5cmp :: "mem \<Rightarrow> int \<Rightarrow> char \<Rightarrow> char \<Rightarrow> char \<Rightarrow> char \<Rightarrow> char \<Rightarrow> bool option" where
  "ngx_str5cmp mem m c0 c1 c2 c3 c4 = do {
     w \<leftarrow> load32 mem m;
     if w = word4 c0 c1 c2 c3 then do { b \<leftarrow> mem (m + 4); Some (b = chr c4) } else Some False
   }"

definition ngx_str6cmp :: "mem \<Rightarrow> int \<Rightarrow> char \<Rightarrow> char \<Rightarrow> char \<Rightarrow> char \<Rightarrow> char \<Rightarrow> char \<Rightarrow> bool option" where
  "ngx_str6cmp mem m c0 c1 c2 c3 c4 c5 = do {
     w \<leftarrow> load32 mem m;
     if w = word4 c0 c1 c2 c3 then do { v \<leftarrow> load32 mem (m + 4); Some (v mod 2 ^ 16 = le_dec [chr c4, chr c5]) }
     else Some False
   }"

definition ngx_str7_cmp :: "mem \<Rightarrow> int \<Rightarrow> char \<Rightarrow> char \<Rightarrow> char \<Rightarrow> char \<Rightarrow> char \<Rightarrow> char \<Rightarrow> char \<Rightarrow> char \<Rightarrow> bool option" where
  "ngx_str7_cmp mem m c0 c1 c2 c3 c4 c5 c6 c7 = do {
     w \<leftarrow> load32 mem m;
     if w = word4 c0 c1 c2 c3 then do { v \<leftarrow> load32 mem (m + 4); Some (v = word4 c4 c5 c6 c7) } else Some False
   }"

definition ngx_str8cmp :: "mem \<Rightarrow> int \<Rightarrow> char \<Rightarrow> char \<Rightarrow> char \<Rightarrow> char \<Rightarrow> char \<Rightarrow> char \<Rightarrow> char \<Rightarrow> char \<Rightarrow> bool option" where
  "ngx_str8cmp mem m c0 c1 c2 c3 c4 c5 c6 c7 = do {
     w \<leftarrow> load32 mem m;
     if w = word4 c0 c1 c2 c3 then do { v \<leftarrow> load32 mem (m + 4); Some (v = word4 c4 c5 c6 c7) } else Some False
   }"

definition ngx_str9cmp :: "mem \<Rightarrow> int \<Rightarrow> char \<Rightarrow> char \<Rightarrow> char \<Rightarrow> char \<Rightarrow> char \<Rightarrow> char \<Rightarrow> char \<Rightarrow> char \<Rightarrow> char \<Rightarrow> bool option" where
  "ngx_str9cmp mem m c0 c1 c2 c3 c4 c5 c6 c7 c8 = do {
     w \<leftarrow> load32 mem m;
     if w = word4 c0 c1 c2 c3 then do {
       v \<leftarrow> load32 mem (m + 4);
       if v = word4 c4 c5 c6 c7 then do { b \<leftarrow> mem (m + 8); Some (b = chr c8) } else Some False
     } else Some False
   }"

fun first_match :: "(bool option \<times> ngx_method) list \<Rightarrow> ngx_method \<Rightarrow> ngx_method option" where
  "first_match [] old = Some old"
| "first_match ((cmp, v) # rest) old = do { b \<leftarrow> cmp; if b then Some v else first_match rest old }"

text \<open>\<open>switch (p - m)\<close>: the method named by the \<open>n\<close> bytes from \<open>m\<close>, or the value \<open>r->method\<close> has already.\<close>

definition method_switch :: "mem \<Rightarrow> int \<Rightarrow> int \<Rightarrow> ngx_method \<Rightarrow> ngx_method option" where
  "method_switch mem m n old =
     (if n = 3 then first_match
        [(ngx_str3_cmp mem m CHR ''G'' CHR ''E'' CHR ''T'' CHR '' '', NGX_HTTP_GET),
         (ngx_str3_cmp mem m CHR ''P'' CHR ''U'' CHR ''T'' CHR '' '', NGX_HTTP_PUT)] old
      else if n = 4 then do {
        m1 \<leftarrow> mem (m + 1);
        if m1 = chr CHR ''O'' then first_match
          [(ngx_str3Ocmp mem m CHR ''P'' CHR ''O'' CHR ''S'' CHR ''T'', NGX_HTTP_POST),
           (ngx_str3Ocmp mem m CHR ''C'' CHR ''O'' CHR ''P'' CHR ''Y'', NGX_HTTP_COPY),
           (ngx_str3Ocmp mem m CHR ''M'' CHR ''O'' CHR ''V'' CHR ''E'', NGX_HTTP_MOVE),
           (ngx_str3Ocmp mem m CHR ''L'' CHR ''O'' CHR ''C'' CHR ''K'', NGX_HTTP_LOCK)] old
        else first_match [(ngx_str4cmp mem m CHR ''H'' CHR ''E'' CHR ''A'' CHR ''D'', NGX_HTTP_HEAD)] old
      }
      else if n = 5 then first_match
        [(ngx_str5cmp mem m CHR ''M'' CHR ''K'' CHR ''C'' CHR ''O'' CHR ''L'', NGX_HTTP_MKCOL),
         (ngx_str5cmp mem m CHR ''P'' CHR ''A'' CHR ''T'' CHR ''C'' CHR ''H'', NGX_HTTP_PATCH),
         (ngx_str5cmp mem m CHR ''T'' CHR ''R'' CHR ''A'' CHR ''C'' CHR ''E'', NGX_HTTP_TRACE)] old
      else if n = 6 then first_match
        [(ngx_str6cmp mem m CHR ''D'' CHR ''E'' CHR ''L'' CHR ''E'' CHR ''T'' CHR ''E'', NGX_HTTP_DELETE),
         (ngx_str6cmp mem m CHR ''U'' CHR ''N'' CHR ''L'' CHR ''O'' CHR ''C'' CHR ''K'', NGX_HTTP_UNLOCK)] old
      else if n = 7 then first_match
        [(ngx_str7_cmp mem m CHR ''O'' CHR ''P'' CHR ''T'' CHR ''I'' CHR ''O'' CHR ''N'' CHR ''S'' CHR '' '', NGX_HTTP_OPTIONS)] old
      else if n = 8 then first_match
        [(ngx_str8cmp mem m CHR ''P'' CHR ''R'' CHR ''O'' CHR ''P'' CHR ''F'' CHR ''I'' CHR ''N'' CHR ''D'', NGX_HTTP_PROPFIND)] old
      else if n = 9 then first_match
        [(ngx_str9cmp mem m CHR ''P'' CHR ''R'' CHR ''O'' CHR ''P'' CHR ''P'' CHR ''A'' CHR ''T'' CHR ''C'' CHR ''H'', NGX_HTTP_PROPPATCH)] old
      else Some old)"

definition is_letter :: "byte \<Rightarrow> bool" where
  "is_letter ch = (let c = ch OR 0x20 in chr CHR ''a'' \<le> c \<and> c \<le> chr CHR ''z'')"

definition is_digit :: "byte \<Rightarrow> bool" where
  "is_digit ch = (chr CHR ''0'' \<le> ch \<and> ch \<le> chr CHR ''9'')"

definition bad_method_char :: "byte \<Rightarrow> bool" where
  "bad_method_char ch = ((ch < chr CHR ''A'' \<or> ch > chr CHR ''Z'') \<and> ch \<noteq> chr CHR ''_'' \<and> ch \<noteq> chr CHR ''-'')"

section \<open>The states\<close>

definition do_start :: "ngx_request \<Rightarrow> int \<Rightarrow> byte \<Rightarrow> rl_round" where
  "do_start r p ch =
     (let r = r\<lparr>request_start := p\<rparr> in
      if ch = CR \<or> ch = LF then Break sw_start r
      else if bad_method_char ch then Return NGX_HTTP_PARSE_INVALID_METHOD r
      else Break sw_method r)"

definition do_method :: "mem \<Rightarrow> ngx_request \<Rightarrow> int \<Rightarrow> byte \<Rightarrow> rl_round option" where
  "do_method mem r p ch =
     (if ch = chr CHR '' '' then do {
        let r = r\<lparr>method_end := p - 1\<rparr>;
        let m = request_start r;
        v \<leftarrow> method_switch mem m (p - m) (r_method r);
        Some (Break sw_spaces_before_uri (r\<lparr>r_method := v\<rparr>))
      }
      else if bad_method_char ch then Some (Return NGX_HTTP_PARSE_INVALID_METHOD r)
      else Some (Break sw_method r))"

definition do_spaces_before_uri :: "ngx_request \<Rightarrow> int \<Rightarrow> byte \<Rightarrow> rl_round" where
  "do_spaces_before_uri r p ch =
     (if ch = chr CHR ''/'' then Break sw_after_slash_in_uri (r\<lparr>uri_start := p\<rparr>)
      else if is_letter ch then Break sw_schema (r\<lparr>schema_start := p\<rparr>)
      else if ch = chr CHR '' '' then Break sw_spaces_before_uri r
      else Return NGX_HTTP_PARSE_INVALID_REQUEST r)"

definition do_schema :: "ngx_request \<Rightarrow> int \<Rightarrow> byte \<Rightarrow> rl_round" where
  "do_schema r p ch =
     (if is_letter ch then Break sw_schema r
      else if ch = chr CHR '':'' then Break sw_schema_slash (r\<lparr>schema_end := p\<rparr>)
      else Return NGX_HTTP_PARSE_INVALID_REQUEST r)"

text \<open>The states that expect one particular byte.\<close>

definition expect :: "char \<Rightarrow> rl_state \<Rightarrow> ngx_request \<Rightarrow> byte \<Rightarrow> rl_round" where
  "expect c st r ch = (if ch = chr c then Break st r else Return NGX_HTTP_PARSE_INVALID_REQUEST r)"

text \<open>\<open>r->uri_start\<close> and \<open>r->uri_end\<close> around the first slash of \<open>://\<close>.\<close>

definition uri_is_slash :: "ngx_request \<Rightarrow> ngx_request" where
  "uri_is_slash r = r\<lparr>uri_start := schema_end r + 1, uri_end := schema_end r + 2\<rparr>"

definition do_host_end :: "ngx_request \<Rightarrow> int \<Rightarrow> byte \<Rightarrow> rl_round" where
  "do_host_end r p ch =
     (let r = r\<lparr>host_end := p\<rparr> in
      if ch = chr CHR '':'' then Break sw_port r
      else if ch = chr CHR ''/'' then Break sw_after_slash_in_uri (r\<lparr>uri_start := p\<rparr>)
      else if ch = chr CHR '' '' then Break sw_host_http_09 (uri_is_slash r)
      else Return NGX_HTTP_PARSE_INVALID_REQUEST r)"

definition do_host :: "ngx_request \<Rightarrow> int \<Rightarrow> byte \<Rightarrow> rl_round" where
  "do_host r p ch =
     (if is_letter ch then Break sw_host r
      else if is_digit ch \<or> ch = chr CHR ''.'' \<or> ch = chr CHR ''-'' then Break sw_host r
      else do_host_end r p ch)"

definition do_host_start :: "ngx_request \<Rightarrow> int \<Rightarrow> byte \<Rightarrow> rl_round" where
  "do_host_start r p ch =
     (let r = r\<lparr>host_start := p\<rparr> in
      if ch = chr CHR ''['' then Break sw_host_ip_literal r else do_host r p ch)"

definition do_host_ip_literal :: "ngx_request \<Rightarrow> int \<Rightarrow> byte \<Rightarrow> rl_round" where
  "do_host_ip_literal r p ch =
     (if is_digit ch then Break sw_host_ip_literal r
      else if is_letter ch then Break sw_host_ip_literal r
      else if ch = chr CHR '':'' then Break sw_host_ip_literal r
      else if ch = chr CHR '']'' then Break sw_host_end r
      else if ch \<in> {chr CHR ''-'', chr CHR ''.'', chr CHR ''_'', chr CHR ''~''} then Break sw_host_ip_literal r
      else if ch \<in> {chr CHR ''!'', chr CHR ''$'', chr CHR ''&'', 39, chr CHR ''('', chr CHR '')'', chr CHR ''*'', chr CHR ''+'', chr CHR '','',
                    chr CHR '';'', chr CHR ''=''} then Break sw_host_ip_literal r
      else Return NGX_HTTP_PARSE_INVALID_REQUEST r)"

definition do_port :: "ngx_request \<Rightarrow> int \<Rightarrow> byte \<Rightarrow> rl_round" where
  "do_port r p ch =
     (if is_digit ch then Break sw_port r
      else if ch = chr CHR ''/'' then Break sw_after_slash_in_uri (r\<lparr>port_end := p, uri_start := p\<rparr>)
      else if ch = chr CHR '' '' then Break sw_host_http_09 (uri_is_slash (r\<lparr>port_end := p\<rparr>))
      else Return NGX_HTTP_PARSE_INVALID_REQUEST r)"

definition do_host_http_09 :: "ngx_request \<Rightarrow> int \<Rightarrow> byte \<Rightarrow> rl_round" where
  "do_host_http_09 r p ch =
     (if ch = chr CHR '' '' then Break sw_host_http_09 r
      else if ch = CR then Break sw_almost_done (r\<lparr>http_minor := 9\<rparr>)
      else if ch = LF then Done (r\<lparr>http_minor := 9\<rparr>)
      else if ch = chr CHR ''H'' then Break sw_http_H (r\<lparr>http_protocol := p\<rparr>)
      else Return NGX_HTTP_PARSE_INVALID_REQUEST r)"

definition do_after_slash_in_uri :: "ngx_request \<Rightarrow> int \<Rightarrow> byte \<Rightarrow> rl_round" where
  "do_after_slash_in_uri r p ch =
     (if usual ch then Break sw_check_uri r
      else if ch = chr CHR '' '' then Break sw_check_uri_http_09 (r\<lparr>uri_end := p\<rparr>)
      else if ch = CR then Break sw_almost_done (r\<lparr>uri_end := p, http_minor := 9\<rparr>)
      else if ch = LF then Done (r\<lparr>uri_end := p, http_minor := 9\<rparr>)
      else if ch = chr CHR ''.'' then Break sw_uri (r\<lparr>complex_uri := True\<rparr>)
      else if ch = chr CHR ''%'' then Break sw_uri (r\<lparr>quoted_uri := True\<rparr>)
      else if ch = chr CHR ''/'' then Break sw_uri (r\<lparr>complex_uri := True\<rparr>)
      else if ch = chr CHR ''?'' then Break sw_uri (r\<lparr>args_start := p + 1\<rparr>)
      else if ch = chr CHR ''#'' then Break sw_uri (r\<lparr>complex_uri := True\<rparr>)
      else if ch = chr CHR ''+'' then Break sw_after_slash_in_uri (r\<lparr>plus_in_uri := True\<rparr>)
      else if ch = 0 then Return NGX_HTTP_PARSE_INVALID_REQUEST r
      else Break sw_check_uri r)"

definition do_check_uri :: "ngx_request \<Rightarrow> int \<Rightarrow> byte \<Rightarrow> rl_round" where
  "do_check_uri r p ch =
     (if usual ch then Break sw_check_uri r
      else if ch = chr CHR ''/'' then Break sw_after_slash_in_uri (r\<lparr>uri_ext := 0\<rparr>)
      else if ch = chr CHR ''.'' then Break sw_check_uri (r\<lparr>uri_ext := p + 1\<rparr>)
      else if ch = chr CHR '' '' then Break sw_check_uri_http_09 (r\<lparr>uri_end := p\<rparr>)
      else if ch = CR then Break sw_almost_done (r\<lparr>uri_end := p, http_minor := 9\<rparr>)
      else if ch = LF then Done (r\<lparr>uri_end := p, http_minor := 9\<rparr>)
      else if ch = chr CHR ''%'' then Break sw_uri (r\<lparr>quoted_uri := True\<rparr>)
      else if ch = chr CHR ''?'' then Break sw_uri (r\<lparr>args_start := p + 1\<rparr>)
      else if ch = chr CHR ''#'' then Break sw_uri (r\<lparr>complex_uri := True\<rparr>)
      else if ch = chr CHR ''+'' then Break sw_check_uri (r\<lparr>plus_in_uri := True\<rparr>)
      else if ch = 0 then Return NGX_HTTP_PARSE_INVALID_REQUEST r
      else Break sw_check_uri r)"

definition do_check_uri_http_09 :: "ngx_request \<Rightarrow> int \<Rightarrow> byte \<Rightarrow> rl_round" where
  "do_check_uri_http_09 r p ch =
     (if ch = chr CHR '' '' then Break sw_check_uri_http_09 r
      else if ch = CR then Break sw_almost_done (r\<lparr>http_minor := 9\<rparr>)
      else if ch = LF then Done (r\<lparr>http_minor := 9\<rparr>)
      else if ch = chr CHR ''H'' then Break sw_http_H (r\<lparr>http_protocol := p\<rparr>)
      else Unread sw_check_uri (r\<lparr>space_in_uri := True\<rparr>))"

definition do_uri :: "ngx_request \<Rightarrow> int \<Rightarrow> byte \<Rightarrow> rl_round" where
  "do_uri r p ch =
     (if usual ch then Break sw_uri r
      else if ch = chr CHR '' '' then Break sw_http_09 (r\<lparr>uri_end := p\<rparr>)
      else if ch = CR then Break sw_almost_done (r\<lparr>uri_end := p, http_minor := 9\<rparr>)
      else if ch = LF then Done (r\<lparr>uri_end := p, http_minor := 9\<rparr>)
      else if ch = chr CHR ''#'' then Break sw_uri (r\<lparr>complex_uri := True\<rparr>)
      else if ch = 0 then Return NGX_HTTP_PARSE_INVALID_REQUEST r
      else Break sw_uri r)"

definition do_http_09 :: "ngx_request \<Rightarrow> int \<Rightarrow> byte \<Rightarrow> rl_round" where
  "do_http_09 r p ch =
     (if ch = chr CHR '' '' then Break sw_http_09 r
      else if ch = CR then Break sw_almost_done (r\<lparr>http_minor := 9\<rparr>)
      else if ch = LF then Done (r\<lparr>http_minor := 9\<rparr>)
      else if ch = chr CHR ''H'' then Break sw_http_H (r\<lparr>http_protocol := p\<rparr>)
      else Unread sw_uri (r\<lparr>space_in_uri := True\<rparr>))"

text \<open>\<open>ch - '0'\<close>, and the conversion to the 16 bits of the version fields.\<close>

definition digit_val :: "byte \<Rightarrow> nat" where
  "digit_val ch = unat ch - 48"

definition u16 :: "nat \<Rightarrow> nat" where
  "u16 n = n mod 2 ^ 16"

definition do_first_major_digit :: "ngx_request \<Rightarrow> byte \<Rightarrow> rl_round" where
  "do_first_major_digit r ch =
     (if ch < chr CHR ''1'' \<or> ch > chr CHR ''9'' then Return NGX_HTTP_PARSE_INVALID_REQUEST r
      else
        let r = r\<lparr>http_major := u16 (digit_val ch)\<rparr> in
        if http_major r > 1 then Return NGX_HTTP_PARSE_INVALID_VERSION r else Break sw_major_digit r)"

definition do_major_digit :: "ngx_request \<Rightarrow> byte \<Rightarrow> rl_round" where
  "do_major_digit r ch =
     (if ch = chr CHR ''.'' then Break sw_first_minor_digit r
      else if ch < chr CHR ''0'' \<or> ch > chr CHR ''9'' then Return NGX_HTTP_PARSE_INVALID_REQUEST r
      else
        let r = r\<lparr>http_major := u16 (http_major r * 10 + digit_val ch)\<rparr> in
        if http_major r > 1 then Return NGX_HTTP_PARSE_INVALID_VERSION r else Break sw_major_digit r)"

definition do_first_minor_digit :: "ngx_request \<Rightarrow> byte \<Rightarrow> rl_round" where
  "do_first_minor_digit r ch =
     (if ch < chr CHR ''0'' \<or> ch > chr CHR ''9'' then Return NGX_HTTP_PARSE_INVALID_REQUEST r
      else Break sw_minor_digit (r\<lparr>http_minor := u16 (digit_val ch)\<rparr>))"

definition do_minor_digit :: "ngx_request \<Rightarrow> byte \<Rightarrow> rl_round" where
  "do_minor_digit r ch =
     (if ch = CR then Break sw_almost_done r
      else if ch = LF then Done r
      else if ch = chr CHR '' '' then Break sw_spaces_after_digit r
      else if ch < chr CHR ''0'' \<or> ch > chr CHR ''9'' then Return NGX_HTTP_PARSE_INVALID_REQUEST r
      else if http_minor r > 99 then Return NGX_HTTP_PARSE_INVALID_REQUEST r
      else Break sw_minor_digit (r\<lparr>http_minor := u16 (http_minor r * 10 + digit_val ch)\<rparr>))"

definition do_spaces_after_digit :: "ngx_request \<Rightarrow> byte \<Rightarrow> rl_round" where
  "do_spaces_after_digit r ch =
     (if ch = chr CHR '' '' then Break sw_spaces_after_digit r
      else if ch = CR then Break sw_almost_done r
      else if ch = LF then Done r
      else Return NGX_HTTP_PARSE_INVALID_REQUEST r)"

definition do_almost_done :: "ngx_request \<Rightarrow> int \<Rightarrow> byte \<Rightarrow> rl_round" where
  "do_almost_done r p ch =
     (let r = r\<lparr>request_end := p - 1\<rparr> in
      if ch = LF then Done r else Return NGX_HTTP_PARSE_INVALID_REQUEST r)"

section \<open>The parser\<close>

definition rl_switch :: "mem \<Rightarrow> rl_state \<Rightarrow> ngx_request \<Rightarrow> int \<Rightarrow> byte \<Rightarrow> rl_round option" where
  "rl_switch mem st r p ch =
     (case st of
        sw_start \<Rightarrow> Some (do_start r p ch)
      | sw_method \<Rightarrow> do_method mem r p ch
      | sw_spaces_before_uri \<Rightarrow> Some (do_spaces_before_uri r p ch)
      | sw_schema \<Rightarrow> Some (do_schema r p ch)
      | sw_schema_slash \<Rightarrow> Some (expect CHR ''/'' sw_schema_slash_slash r ch)
      | sw_schema_slash_slash \<Rightarrow> Some (expect CHR ''/'' sw_host_start r ch)
      | sw_host_start \<Rightarrow> Some (do_host_start r p ch)
      | sw_host \<Rightarrow> Some (do_host r p ch)
      | sw_host_end \<Rightarrow> Some (do_host_end r p ch)
      | sw_host_ip_literal \<Rightarrow> Some (do_host_ip_literal r p ch)
      | sw_port \<Rightarrow> Some (do_port r p ch)
      | sw_host_http_09 \<Rightarrow> Some (do_host_http_09 r p ch)
      | sw_after_slash_in_uri \<Rightarrow> Some (do_after_slash_in_uri r p ch)
      | sw_check_uri \<Rightarrow> Some (do_check_uri r p ch)
      | sw_check_uri_http_09 \<Rightarrow> Some (do_check_uri_http_09 r p ch)
      | sw_uri \<Rightarrow> Some (do_uri r p ch)
      | sw_http_09 \<Rightarrow> Some (do_http_09 r p ch)
      | sw_http_H \<Rightarrow> Some (expect CHR ''T'' sw_http_HT r ch)
      | sw_http_HT \<Rightarrow> Some (expect CHR ''T'' sw_http_HTT r ch)
      | sw_http_HTT \<Rightarrow> Some (expect CHR ''P'' sw_http_HTTP r ch)
      | sw_http_HTTP \<Rightarrow> Some (expect CHR ''/'' sw_first_major_digit r ch)
      | sw_first_major_digit \<Rightarrow> Some (do_first_major_digit r ch)
      | sw_major_digit \<Rightarrow> Some (do_major_digit r ch)
      | sw_first_minor_digit \<Rightarrow> Some (do_first_minor_digit r ch)
      | sw_minor_digit \<Rightarrow> Some (do_minor_digit r ch)
      | sw_spaces_after_digit \<Rightarrow> Some (do_spaces_after_digit r ch)
      | sw_almost_done \<Rightarrow> Some (do_almost_done r p ch))"

type_synonym rl_exit = "(ngx_request \<times> int) + (ngx_rc \<times> ngx_request)"

definition rl_step :: "mem \<Rightarrow> rl_state \<times> ngx_request \<Rightarrow> int \<Rightarrow> ((rl_state \<times> ngx_request) \<times> int + rl_exit) option" where
  "rl_step mem s p = do {
     ch \<leftarrow> mem p;
     x \<leftarrow> rl_switch mem (fst s) (snd s) p ch;
     Some (case x of
         Break st r \<Rightarrow> Inl ((st, r), p + 1)
       | Unread st r \<Rightarrow> Inl ((st, r), p)
       | Done r \<Rightarrow> Inr (Inl (r, p))
       | Return rc r \<Rightarrow> Inr (Inr (rc, r)))
   }"

partial_function (option) rl_scan ::
  "mem \<Rightarrow> int \<Rightarrow> rl_state \<times> ngx_request \<Rightarrow> int \<Rightarrow> ((rl_state \<times> ngx_request) \<times> int + rl_exit) option" where
  "rl_scan mem lst s p =
     (if p < lst then do {
        x \<leftarrow> rl_step mem s p;
        case x of Inl (s', p') \<Rightarrow> rl_scan mem lst s' p' | Inr r \<Rightarrow> Some (Inr r)
      } else Some (Inl (s, p)))"

text \<open>The label \<open>done\<close>, at the position of the last byte of the line.\<close>

definition rl_done :: "ngx_request \<Rightarrow> int \<Rightarrow> ngx_request \<times> int \<times> ngx_rc" where
  "rl_done r p =
     (let r = (if request_end r = 0 then r\<lparr>request_end := p\<rparr> else r);
          r = r\<lparr>http_version := http_major r * 1000 + http_minor r, r_state := sw_start\<rparr>
      in (r, p + 1, if http_version r = 9 \<and> r_method r \<noteq> NGX_HTTP_GET then NGX_HTTP_PARSE_INVALID_09_METHOD else NGX_OK))"

text \<open>The arguments are the memory, the request and \<open>b->pos\<close> and \<open>b->last\<close>; the results are the request, \<open>b->pos\<close> and the return value.\<close>

definition ngx_http_parse_request_line :: "mem \<Rightarrow> ngx_request \<Rightarrow> int \<Rightarrow> int \<Rightarrow> (ngx_request \<times> int \<times> ngx_rc) option" where
  "ngx_http_parse_request_line mem r pos lst = do {
     x \<leftarrow> rl_scan mem lst (r_state r, r) pos;
     Some (case x of
         Inl ((st, r), p) \<Rightarrow> (r\<lparr>r_state := st\<rparr>, p, NGX_AGAIN)
       | Inr (Inl (r, p)) \<Rightarrow> rl_done r p
       | Inr (Inr (rc, r)) \<Rightarrow> (r, pos, rc))
   }"

end
