(* ===== verification/NgxRequestProps.thy ===== *)
theory NgxRequestProps
  imports NgxRequestLine
begin

text \<open>
  The request line parser: its loop as a scanner, the meaning of its comparisons, and its invariant.
\<close>

section \<open>The loop as a scanner\<close>

named_theorems rl_defs \<open>definitions of the states of the parser\<close>

lemmas [rl_defs] = do_start_def do_method_def do_spaces_before_uri_def do_schema_def expect_def do_host_end_def do_host_def
  do_host_start_def do_host_ip_literal_def do_port_def do_host_http_09_def do_after_slash_in_uri_def do_check_uri_def
  do_check_uri_http_09_def do_uri_def do_http_09_def do_first_major_digit_def do_major_digit_def do_first_minor_digit_def
  do_minor_digit_def do_spaces_after_digit_def do_almost_done_def

definition rl_rank :: "rl_state \<times> ngx_request \<Rightarrow> nat" where
  "rl_rank s = (if fst s = sw_check_uri_http_09 \<or> fst s = sw_http_09 then 1 else 0)"

lemma rl_switch_unread: "rl_switch mem st r p ch = Some (Unread st' r') \<Longrightarrow> rl_rank (st', r') < rl_rank (st, r)"
  by (cases st) (simp_all add: rl_switch_def rl_rank_def rl_defs Let_def split: if_splits bind_splits)

interpretation rl: scanner "rl_step mem" "rl_scan mem" rl_rank for mem
proof
  fix lst s p
  show "rl_scan mem lst s p = (if p < lst then do {
      x \<leftarrow> rl_step mem s p;
      case x of Inl (s', p') \<Rightarrow> rl_scan mem lst s' p' | Inr r \<Rightarrow> Some (Inr r)
    } else Some (Inl (s, p)))"
    by (rule rl_scan.simps)
next
  fix s p s' p'
  assume "rl_step mem s p = Some (Inl (s', p'))"
  then show "p' = p + 1 \<or> p' = p \<and> rl_rank s' < rl_rank s"
    using rl_switch_unread [of mem "fst s" "snd s" p _ "fst s'" "snd s'"]
    by (auto simp: rl_step_def split: bind_splits rl_round.splits)
qed

section \<open>Methods\<close>

definition span :: "mem \<Rightarrow> int \<Rightarrow> int \<Rightarrow> (byte \<Rightarrow> bool) \<Rightarrow> bool" where
  "span mem a b P \<longleftrightarrow> (\<forall>x. a \<le> x \<and> x < b \<longrightarrow> (\<exists>c. mem x = Some c \<and> P c))"

definition method_table :: "(string \<times> ngx_method) list" where
  "method_table =
     [(''GET'', NGX_HTTP_GET), (''PUT'', NGX_HTTP_PUT), (''POST'', NGX_HTTP_POST), (''COPY'', NGX_HTTP_COPY), (''MOVE'', NGX_HTTP_MOVE),
      (''LOCK'', NGX_HTTP_LOCK), (''HEAD'', NGX_HTTP_HEAD), (''MKCOL'', NGX_HTTP_MKCOL), (''PATCH'', NGX_HTTP_PATCH),
      (''TRACE'', NGX_HTTP_TRACE), (''DELETE'', NGX_HTTP_DELETE), (''UNLOCK'', NGX_HTTP_UNLOCK), (''OPTIONS'', NGX_HTTP_OPTIONS),
      (''PROPFIND'', NGX_HTTP_PROPFIND), (''PROPPATCH'', NGX_HTTP_PROPPATCH)]"

definition method_of :: "byte list \<Rightarrow> ngx_method" where
  "method_of bs = (case map_of (map (\<lambda>(s, v). (map chr s, v)) method_table) bs of Some v \<Rightarrow> v | None \<Rightarrow> NGX_HTTP_UNKNOWN)"

lemma le_dec_inject: "length bs = length cs \<Longrightarrow> le_dec bs = le_dec cs \<longleftrightarrow> bs = cs"
  by (metis le_enc_dec)

lemma load32_Some:
  "mem m = Some a \<Longrightarrow> mem (m + 1) = Some b \<Longrightarrow> mem (m + 2) = Some c \<Longrightarrow> mem (m + 3) = Some d \<Longrightarrow>
     load32 mem m = Some (le_dec [a, b, c, d])"
  by (simp add: load32_def numeral_eq_Suc add.assoc)

lemma word4_iff: "le_dec [a, b, c, d] = word4 c0 c1 c2 c3 \<longleftrightarrow> a = chr c0 \<and> b = chr c1 \<and> c = chr c2 \<and> d = chr c3"
  unfolding word4_def by (subst le_dec_inject) simp_all

lemma le_dec_low: "le_dec [a, b, c, d] mod 2 ^ 16 = le_dec [x, y] \<longleftrightarrow> a = x \<and> b = y"
proof -
  have "le_dec [a, b, c, d] = le_dec [a, b] + le_dec [c, d] * 2 ^ 16" by simp
  then have "le_dec [a, b, c, d] mod 2 ^ 16 = le_dec [a, b] mod 2 ^ 16" by (simp only: mod_mult_self1)
  also have "\<dots> = le_dec [a, b]" using le_dec_bounds [of "[a, b]"] by (intro mod_pos_pos_trivial) simp_all
  finally have "le_dec [a, b, c, d] mod 2 ^ 16 = le_dec [a, b]" .
  then show ?thesis by (simp only: le_dec_inject list.size) simp
qed

lemma method_names: "(s, v) \<in> set method_table \<Longrightarrow> 3 \<le> length s \<and> length s \<le> 9"
  by (auto simp: method_table_def)

lemma method_of_short:
  assumes "\<not> (3 \<le> length bs \<and> length bs \<le> 9)"
  shows "method_of bs = NGX_HTTP_UNKNOWN"
proof -
  have "map_of (map (\<lambda>(s, v). (map chr s, v)) method_table) bs = None"
    unfolding map_of_eq_None_iff using assms method_names by fastforce
  then show ?thesis by (simp add: method_of_def)
qed

lemma spanD: "span mem a b P \<Longrightarrow> a \<le> x \<Longrightarrow> x < b \<Longrightarrow> \<exists>c. mem x = Some c \<and> P c"
  by (auto simp: span_def)

lemma span_nth: "span mem a b P \<Longrightarrow> i < nat (b - a) \<Longrightarrow> mem (a + int i) = Some (slice mem a b ! i)"
  using spanD [of mem a b P "a + int i"] by (fastforce simp: slice_def)

lemma cmp4:
  assumes m: "mem m = Some a" "mem (m + 1) = Some b" "mem (m + 2) = Some c" "mem (m + 3) = Some d"
  shows "ngx_str3_cmp mem m c0 c1 c2 c3 = Some (a = chr c0 \<and> b = chr c1 \<and> c = chr c2 \<and> d = chr c3)"
    and "ngx_str3Ocmp mem m c0 c1 c2 c3 = Some (a = chr c0 \<and> b = chr c1 \<and> c = chr c2 \<and> d = chr c3)"
    and "ngx_str4cmp mem m c0 c1 c2 c3 = Some (a = chr c0 \<and> b = chr c1 \<and> c = chr c2 \<and> d = chr c3)"
  by (simp_all add: ngx_str3_cmp_def ngx_str3Ocmp_def ngx_str4cmp_def load32_Some [OF m] word4_iff del: le_dec.simps)

lemma cmp5:
  assumes m: "mem m = Some a" "mem (m + 1) = Some b" "mem (m + 2) = Some c" "mem (m + 3) = Some d" and "mem (m + 4) = Some e"
  shows "ngx_str5cmp mem m c0 c1 c2 c3 c4 = Some (a = chr c0 \<and> b = chr c1 \<and> c = chr c2 \<and> d = chr c3 \<and> e = chr c4)"
  using assms(5) by (auto simp add: ngx_str5cmp_def load32_Some [OF m] word4_iff simp del: le_dec.simps)

lemma cmp8:
  assumes m: "mem m = Some a" "mem (m + 1) = Some b" "mem (m + 2) = Some c" "mem (m + 3) = Some d"
    and "mem (m + 4) = Some e" "mem (m + 5) = Some f" "mem (m + 6) = Some g" "mem (m + 7) = Some h"
  shows "ngx_str6cmp mem m c0 c1 c2 c3 c4 c5 = Some (a = chr c0 \<and> b = chr c1 \<and> c = chr c2 \<and> d = chr c3 \<and> e = chr c4 \<and> f = chr c5)"
    and "ngx_str7_cmp mem m c0 c1 c2 c3 c4 c5 c6 c7 =
      Some (a = chr c0 \<and> b = chr c1 \<and> c = chr c2 \<and> d = chr c3 \<and> e = chr c4 \<and> f = chr c5 \<and> g = chr c6 \<and> h = chr c7)"
    and "ngx_str8cmp mem m c0 c1 c2 c3 c4 c5 c6 c7 =
      Some (a = chr c0 \<and> b = chr c1 \<and> c = chr c2 \<and> d = chr c3 \<and> e = chr c4 \<and> f = chr c5 \<and> g = chr c6 \<and> h = chr c7)"
    and "mem (m + 8) = Some i \<Longrightarrow> ngx_str9cmp mem m c0 c1 c2 c3 c4 c5 c6 c7 c8 =
      Some (a = chr c0 \<and> b = chr c1 \<and> c = chr c2 \<and> d = chr c3 \<and> e = chr c4 \<and> f = chr c5 \<and> g = chr c6 \<and> h = chr c7 \<and> i = chr c8)"
proof -
  have l: "load32 mem (m + 4) = Some (le_dec [e, f, g, h])"
    using assms(5-8) by (intro load32_Some) (simp_all add: add.assoc)
  show "ngx_str6cmp mem m c0 c1 c2 c3 c4 c5 = Some (a = chr c0 \<and> b = chr c1 \<and> c = chr c2 \<and> d = chr c3 \<and> e = chr c4 \<and> f = chr c5)"
    by (auto simp add: ngx_str6cmp_def load32_Some [OF m] l word4_iff le_dec_low simp del: le_dec.simps power_numeral)
  show "ngx_str7_cmp mem m c0 c1 c2 c3 c4 c5 c6 c7 =
      Some (a = chr c0 \<and> b = chr c1 \<and> c = chr c2 \<and> d = chr c3 \<and> e = chr c4 \<and> f = chr c5 \<and> g = chr c6 \<and> h = chr c7)"
    "ngx_str8cmp mem m c0 c1 c2 c3 c4 c5 c6 c7 =
      Some (a = chr c0 \<and> b = chr c1 \<and> c = chr c2 \<and> d = chr c3 \<and> e = chr c4 \<and> f = chr c5 \<and> g = chr c6 \<and> h = chr c7)"
    by (auto simp add: ngx_str7_cmp_def ngx_str8cmp_def load32_Some [OF m] l word4_iff simp del: le_dec.simps)
  show "mem (m + 8) = Some i \<Longrightarrow> ngx_str9cmp mem m c0 c1 c2 c3 c4 c5 c6 c7 c8 =
      Some (a = chr c0 \<and> b = chr c1 \<and> c = chr c2 \<and> d = chr c3 \<and> e = chr c4 \<and> f = chr c5 \<and> g = chr c6 \<and> h = chr c7 \<and> i = chr c8)"
    by (auto simp add: ngx_str9cmp_def load32_Some [OF m] l word4_iff simp del: le_dec.simps)
qed

lemma method_switch_ok:
  assumes "span mem m (m + int n) P" "mem (m + int n) = Some 32" "mem (m + int n + 1) \<noteq> None"
  shows "method_switch mem m (int n) NGX_HTTP_UNKNOWN = Some (method_of (slice mem m (m + int n)))"
proof -
  define bs where "bs = slice mem m (m + int n)"
  have len: "length bs = n" by (simp add: bs_def)
  have nth: "mem (m + int i) = Some (bs ! i)" if "i < n" for i using span_nth [OF assms(1), of i] that by (simp add: bs_def)
  obtain z where z: "mem (m + int n + 1) = Some z" using assms(3) by auto
  note nths = nth [of 0] nth [of 1] nth [of 2] nth [of 3] nth [of 4] nth [of 5] nth [of 6] nth [of 7] nth [of 8]
  note mo = method_of_def method_table_def
  consider "n = 3" | "n = 4" | "n = 5" | "n = 6" | "n = 7" | "n = 8" | "n = 9" | "\<not> (3 \<le> n \<and> n \<le> 9)" by linarith
  then have "method_switch mem m (int n) NGX_HTTP_UNKNOWN = Some (method_of bs)"
  proof cases
    case 1
    then obtain a b c where bs: "bs = [a, b, c]" using len by (auto simp: length_Suc_conv numeral_eq_Suc)
    have "mem m = Some a" "mem (m + 1) = Some b" "mem (m + 2) = Some c" "mem (m + 3) = Some 32"
      using nths assms(2) 1 by (simp_all add: bs)
    from cmp4 [OF this] 1 show ?thesis by (simp add: method_switch_def bs mo)
  next
    case 2
    then obtain a b c d where bs: "bs = [a, b, c, d]" using len by (auto simp: length_Suc_conv numeral_eq_Suc)
    have m: "mem m = Some a" "mem (m + 1) = Some b" "mem (m + 2) = Some c" "mem (m + 3) = Some d"
      using nths 2 by (simp_all add: bs)
    from cmp4 [OF m] m(2) 2 show ?thesis by (simp add: method_switch_def bs mo)
  next
    case 3
    then obtain a b c d e where bs: "bs = [a, b, c, d, e]" using len by (auto simp: length_Suc_conv numeral_eq_Suc)
    have m: "mem m = Some a" "mem (m + 1) = Some b" "mem (m + 2) = Some c" "mem (m + 3) = Some d" "mem (m + 4) = Some e"
      using nths 3 by (simp_all add: bs)
    from cmp5 [OF m] 3 show ?thesis by (simp add: method_switch_def bs mo)
  next
    case 4
    then obtain a b c d e f where bs: "bs = [a, b, c, d, e, f]" using len by (auto simp: length_Suc_conv numeral_eq_Suc)
    have m: "mem m = Some a" "mem (m + 1) = Some b" "mem (m + 2) = Some c" "mem (m + 3) = Some d" "mem (m + 4) = Some e"
        "mem (m + 5) = Some f" "mem (m + 6) = Some 32" "mem (m + 7) = Some z"
      using nths z assms(2) 4 by (simp_all add: bs add.commute)
    from cmp8(1) [OF m] 4 show ?thesis by (simp add: method_switch_def bs mo)
  next
    case 5
    then obtain a b c d e f g where bs: "bs = [a, b, c, d, e, f, g]" using len by (auto simp: length_Suc_conv numeral_eq_Suc)
    have m: "mem m = Some a" "mem (m + 1) = Some b" "mem (m + 2) = Some c" "mem (m + 3) = Some d" "mem (m + 4) = Some e"
        "mem (m + 5) = Some f" "mem (m + 6) = Some g" "mem (m + 7) = Some 32"
      using nths assms(2) 5 by (simp_all add: bs)
    from cmp8(2) [OF m] 5 show ?thesis by (simp add: method_switch_def bs mo)
  next
    case 6
    then obtain a b c d e f g h where bs: "bs = [a, b, c, d, e, f, g, h]" using len by (auto simp: length_Suc_conv numeral_eq_Suc)
    have m: "mem m = Some a" "mem (m + 1) = Some b" "mem (m + 2) = Some c" "mem (m + 3) = Some d" "mem (m + 4) = Some e"
        "mem (m + 5) = Some f" "mem (m + 6) = Some g" "mem (m + 7) = Some h"
      using nths 6 by (simp_all add: bs)
    from cmp8(3) [OF m] 6 show ?thesis by (simp add: method_switch_def bs mo)
  next
    case 7
    then obtain a b c d e f g h i where bs: "bs = [a, b, c, d, e, f, g, h, i]" using len by (auto simp: length_Suc_conv numeral_eq_Suc)
    have m: "mem m = Some a" "mem (m + 1) = Some b" "mem (m + 2) = Some c" "mem (m + 3) = Some d" "mem (m + 4) = Some e"
        "mem (m + 5) = Some f" "mem (m + 6) = Some g" "mem (m + 7) = Some h" "mem (m + 8) = Some i"
      using nths 7 by (simp_all add: bs)
    from cmp8(4) [OF m] 7 show ?thesis by (simp add: method_switch_def bs mo)
  next
    case 8
    then show ?thesis using method_of_short [of bs] len by (auto simp: method_switch_def)
  qed
  then show ?thesis by (simp add: bs_def)
qed

section \<open>Invariant\<close>

text \<open>What is known of the method once it is complete, and of the URI that ends before the address \<open>e\<close>.\<close>

abbreviation method_char :: "byte \<Rightarrow> bool" where "method_char c \<equiv> \<not> bad_method_char c"

definition uri_char :: "byte \<Rightarrow> bool" where
  "uri_char c \<longleftrightarrow> c \<noteq> 0 \<and> c \<noteq> CR \<and> c \<noteq> LF"

definition method_part :: "mem \<Rightarrow> int \<Rightarrow> ngx_request \<Rightarrow> bool" where
  "method_part mem lo r \<longleftrightarrow> lo \<le> request_start r \<and> request_start r \<le> method_end r \<and>
     span mem (request_start r) (method_end r + 1) method_char \<and> mem (method_end r + 1) = Some 32 \<and>
     r_method r = method_of (slice mem (request_start r) (method_end r + 1))"

definition uri_part :: "mem \<Rightarrow> ngx_request \<Rightarrow> int \<Rightarrow> bool" where
  "uri_part mem r e \<longleftrightarrow> method_end r + 1 < uri_start r \<and> uri_start r < e \<and> mem (uri_start r) = Some 47 \<and> span mem (uri_start r) e uri_char"

definition version_ok :: "ngx_request \<Rightarrow> bool" where
  "version_ok r \<longleftrightarrow> http_major r = 0 \<and> http_minor r = 9 \<or> http_major r = 1 \<and> http_minor r \<le> 999"

definition schema_part :: "mem \<Rightarrow> ngx_request \<Rightarrow> bool" where
  "schema_part mem r \<longleftrightarrow> method_end r + 1 < schema_start r \<and> schema_start r < schema_end r \<and> mem (schema_end r + 1) = Some 47"

definition closed_part :: "mem \<Rightarrow> int \<Rightarrow> ngx_request \<Rightarrow> bool" where
  "closed_part mem lo r \<longleftrightarrow> method_part mem lo r \<and> uri_part mem r (uri_end r)"

fun rl_inv :: "mem \<Rightarrow> int \<Rightarrow> rl_state \<times> ngx_request \<Rightarrow> int \<Rightarrow> bool" where
  "rl_inv mem lo (st, r) p \<longleftrightarrow> lo \<le> p \<and> request_end r = 0 \<and>
     (case st of
        sw_start \<Rightarrow> r_method r = NGX_HTTP_UNKNOWN \<and> http_major r = 0
      | sw_method \<Rightarrow> r_method r = NGX_HTTP_UNKNOWN \<and> http_major r = 0 \<and> lo \<le> request_start r \<and> request_start r < p \<and>
          span mem (request_start r) p method_char
      | sw_spaces_before_uri \<Rightarrow> method_part mem lo r \<and> http_major r = 0 \<and> method_end r + 1 < p
      | sw_schema \<Rightarrow> method_part mem lo r \<and> http_major r = 0 \<and> method_end r + 1 < schema_start r \<and> schema_start r < p
      | sw_schema_slash \<Rightarrow> method_part mem lo r \<and> http_major r = 0 \<and> method_end r + 1 < schema_start r \<and> schema_start r < schema_end r \<and>
          schema_end r + 1 = p
      | sw_schema_slash_slash \<Rightarrow> method_part mem lo r \<and> http_major r = 0 \<and> schema_part mem r \<and> schema_end r + 2 = p
      | sw_host_start \<Rightarrow> method_part mem lo r \<and> http_major r = 0 \<and> schema_part mem r \<and> schema_end r + 2 < p
      | sw_host \<Rightarrow> method_part mem lo r \<and> http_major r = 0 \<and> schema_part mem r \<and> schema_end r + 2 < p
      | sw_host_end \<Rightarrow> method_part mem lo r \<and> http_major r = 0 \<and> schema_part mem r \<and> schema_end r + 2 < p
      | sw_host_ip_literal \<Rightarrow> method_part mem lo r \<and> http_major r = 0 \<and> schema_part mem r \<and> schema_end r + 2 < p
      | sw_port \<Rightarrow> method_part mem lo r \<and> http_major r = 0 \<and> schema_part mem r \<and> schema_end r + 2 < p
      | sw_after_slash_in_uri \<Rightarrow> method_part mem lo r \<and> http_major r = 0 \<and> uri_part mem r p
      | sw_check_uri \<Rightarrow> method_part mem lo r \<and> http_major r = 0 \<and> uri_part mem r p
      | sw_uri \<Rightarrow> method_part mem lo r \<and> http_major r = 0 \<and> uri_part mem r p
      | sw_check_uri_http_09 \<Rightarrow> closed_part mem lo r \<and> http_major r = 0 \<and> uri_part mem r p \<and> uri_end r < p
      | sw_http_09 \<Rightarrow> closed_part mem lo r \<and> http_major r = 0 \<and> uri_part mem r p \<and> uri_end r < p
      | sw_major_digit \<Rightarrow> closed_part mem lo r \<and> http_major r = 1 \<and> uri_end r < p
      | sw_first_minor_digit \<Rightarrow> closed_part mem lo r \<and> http_major r = 1 \<and> uri_end r < p
      | sw_minor_digit \<Rightarrow> closed_part mem lo r \<and> http_major r = 1 \<and> http_minor r \<le> 999 \<and> uri_end r < p
      | sw_spaces_after_digit \<Rightarrow> closed_part mem lo r \<and> version_ok r \<and> uri_end r < p
      | sw_almost_done \<Rightarrow> closed_part mem lo r \<and> version_ok r \<and> uri_end r < p
      | _ \<Rightarrow> closed_part mem lo r \<and> http_major r = 0 \<and> uri_end r < p)"

text \<open>What holds at the label \<open>done\<close>.\<close>

definition rl_final :: "mem \<Rightarrow> int \<Rightarrow> ngx_request \<Rightarrow> int \<Rightarrow> bool" where
  "rl_final mem lo r p \<longleftrightarrow> closed_part mem lo r \<and> version_ok r \<and> uri_end r \<le> p \<and> mem p = Some LF \<and>
     (request_end r = 0 \<or> request_end r = p - 1 \<and> uri_end r \<le> p - 1)"

lemma usual_uri_char: "usual ch \<Longrightarrow> uri_char ch"
proof -
  have "\<not> usual 0" "\<not> usual CR" "\<not> usual LF" by (simp_all add: usual_def usual_tab_def)
  then show "usual ch \<Longrightarrow> uri_char ch" by (auto simp: uri_char_def)
qed

lemma span_snoc: "span mem a p P \<Longrightarrow> mem p = Some c \<Longrightarrow> P c \<Longrightarrow> span mem a (p + 1) P"
  unfolding span_def by (metis zle_add1_eq_le order_le_less)

lemma span_one: "mem p = Some c \<Longrightarrow> P c \<Longrightarrow> span mem p (p + 1) P"
  by (rule span_snoc) (auto simp: span_def)

lemma uri_part_snoc: "uri_part mem r p \<Longrightarrow> mem p = Some c \<Longrightarrow> uri_char c \<Longrightarrow> uri_part mem r (p + 1)"
  by (auto simp: uri_part_def intro: span_snoc)

lemma uri_part_open:
  "mem p = Some 47 \<Longrightarrow> uri_start r = p \<Longrightarrow> method_end r + 1 < p \<Longrightarrow> uri_part mem r (p + 1)"
  by (auto simp: uri_part_def uri_char_def intro: span_one)

definition round_ok :: "mem \<Rightarrow> int \<Rightarrow> int \<Rightarrow> rl_round \<Rightarrow> bool" where
  "round_ok mem lo p x =
     (case x of
        Break st r \<Rightarrow> rl_inv mem lo (st, r) (p + 1)
      | Unread st r \<Rightarrow> rl_inv mem lo (st, r) p
      | Done r \<Rightarrow> rl_final mem lo r p
      | Return rc r \<Rightarrow> rc \<noteq> NGX_OK \<and> rc \<noteq> NGX_AGAIN)"

lemmas part_defs = method_part_def uri_part_def schema_part_def closed_part_def

lemma method_round:
  assumes "rl_inv mem lo (sw_method, r) p" "mem p = Some ch" "mem (p + 1) \<noteq> None"
  shows "\<exists>x. do_method mem r p ch = Some x \<and> round_ok mem lo p x"
proof (cases "ch = 32")
  case True
  obtain n where n: "p = request_start r + int n" using assms(1) by (metis less_imp_le rl_inv.simps rl_state.case(2) zle_iff_zadd)
  have "method_switch mem (request_start r) (p - request_start r) NGX_HTTP_UNKNOWN = Some (method_of (slice mem (request_start r) p))"
    using method_switch_ok [of mem "request_start r" n method_char] assms True by (simp add: n)
  then show ?thesis using assms True by (simp add: do_method_def round_ok_def method_part_def)
next
  case False
  then show ?thesis using assms by (auto simp: do_method_def round_ok_def intro: span_snoc)
qed

lemma start_round: "rl_inv mem lo (sw_start, r) p \<Longrightarrow> mem p = Some ch \<Longrightarrow> round_ok mem lo p (do_start r p ch)"
  by (auto simp: do_start_def round_ok_def Let_def intro: span_one)

lemma before_uri_round:
  "rl_inv mem lo (sw_spaces_before_uri, r) p \<Longrightarrow> mem p = Some ch \<Longrightarrow> round_ok mem lo p (do_spaces_before_uri r p ch)"
  by (auto simp: do_spaces_before_uri_def round_ok_def method_part_def intro: uri_part_open)

lemma schema_round:
  "rl_inv mem lo (sw_schema, r) p \<Longrightarrow> mem p = Some ch \<Longrightarrow> round_ok mem lo p (do_schema r p ch)"
  "rl_inv mem lo (sw_schema_slash, r) p \<Longrightarrow> mem p = Some ch \<Longrightarrow> round_ok mem lo p (expect CHR ''/'' sw_schema_slash_slash r ch)"
  "rl_inv mem lo (sw_schema_slash_slash, r) p \<Longrightarrow> mem p = Some ch \<Longrightarrow> round_ok mem lo p (expect CHR ''/'' sw_host_start r ch)"
  by (auto simp: do_schema_def expect_def round_ok_def method_part_def schema_part_def)

lemma closed_slash:
  assumes "method_part mem lo r" "schema_part mem r"
  shows "closed_part mem lo (uri_is_slash r)"
proof -
  have "schema_end r + 2 = schema_end r + 1 + 1" by simp
  then show ?thesis using assms span_one [of mem "schema_end r + 1" 47 uri_char]
    by (simp only: method_part_def schema_part_def closed_part_def uri_is_slash_def uri_part_def uri_char_def) simp
qed

lemma closed_slash_frame [simp]:
  "uri_is_slash r\<lparr>host_end := x\<rparr> = uri_is_slash (r\<lparr>host_end := x\<rparr>)" "uri_is_slash r\<lparr>port_end := x\<rparr> = uri_is_slash (r\<lparr>port_end := x\<rparr>)"
  "request_end (uri_is_slash r) = request_end r" "http_major (uri_is_slash r) = http_major r" "uri_end (uri_is_slash r) = schema_end r + 2"
  by (simp_all add: uri_is_slash_def)

definition host_inv :: "mem \<Rightarrow> int \<Rightarrow> ngx_request \<Rightarrow> int \<Rightarrow> bool" where
  "host_inv mem lo r p \<longleftrightarrow> lo \<le> p \<and> request_end r = 0 \<and> method_part mem lo r \<and> http_major r = 0 \<and> schema_part mem r \<and> schema_end r + 2 < p"

lemma host_inv_iff:
  "st \<in> {sw_host_start, sw_host, sw_host_end, sw_host_ip_literal, sw_port} \<Longrightarrow> rl_inv mem lo (st, r) p \<longleftrightarrow> host_inv mem lo r p"
  by (auto simp: host_inv_def)

lemma host_inv_frame [simp]:
  "host_inv mem lo (r\<lparr>host_start := x\<rparr>) p = host_inv mem lo r p" "host_inv mem lo (r\<lparr>host_end := x\<rparr>) p = host_inv mem lo r p"
  "host_inv mem lo (r\<lparr>port_end := x\<rparr>) p = host_inv mem lo r p"
  by (simp_all add: host_inv_def method_part_def schema_part_def)

lemma host_next: "host_inv mem lo r p \<Longrightarrow> host_inv mem lo r (p + 1)"
  by (simp add: host_inv_def)

lemma host_slash: "host_inv mem lo r p \<Longrightarrow> mem p = Some 47 \<Longrightarrow> rl_inv mem lo (sw_after_slash_in_uri, r\<lparr>uri_start := p\<rparr>) (p + 1)"
  by (auto simp: host_inv_def method_part_def schema_part_def intro: uri_part_open)

lemma host_space: "host_inv mem lo r p \<Longrightarrow> rl_inv mem lo (sw_host_http_09, uri_is_slash r) (p + 1)"
  by (simp add: host_inv_def closed_slash)

lemmas host_facts = host_next host_slash host_space

lemma host_end_round: "host_inv mem lo r p \<Longrightarrow> mem p = Some ch \<Longrightarrow> round_ok mem lo p (do_host_end r p ch)"
  using host_slash [of mem lo "r\<lparr>host_end := p\<rparr>" p] host_space [of mem lo "r\<lparr>host_end := p\<rparr>" p]
  by (auto simp: do_host_end_def round_ok_def Let_def host_inv_iff simp del: rl_inv.simps intro: host_next)

lemma host_round: "host_inv mem lo r p \<Longrightarrow> mem p = Some ch \<Longrightarrow> round_ok mem lo p (do_host r p ch)"
  using host_end_round [of mem lo r p ch]
  by (auto simp: do_host_def round_ok_def host_inv_iff simp del: rl_inv.simps intro: host_facts)

lemma host_start_round: "host_inv mem lo r p \<Longrightarrow> mem p = Some ch \<Longrightarrow> round_ok mem lo p (do_host_start r p ch)"
  using host_round [of mem lo "r\<lparr>host_start := p\<rparr>" p ch]
  by (auto simp: do_host_start_def Let_def round_ok_def host_inv_iff simp del: rl_inv.simps intro: host_facts)

lemma host_ip_round: "host_inv mem lo r p \<Longrightarrow> mem p = Some ch \<Longrightarrow> round_ok mem lo p (do_host_ip_literal r p ch)"
  by (simp add: do_host_ip_literal_def round_ok_def host_inv_iff host_next del: rl_inv.simps)

lemma port_round: "host_inv mem lo r p \<Longrightarrow> mem p = Some ch \<Longrightarrow> round_ok mem lo p (do_port r p ch)"
  using host_slash [of mem lo "r\<lparr>port_end := p\<rparr>" p] host_space [of mem lo "r\<lparr>port_end := p\<rparr>" p]
  by (auto simp: do_port_def round_ok_def host_inv_iff simp del: rl_inv.simps intro: host_next)

definition uri_inv :: "mem \<Rightarrow> int \<Rightarrow> ngx_request \<Rightarrow> int \<Rightarrow> bool" where
  "uri_inv mem lo r p \<longleftrightarrow> lo \<le> p \<and> request_end r = 0 \<and> method_part mem lo r \<and> http_major r = 0 \<and> uri_part mem r p"

lemma uri_inv_iff:
  "st \<in> {sw_after_slash_in_uri, sw_check_uri, sw_uri} \<Longrightarrow> rl_inv mem lo (st, r) p \<longleftrightarrow> uri_inv mem lo r p"
  by (auto simp: uri_inv_def)

lemma uri_inv_frame [simp]:
  "uri_inv mem lo (r\<lparr>complex_uri := b\<rparr>) p = uri_inv mem lo r p" "uri_inv mem lo (r\<lparr>quoted_uri := b\<rparr>) p = uri_inv mem lo r p"
  "uri_inv mem lo (r\<lparr>plus_in_uri := b\<rparr>) p = uri_inv mem lo r p" "uri_inv mem lo (r\<lparr>space_in_uri := b\<rparr>) p = uri_inv mem lo r p"
  "uri_inv mem lo (r\<lparr>args_start := x\<rparr>) p = uri_inv mem lo r p" "uri_inv mem lo (r\<lparr>uri_ext := x\<rparr>) p = uri_inv mem lo r p"
  by (simp_all add: uri_inv_def method_part_def uri_part_def)

lemma uri_next: "uri_inv mem lo r p \<Longrightarrow> mem p = Some c \<Longrightarrow> uri_char c \<Longrightarrow> uri_inv mem lo r (p + 1)"
  by (auto simp: uri_inv_def intro: uri_part_snoc)

lemma uri_close:
  assumes "uri_inv mem lo r p"
  shows "mem p = Some 32 \<Longrightarrow> rl_inv mem lo (sw_check_uri_http_09, r\<lparr>uri_end := p\<rparr>) (p + 1)"
    and "mem p = Some 32 \<Longrightarrow> rl_inv mem lo (sw_http_09, r\<lparr>uri_end := p\<rparr>) (p + 1)"
    and "rl_inv mem lo (sw_almost_done, r\<lparr>uri_end := p, http_minor := 9\<rparr>) (p + 1)"
    and "mem p = Some LF \<Longrightarrow> rl_final mem lo (r\<lparr>uri_end := p, http_minor := 9\<rparr>) p"
  using assms span_snoc [of mem "uri_start r" p uri_char 32]
  by (simp_all add: uri_inv_def part_defs version_ok_def rl_final_def uri_char_def)

lemma uri_round:
  assumes "uri_inv mem lo r p" "mem p = Some ch"
  shows "round_ok mem lo p (do_after_slash_in_uri r p ch)" "round_ok mem lo p (do_check_uri r p ch)" "round_ok mem lo p (do_uri r p ch)"
proof -
  note facts = uri_close [OF assms(1)] uri_next [OF assms] usual_uri_char [of ch] assms
  show "round_ok mem lo p (do_after_slash_in_uri r p ch)"
    using facts by (simp add: do_after_slash_in_uri_def round_ok_def uri_inv_iff uri_char_def del: rl_inv.simps)
  show "round_ok mem lo p (do_check_uri r p ch)"
    using facts by (simp add: do_check_uri_def round_ok_def uri_inv_iff uri_char_def del: rl_inv.simps)
  show "round_ok mem lo p (do_uri r p ch)"
    using facts by (simp add: do_uri_def round_ok_def uri_inv_iff uri_char_def del: rl_inv.simps)
qed

definition closed_inv :: "mem \<Rightarrow> int \<Rightarrow> ngx_request \<Rightarrow> int \<Rightarrow> bool" where
  "closed_inv mem lo r p \<longleftrightarrow> lo \<le> p \<and> request_end r = 0 \<and> closed_part mem lo r \<and> uri_end r < p"

lemma closed_inv_frame [simp]:
  "closed_inv mem lo (r\<lparr>http_minor := n\<rparr>) p = closed_inv mem lo r p" "closed_inv mem lo (r\<lparr>http_major := n\<rparr>) p = closed_inv mem lo r p"
  "closed_inv mem lo (r\<lparr>http_protocol := x\<rparr>) p = closed_inv mem lo r p"
  by (simp_all add: closed_inv_def part_defs)

lemma closed_next: "closed_inv mem lo r p \<Longrightarrow> closed_inv mem lo r (p + 1)"
  by (simp add: closed_inv_def)

lemma closed_inv_iff:
  "st \<in> {sw_host_http_09, sw_http_H, sw_http_HT, sw_http_HTT, sw_http_HTTP, sw_first_major_digit} \<Longrightarrow>
     rl_inv mem lo (st, r) p \<longleftrightarrow> closed_inv mem lo r p \<and> http_major r = 0"
  "st \<in> {sw_major_digit, sw_first_minor_digit} \<Longrightarrow> rl_inv mem lo (st, r) p \<longleftrightarrow> closed_inv mem lo r p \<and> http_major r = 1"
  "rl_inv mem lo (sw_minor_digit, r) p \<longleftrightarrow> closed_inv mem lo r p \<and> http_major r = 1 \<and> http_minor r \<le> 999"
  "st \<in> {sw_spaces_after_digit, sw_almost_done} \<Longrightarrow> rl_inv mem lo (st, r) p \<longleftrightarrow> closed_inv mem lo r p \<and> version_ok r"
  "st \<in> {sw_check_uri_http_09, sw_http_09} \<Longrightarrow> rl_inv mem lo (st, r) p \<longleftrightarrow> closed_inv mem lo r p \<and> http_major r = 0 \<and> uri_part mem r p"
  by (auto simp: closed_inv_def)

lemma closed_final: "closed_inv mem lo r p \<Longrightarrow> version_ok r \<Longrightarrow> mem p = Some LF \<Longrightarrow> rl_final mem lo r p"
  by (auto simp: closed_inv_def rl_final_def)

lemma almost_done_round:
  "closed_inv mem lo r p \<Longrightarrow> version_ok r \<Longrightarrow> mem p = Some ch \<Longrightarrow> round_ok mem lo p (do_almost_done r p ch)"
  by (auto simp: do_almost_done_def round_ok_def Let_def closed_inv_def rl_final_def part_defs version_ok_def)

lemma http_09_round:
  assumes "closed_inv mem lo r p" "http_major r = 0" "mem p = Some ch"
  shows "round_ok mem lo p (do_host_http_09 r p ch)"
    and "uri_part mem r p \<Longrightarrow> round_ok mem lo p (do_check_uri_http_09 r p ch)"
    and "uri_part mem r p \<Longrightarrow> round_ok mem lo p (do_http_09 r p ch)"
proof -
  have v: "version_ok (r\<lparr>http_minor := 9\<rparr>)" using assms(2) by (simp add: version_ok_def)
  have f: "mem p = Some LF \<Longrightarrow> rl_final mem lo (r\<lparr>http_minor := 9\<rparr>) p" using assms(1) v by (intro closed_final) simp_all
  have u: "uri_part mem r p \<Longrightarrow> mem p = Some 32 \<Longrightarrow> uri_part mem r (p + 1)" using uri_part_snoc [of mem r p 32] by (simp add: uri_char_def)
  have bk: "uri_part mem r p \<Longrightarrow> uri_inv mem lo r p" using assms(1,2) by (simp add: uri_inv_def closed_inv_def closed_part_def)
  note facts = closed_next [OF assms(1)] v f u bk assms
  show "round_ok mem lo p (do_host_http_09 r p ch)"
    using facts by (simp add: do_host_http_09_def round_ok_def closed_inv_iff del: rl_inv.simps)
  show "uri_part mem r p \<Longrightarrow> round_ok mem lo p (do_check_uri_http_09 r p ch)"
    using facts by (simp add: do_check_uri_http_09_def round_ok_def closed_inv_iff uri_inv_iff del: rl_inv.simps)
  show "uri_part mem r p \<Longrightarrow> round_ok mem lo p (do_http_09 r p ch)"
    using facts by (simp add: do_http_09_def round_ok_def closed_inv_iff uri_inv_iff del: rl_inv.simps)
qed

lemma digit_bounds: "\<not> (ch < 48 \<or> ch > 57) \<Longrightarrow> digit_val ch \<le> 9" for ch :: byte
  by (auto simp: digit_val_def word_less_nat_alt)

lemma version_round:
  assumes "closed_inv mem lo r p" "mem p = Some ch"
  shows "http_major r = 0 \<Longrightarrow> round_ok mem lo p (do_first_major_digit r ch)"
    and "http_major r = 1 \<Longrightarrow> round_ok mem lo p (do_major_digit r ch)"
    and "http_major r = 1 \<Longrightarrow> round_ok mem lo p (do_first_minor_digit r ch)"
    and "http_major r = 1 \<Longrightarrow> http_minor r \<le> 999 \<Longrightarrow> round_ok mem lo p (do_minor_digit r ch)"
    and "version_ok r \<Longrightarrow> round_ok mem lo p (do_spaces_after_digit r ch)"
    and "http_major r = 0 \<Longrightarrow> st \<in> {sw_http_HT, sw_http_HTT, sw_http_HTTP, sw_first_major_digit} \<Longrightarrow> round_ok mem lo p (expect c st r ch)"
proof -
  note facts = closed_next [OF assms(1)] assms digit_bounds [of ch]
  show "http_major r = 0 \<Longrightarrow> round_ok mem lo p (do_first_major_digit r ch)"
    using facts by (auto simp: do_first_major_digit_def round_ok_def Let_def closed_inv_iff u16_def digit_val_def word_less_nat_alt simp del: rl_inv.simps)
  show "http_major r = 1 \<Longrightarrow> round_ok mem lo p (do_major_digit r ch)"
    using facts by (auto simp: do_major_digit_def round_ok_def Let_def closed_inv_iff u16_def simp del: rl_inv.simps)
  show "http_major r = 1 \<Longrightarrow> round_ok mem lo p (do_first_minor_digit r ch)"
    using facts by (auto simp: do_first_minor_digit_def round_ok_def closed_inv_iff u16_def simp del: rl_inv.simps)
  show "http_major r = 1 \<Longrightarrow> http_minor r \<le> 999 \<Longrightarrow> round_ok mem lo p (do_minor_digit r ch)"
    using facts by (auto simp: do_minor_digit_def round_ok_def closed_inv_iff u16_def version_ok_def closed_final simp del: rl_inv.simps)
  show "version_ok r \<Longrightarrow> round_ok mem lo p (do_spaces_after_digit r ch)"
    using facts by (auto simp: do_spaces_after_digit_def round_ok_def closed_inv_iff closed_final simp del: rl_inv.simps)
  show "http_major r = 0 \<Longrightarrow> st \<in> {sw_http_HT, sw_http_HTT, sw_http_HTTP, sw_first_major_digit} \<Longrightarrow> round_ok mem lo p (expect c st r ch)"
    using facts by (auto simp: expect_def round_ok_def closed_inv_iff simp del: rl_inv.simps)
qed

lemma rl_switch_round:
  assumes "rl_inv mem lo (st, r) p" "mem p = Some ch" "mem (p + 1) \<noteq> None"
  shows "\<exists>x. rl_switch mem st r p ch = Some x \<and> round_ok mem lo p x"
proof -
  note rounds = start_round method_round before_uri_round schema_round host_start_round host_round host_end_round host_ip_round port_round
    uri_round http_09_round version_round almost_done_round
  show ?thesis using assms
    by (cases st) (auto simp: rl_switch_def host_inv_iff uri_inv_iff closed_inv_iff simp del: rl_inv.simps intro: rounds)
qed

definition rl_exit_ok :: "mem \<Rightarrow> int \<Rightarrow> int \<Rightarrow> rl_exit \<Rightarrow> bool" where
  "rl_exit_ok mem lo lst x =
     (case x of Inl (r, p) \<Rightarrow> rl_final mem lo r p \<and> p < lst | Inr (rc, r) \<Rightarrow> rc \<noteq> NGX_OK \<and> rc \<noteq> NGX_AGAIN)"

lemma rl_step_round:
  assumes "rl_inv mem lo s p" "p < lst" "\<forall>x. lo \<le> x \<and> x \<le> lst \<longrightarrow> mem x \<noteq> None"
  shows "\<exists>x. rl_step mem s p = Some x \<and> (case x of Inl (s', p') \<Rightarrow> rl_inv mem lo s' p' | Inr r \<Rightarrow> rl_exit_ok mem lo lst r)"
proof -
  obtain st r where s: "s = (st, r)" by (cases s)
  have lo: "lo \<le> p" using assms(1) by (simp add: s)
  obtain ch where ch: "mem p = Some ch" using assms(2,3) lo by fastforce
  have "mem (p + 1) \<noteq> None" using assms(2,3) lo by auto
  from rl_switch_round [OF assms(1) [unfolded s] ch this] obtain x where
    x: "rl_switch mem st r p ch = Some x" "round_ok mem lo p x" by blast
  have "rl_step mem s p = Some (case x of
         Break st r \<Rightarrow> Inl ((st, r), p + 1)
       | Unread st r \<Rightarrow> Inl ((st, r), p)
       | Done r \<Rightarrow> Inr (Inl (r, p))
       | Return rc r \<Rightarrow> Inr (Inr (rc, r)))" by (simp add: rl_step_def s ch x(1))
  then show ?thesis using x(2) assms(2) by (cases x) (simp_all add: round_ok_def rl_exit_ok_def del: rl_inv.simps)
qed

lemma rl_scan_ok:
  assumes "rl_inv mem lo s p" "p \<le> lst" "\<forall>x. lo \<le> x \<and> x \<le> lst \<longrightarrow> mem x \<noteq> None"
  shows "\<exists>x. rl_scan mem lst s p = Some x \<and> (case x of Inl (s', p') \<Rightarrow> rl_inv mem lo s' p' \<and> p' = lst | Inr r \<Rightarrow> rl_exit_ok mem lo lst r)"
  using rl.scan_inv [where I = "rl_inv mem lo" and J = "rl_exit_ok mem lo lst", OF rl_step_round [OF _ _ assms(3)] assms(1,2)] .

text \<open>The line between \<open>r->request_start\<close> and \<open>b->pos\<close> when the parser returns \<open>NGX_OK\<close>.\<close>

definition line_ok :: "mem \<Rightarrow> int \<Rightarrow> ngx_request \<Rightarrow> int \<Rightarrow> bool" where
  "line_ok mem lo r pos \<longleftrightarrow>
     lo \<le> request_start r \<and> request_start r \<le> method_end r \<and> method_end r + 1 < uri_start r \<and> uri_start r < uri_end r \<and>
     uri_end r \<le> request_end r \<and> request_end r < pos \<and>
     span mem (request_start r) (method_end r + 1) method_char \<and> mem (method_end r + 1) = Some 32 \<and>
     r_method r = method_of (slice mem (request_start r) (method_end r + 1)) \<and>
     mem (uri_start r) = Some 47 \<and> span mem (uri_start r) (uri_end r) uri_char \<and> mem (pos - 1) = Some LF \<and>
     (http_version r = 9 \<and> r_method r = NGX_HTTP_GET \<or> 1000 \<le> http_version r \<and> http_version r \<le> 1999)"

lemma rl_inv_state: "rl_inv mem lo (st, r\<lparr>r_state := x\<rparr>) p = rl_inv mem lo (st, r) p"
  by (cases st) (simp_all add: part_defs version_ok_def)

lemma rl_done_ok:
  assumes "rl_final mem lo r p" "rl_done r p = (r', pos', rc)"
  shows "pos' = p + 1 \<and> rc \<noteq> NGX_AGAIN \<and> (rc = NGX_OK \<longrightarrow> line_ok mem lo r' pos')"
proof -
  have f: "closed_part mem lo r" "version_ok r" "uri_end r \<le> p" "mem p = Some LF" "request_end r = 0 \<or> request_end r = p - 1 \<and> uri_end r \<le> p - 1"
    using assms(1) by (simp_all add: rl_final_def)
  define q where "q = (if request_end r = 0 then p else request_end r)"
  have q: "uri_end r \<le> q" "q \<le> p" using f(3,5) by (auto simp: q_def)
  have "(if request_end r = 0 then r\<lparr>request_end := p\<rparr> else r) = r\<lparr>request_end := q\<rparr>" by (simp add: q_def)
  then have r': "r' = r\<lparr>request_end := q, http_version := http_major r * 1000 + http_minor r, r_state := sw_start\<rparr>" "pos' = p + 1"
    "rc = (if http_major r * 1000 + http_minor r = 9 \<and> r_method r \<noteq> NGX_HTTP_GET then NGX_HTTP_PARSE_INVALID_09_METHOD else NGX_OK)"
    using assms(2) unfolding rl_done_def Let_def by simp_all
  have v: "http_major r * 1000 + http_minor r = 9 \<or> 1000 \<le> http_major r * 1000 + http_minor r \<and> http_major r * 1000 + http_minor r \<le> 1999"
    using f(2) by (auto simp: version_ok_def)
  have "rc = NGX_OK \<Longrightarrow> line_ok mem lo r' pos'"
    using f(1,4) q v unfolding r' by (auto simp: line_ok_def part_defs split: if_splits)
  then show ?thesis using r'(2,3) by auto
qed

section \<open>Accepted lines\<close>

lemma bytes_at_span: "bytes_at mem p bs \<Longrightarrow> list_all P bs \<Longrightarrow> span mem p (p + int (length bs)) P"
proof -
  assume b: "bytes_at mem p bs" and P: "list_all P bs"
  have "\<exists>c. mem x = Some c \<and> P c" if x: "p \<le> x" "x < p + int (length bs)" for x
    using bytes_at_nth [OF b, of "nat (x - p)"] P x by (auto simp: list_all_length)
  then show "span mem p (p + int (length bs)) P" by (auto simp: span_def)
qed

lemma rl_go:
  "mem p = Some ch \<Longrightarrow> p < lst \<Longrightarrow> rl_switch mem st r p ch = Some (Break st' r') \<Longrightarrow>
     rl_scan mem lst (st, r) p = rl_scan mem lst (st', r') (p + 1)"
  by (rule rl.scan_go) (simp_all add: rl_step_def)

lemma method_run:
  "bytes_at mem p bs \<Longrightarrow> p + int (length bs) \<le> lst \<Longrightarrow> list_all method_char bs \<Longrightarrow>
     rl_scan mem lst (sw_method, r) p = rl_scan mem lst (sw_method, r) (p + int (length bs))"
proof (induction bs arbitrary: p)
  case (Cons b bs)
  have b: "mem p = Some b" "bytes_at mem (p + 1) bs" using Cons.prems(1) by simp_all
  have "b \<noteq> 32" using Cons.prems(3) by (auto simp: bad_method_char_def)
  then have "rl_switch mem sw_method r p b = Some (Break sw_method r)" using Cons.prems(3) by (simp add: rl_switch_def do_method_def)
  from rl_go [OF b(1) _ this] Cons.IH [OF b(2)] Cons.prems(2,3) show ?case by (simp add: algebra_simps)
qed simp

text \<open>A path of the plain characters in segments between single slashes.\<close>

fun plain_path :: "bool \<Rightarrow> byte list \<Rightarrow> bool" where
  "plain_path slash [] = True"
| "plain_path slash (c # cs) = (if usual c then plain_path False cs else c = 47 \<and> \<not> slash \<and> plain_path True cs)"

lemma not_usual: "\<not> usual 47" "\<not> usual 32"
  by (simp_all add: usual_def usual_tab_def)

lemma path_run:
  "bytes_at mem p bs \<Longrightarrow> p + int (length bs) \<le> lst \<Longrightarrow> plain_path slash bs \<Longrightarrow> uri_ext r = 0 \<Longrightarrow>
     \<exists>st \<in> {sw_after_slash_in_uri, sw_check_uri}.
       rl_scan mem lst (if slash then sw_after_slash_in_uri else sw_check_uri, r) p = rl_scan mem lst (st, r) (p + int (length bs))"
proof (induction bs arbitrary: p slash)
  case (Cons b bs)
  have b: "mem p = Some b" "bytes_at mem (p + 1) bs" using Cons.prems(1) by simp_all
  define slash' where "slash' = (\<not> usual b)"
  have "rl_switch mem (if slash then sw_after_slash_in_uri else sw_check_uri) r p b =
      Some (Break (if slash' then sw_after_slash_in_uri else sw_check_uri) r)" "plain_path slash' bs"
    using Cons.prems(3,4) by (auto simp: rl_switch_def do_after_slash_in_uri_def do_check_uri_def slash'_def split: if_splits)
  from rl_go [OF b(1) _ this(1)] Cons.IH [OF b(2) _ this(2) Cons.prems(4)] Cons.prems(2)
  show ?case by (simp add: algebra_simps)
qed simp

lemma digit_byte: "d \<le> 9 \<Longrightarrow> unat (of_nat (48 + d) :: byte) = 48 + d"
  by (simp add: unat_of_nat del: of_nat_add)

lemma version_run:
  assumes "bytes_at mem p (map chr ''HTTP/1.'' @ [of_nat (48 + d), CR])" "p + 9 \<le> lst" "d \<le> 9"
    and st: "st \<in> {sw_check_uri_http_09, sw_http_09, sw_host_http_09}"
  shows "rl_scan mem lst (st, r) p =
    rl_scan mem lst (sw_almost_done, r\<lparr>http_protocol := p, http_major := 1, http_minor := d\<rparr>) (9 + p)"
proof -
  define c :: byte where "c = of_nat (48 + d)"
  have c: "unat c = 48 + d" unfolding c_def using assms(3) by (rule digit_byte)
  have m: "mem p = Some 72" "mem (p + 1) = Some 84" "mem (2 + p) = Some 84" "mem (3 + p) = Some 80" "mem (4 + p) = Some 47"
    "mem (5 + p) = Some 49" "mem (6 + p) = Some 46" "mem (7 + p) = Some c" "mem (8 + p) = Some CR"
    using assms(1) unfolding c_def [symmetric] by (simp_all add: add.assoc add.commute)
  have sw: "rl_switch mem st r p 72 = Some (Break sw_http_H (r\<lparr>http_protocol := p\<rparr>))"
    using st by (auto simp: rl_switch_def do_check_uri_http_09_def do_http_09_def do_host_http_09_def)
  have c': "\<not> c < 48" "\<not> c > 57" "c \<noteq> 13" "c \<noteq> 10" "c \<noteq> 32" "digit_val c = d"
    using c assms(3) by (auto simp: word_less_nat_alt digit_val_def)
  show ?thesis
    using assms(2,3)
    by (simp add: rl_go [where mem = mem, OF m(1) _ sw] rl_go [where mem = mem, OF m(2)] rl_go [where mem = mem, OF m(3)] rl_go [where mem = mem, OF m(4)] rl_go [where mem = mem, OF m(5)] rl_go [where mem = mem, OF m(6)] rl_go [where mem = mem, OF m(7)]
        rl_go [where mem = mem, OF m(8)] rl_go [where mem = mem, OF m(9)] rl_switch_def rl_defs c c' u16_def digit_val_def)
qed

section \<open>An example\<close>

definition zero_request :: ngx_request where
  "zero_request = \<lparr>r_state = sw_start, r_method = NGX_HTTP_UNKNOWN, http_version = 0, http_protocol = 0, complex_uri = False, quoted_uri = False,
     plus_in_uri = False, space_in_uri = False, uri_start = 0, uri_end = 0, uri_ext = 0, args_start = 0, request_start = 0, request_end = 0,
     method_end = 0, schema_start = 0, schema_end = 0, host_start = 0, host_end = 0, port_start = 0, port_end = 0, http_minor = 0, http_major = 0\<rparr>"

definition get_line :: "byte list" where
  "get_line = map chr ''GET'' @ [32] @ 47 # map chr ''a/b'' @ [32] @ map chr ''HTTP/1.'' @ [of_nat (48 + 1), CR, LF]"

definition get_mem :: mem where
  "get_mem = mem_store (\<lambda>_. Some 0) 100 get_line"

lemma get_mem_at: "bytes_at get_mem 100 get_line"
  by (simp add: get_mem_def)

lemma get_mem_readable: "get_mem x \<noteq> None"
  by (simp add: get_mem_def mem_store_def)

section \<open>Properties\<close>

text \<open>
  C11. Safety and invariant of \<open>ngx_http_parse_request_line\<close>. Called between two reads in a state that satisfies the invariant
  (a fresh request does), with the bytes up to \<open>b->last\<close> and one byte more addressable, the parser returns and reads
  nothing else. When it asks for more data it has used all of it and the invariant holds again. When it accepts
  the line, the pointers it leaves are in order within the line: the method, made of method characters and
  classified by its name, is followed by a space; the URI starts with a slash and has no NUL, CR or LF; the line
  ends with LF; and the version is 0.9 with method GET, or 1.0 to 1.999.
\<close>
theorem request_line_invariant:
  assumes "rl_inv mem lo (r_state r, r) pos" "pos \<le> lst" "\<forall>x. lo \<le> x \<and> x \<le> lst \<longrightarrow> mem x \<noteq> None"
  shows "\<exists>r' pos' rc. ngx_http_parse_request_line mem r pos lst = Some (r', pos', rc) \<and>
    (rc = NGX_AGAIN \<longrightarrow> rl_inv mem lo (r_state r', r') pos' \<and> pos' = lst) \<and>
    (rc = NGX_OK \<longrightarrow> line_ok mem lo r' pos' \<and> pos' \<le> lst)"
proof -
  from rl_scan_ok [OF assms] obtain x where x: "rl_scan mem lst (r_state r, r) pos = Some x"
    "case x of Inl (s', p') \<Rightarrow> rl_inv mem lo s' p' \<and> p' = lst | Inr r \<Rightarrow> rl_exit_ok mem lo lst r" by blast
  consider st r1 p where "x = Inl ((st, r1), p)" | r1 p where "x = Inr (Inl (r1, p))" | rc r1 where "x = Inr (Inr (rc, r1))"
    by (metis sum.exhaust surj_pair)
  then show ?thesis
  proof cases
    case 1
    then show ?thesis using x by (auto simp: ngx_http_parse_request_line_def rl_inv_state simp del: rl_inv.simps)
  next
    case 2
    obtain r' pos' rc where d: "rl_done r1 p = (r', pos', rc)" by (cases "rl_done r1 p")
    have "rl_final mem lo r1 p" "p < lst" using x(2) by (simp_all add: 2 rl_exit_ok_def)
    with rl_done_ok [OF this(1) d] show ?thesis using x(1) by (auto simp: ngx_http_parse_request_line_def 2 d)
  next
    case 3
    then show ?thesis using x by (simp add: ngx_http_parse_request_line_def rl_exit_ok_def)
  qed
qed

theorem request_line_invariant_witness:
  "\<exists>r' pos' rc. ngx_http_parse_request_line get_mem zero_request 100 110 = Some (r', pos', rc) \<and>
    (rc = NGX_AGAIN \<longrightarrow> rl_inv get_mem 100 (r_state r', r') pos' \<and> pos' = 110) \<and>
    (rc = NGX_OK \<longrightarrow> line_ok get_mem 100 r' pos' \<and> pos' \<le> 110)"
proof -
  have "rl_inv get_mem 100 (r_state zero_request, zero_request) 100" by (simp add: zero_request_def)
  from request_line_invariant [OF this] show ?thesis by (simp add: get_mem_readable del: rl_inv.simps)
qed

definition fresh :: "ngx_request \<Rightarrow> bool" where
  "fresh r \<longleftrightarrow> r_state r = sw_start \<and> r_method r = NGX_HTTP_UNKNOWN \<and> request_end r = 0 \<and> uri_ext r = 0 \<and> http_major r = 0"

lemma method_line:
  assumes "bytes_at mem pos (name @ [32])" "mem (pos + int (length name) + 1) \<noteq> None" "pos + int (length name) < lst"
    and "name \<noteq> []" "list_all method_char name" "r_method r = NGX_HTTP_UNKNOWN"
  shows "rl_scan mem lst (sw_start, r) pos =
    rl_scan mem lst (sw_spaces_before_uri, r\<lparr>request_start := pos, method_end := pos + int (length name) - 1, r_method := method_of name\<rparr>)
      (pos + int (length name) + 1)"
proof -
  obtain c cs where name: "name = c # cs" using assms(4) by (cases name) auto
  define m where "m = pos + int (length name)"
  have b: "mem pos = Some c" "bytes_at mem (pos + 1) cs" "bytes_at mem pos name" "mem m = Some 32"
    using assms(1) by (simp_all add: bytes_at_append name m_def add.assoc)
  have c: "method_char c" "c \<noteq> CR" "c \<noteq> LF" "list_all method_char cs" using assms(5) by (auto simp: name bad_method_char_def)
  let ?r = "r\<lparr>request_start := pos\<rparr>"
  have "rl_scan mem lst (sw_start, r) pos = rl_scan mem lst (sw_method, ?r) (pos + 1)"
    using c assms(3) b(1) by (intro rl_go [where ch = c]) (simp_all add: rl_switch_def do_start_def)
  also have "\<dots> = rl_scan mem lst (sw_method, ?r) m"
    using method_run [OF b(2) _ c(4), of lst] assms(3) by (simp add: m_def name algebra_simps)
  also have "\<dots> = rl_scan mem lst (sw_spaces_before_uri, ?r\<lparr>method_end := m - 1, r_method := method_of name\<rparr>) (m + 1)"
  proof -
    have "method_switch mem pos (m - pos) NGX_HTTP_UNKNOWN = Some (method_of name)"
      using method_switch_ok [OF bytes_at_span [OF b(3) assms(5)]] b(4) assms(2) bytes_at_slice [OF b(3)] by (simp add: m_def)
    then show ?thesis using assms(3,6) b(4) by (intro rl_go [where ch = 32]) (simp_all add: rl_switch_def do_method_def m_def)
  qed
  finally show ?thesis by (simp add: m_def)
qed

text \<open>
  C19. \<open>ngx_http_parse_request_line\<close> accepts every plain HTTP/1.x request line. For a name of method characters, a path of plain
  characters in segments between single slashes and a minor version of one digit, the line
  \<open>name SP path SP HTTP/1.d CR LF\<close> is accepted; the pointers delimit exactly the name, the path and the line, and
  the method and version are those of the line.
\<close>
theorem request_line_recognised:
  assumes "line = name @ [32] @ 47 # path @ [32] @ map chr ''HTTP/1.'' @ [of_nat (48 + d), CR, LF]"
    and "bytes_at mem pos line" "lst = pos + int (length line)" "mem lst \<noteq> None"
    and "name \<noteq> []" "list_all method_char name" "plain_path True path" "d \<le> 9" "fresh r" "0 < pos"
  shows "ngx_http_parse_request_line mem r pos lst =
    Some (let m = pos + int (length name); u = m + 1; v = u + 1 + int (length path) in
      (r\<lparr>request_start := pos, method_end := m - 1, r_method := method_of name, uri_start := u, uri_end := v,
         http_protocol := v + 1, request_end := lst - 2, http_major := 1, http_minor := d, http_version := 1000 + d,
         r_state := sw_start\<rparr>, lst, NGX_OK))"
proof -
  define m where "m = pos + int (length name)"
  define u where "u = m + 1"
  define v where "v = u + 1 + int (length path)"
  have lst: "lst = v + 11" using assms(1,3) by (simp add: v_def u_def m_def)
  have b: "bytes_at mem pos (name @ [32])" "mem u = Some 47" "bytes_at mem (u + 1) path" "mem v = Some 32"
    "bytes_at mem (v + 1) (map chr ''HTTP/1.'' @ [of_nat (48 + d), CR])" "mem (v + 10) = Some LF"
    using assms(2) unfolding assms(1) bytes_at_append bytes_at.simps list.map
    by (simp_all add: m_def u_def v_def algebra_simps)
  let ?r = "r\<lparr>request_start := pos, method_end := m - 1, r_method := method_of name\<rparr>"
  have s2: "rl_scan mem lst (sw_start, r) pos = rl_scan mem lst (sw_spaces_before_uri, ?r) u"
    using method_line [OF b(1) _ _ assms(5,6), of lst r] b(2) lst assms(9) by (simp add: u_def v_def m_def fresh_def)
  let ?r2 = "?r\<lparr>uri_start := u\<rparr>"
  have s3: "rl_scan mem lst (sw_spaces_before_uri, ?r) u = rl_scan mem lst (sw_after_slash_in_uri, ?r2) (u + 1)"
    using b(2) lst by (intro rl_go [where ch = 47]) (simp_all add: rl_switch_def do_spaces_before_uri_def v_def)
  obtain st where st: "st \<in> {sw_after_slash_in_uri, sw_check_uri}" "rl_scan mem lst (sw_after_slash_in_uri, ?r2) (u + 1) = rl_scan mem lst (st, ?r2) v"
    using path_run [OF b(3) _ assms(7), of lst ?r2] lst assms(9) by (auto simp: v_def fresh_def)
  have s4: "rl_scan mem lst (st, ?r2) v = rl_scan mem lst (sw_check_uri_http_09, ?r2\<lparr>uri_end := v\<rparr>) (v + 1)"
    using st(1) b(4) lst not_usual by (intro rl_go [where ch = 32]) (auto simp: rl_switch_def do_after_slash_in_uri_def do_check_uri_def)
  let ?r3 = "?r2\<lparr>uri_end := v, http_protocol := v + 1, http_major := 1, http_minor := d\<rparr>"
  have s5: "rl_scan mem lst (sw_check_uri_http_09, ?r2\<lparr>uri_end := v\<rparr>) (v + 1) = rl_scan mem lst (sw_almost_done, ?r3) (v + 10)"
    using version_run [OF b(5) _ assms(8), of lst sw_check_uri_http_09 "?r2\<lparr>uri_end := v\<rparr>"] lst by (simp add: add.commute)
  have s6: "rl_scan mem lst (sw_almost_done, ?r3) (v + 10) = Some (Inr (Inl (?r3\<lparr>request_end := v + 9\<rparr>, v + 10)))"
    using b(6) lst by (intro rl.scan_stop) (simp_all add: rl_step_def rl_switch_def do_almost_done_def)
  have "v + 9 \<noteq> 0" using assms(10) by (simp add: v_def u_def m_def)
  moreover have "rl_scan mem lst (r_state r, r) pos = Some (Inr (Inl (?r3\<lparr>request_end := v + 9\<rparr>, v + 10)))"
    using s2 s3 st(2) s4 s5 s6 assms(9) by (simp only: fresh_def)
  moreover have "lst - 2 = v + 9" "lst = v + 10 + 1" using lst by simp_all
  ultimately show ?thesis
    unfolding Let_def m_def [symmetric] u_def [symmetric] v_def [symmetric] ngx_http_parse_request_line_def
    by (simp add: rl_done_def)
qed

theorem request_line_recognised_witness:
  "\<exists>r'. ngx_http_parse_request_line get_mem zero_request 100 119 = Some (r', 119, NGX_OK) \<and> r_method r' = NGX_HTTP_GET \<and>
    uri_start r' = 104 \<and> uri_end r' = 108 \<and> http_version r' = 1001"
proof -
  have "plain_path True (map chr ''a/b'')" "list_all method_char (map chr ''GET'')"
    by (simp_all add: usual_def usual_tab_def bad_method_char_def)
  moreover have "fresh zero_request" by (simp add: fresh_def zero_request_def)
  ultimately have "ngx_http_parse_request_line get_mem zero_request 100 119 = Some
      (zero_request\<lparr>request_start := 100, method_end := 102, r_method := method_of (map chr ''GET''), uri_start := 104, uri_end := 108,
         http_protocol := 109, request_end := 117, http_major := 1, http_minor := 1, http_version := 1000 + 1, r_state := sw_start\<rparr>, 119, NGX_OK)"
    using request_line_recognised [OF get_line_def get_mem_at, of 119 zero_request] get_mem_readable [of 119]
    by (simp add: get_line_def del: plain_path.simps)
  then show ?thesis by (simp add: method_of_def method_table_def)
qed

section \<open>A load past the received bytes\<close>

text \<open>
  Comparing a method of six letters loads the byte after the space that ends it, also if that byte is not received yet, and then
  it may lie behind the end of the buffer.
\<close>

lemma delete_reads_past_last:
  assumes "r_state r = sw_start"
  shows "ngx_http_parse_request_line (mem_store Map.empty 100 (map chr ''DELETE '')) r 100 107 = None"
proof -
  let ?m = "mem_store Map.empty 100 (map chr ''DELETE '')" and ?r = "r\<lparr>request_start := 100\<rparr>"
  have at: "bytes_at ?m 100 (map chr ''DELETE '')" by (rule bytes_at_store)
  then have b: "?m 100 = Some 68" "bytes_at ?m 101 (map chr ''ELETE'')" "?m 106 = Some 32" by simp_all
  have w: "load32 ?m 100 = Some (word4 CHR ''D'' CHR ''E'' CHR ''L'' CHR ''E'')" using at by (simp add: load32_def word4_def numeral_eq_Suc)
  have "mem_load ?m 104 4 = None" by (simp add: numeral_eq_Suc mem_store_def)
  then have c: "ngx_str6cmp ?m 100 CHR ''D'' CHR ''E'' CHR ''L'' CHR ''E'' CHR ''T'' CHR ''E'' = None"
    using w by (simp add: ngx_str6cmp_def load32_def)
  have "rl_scan ?m 107 (sw_start, r) 100 = rl_scan ?m 107 (sw_method, ?r) 101"
    using rl_go [of ?m 100 68 107 sw_start r sw_method ?r] b(1) by (simp add: rl_switch_def do_start_def bad_method_char_def del: list.map)
  also have "\<dots> = rl_scan ?m 107 (sw_method, ?r) 106" using method_run [OF b(2), of 107 ?r] by (simp add: bad_method_char_def)
  also have "\<dots> = None"
    using b(3) c by (intro rl.scan_fault) (simp_all add: rl_step_def rl_switch_def do_method_def method_switch_def)
  finally show ?thesis using assms by (simp add: ngx_http_parse_request_line_def)
qed

end
