(* ===== verification/NgxHeaderBuffer.thy ===== *)
theory NgxHeaderBuffer
  imports NgxRequestProps
begin

text \<open>
  Reading a request line from the connection (\<^verbatim>\<open>nginx/src/http/ngx_http_request.c\<close>): \<open>ngx_http_read_request_header\<close>,
  \<open>ngx_http_alloc_large_header_buffer\<close>, which moves an incomplete line to a larger buffer and relocates the pointers of the
  parser, and the loop of \<open>ngx_http_process_request_line\<close>. What the peer sends is a list of the byte strings that become available,
  and the results of the allocator are a list. The result: the outcome does not depend on how the bytes are
  split, nor on the moves between buffers.
\<close>

section \<open>Model\<close>

record ngx_buf =
  b_pos :: int
  b_last :: int
  b_start :: int
  b_end :: int

record http_connection =
  hc_busy :: "ngx_buf list"
  hc_nbusy :: nat
  hc_free :: "ngx_buf list"

record header_conf =
  large_num :: nat
  large_size :: int

text \<open>The state of a connection: memory, \<open>r->header_in\<close>, \<open>r->http_connection\<close>, the results of \<open>ngx_create_temp_buf\<close> and \<open>ngx_alloc_chain_link\<close>, and \<open>r\<close>.\<close>

record conn =
  memory :: mem
  header_in :: ngx_buf
  hc :: http_connection
  allocs :: "(ngx_buf option \<times> bool) list"
  req :: ngx_request

datatype alloc_rc = ALLOC_OK | ALLOC_DECLINED | ALLOC_ERROR

text \<open>A buffer from \<open>hc->free\<close>, or a new one while fewer than \<open>large_client_header_buffers.num\<close> are in use.\<close>

definition take_large_buffer :: "header_conf \<Rightarrow> conn \<Rightarrow> conn \<times> (alloc_rc + ngx_buf)" where
  "take_large_buffer conf c =
     (case hc_free (hc c) of
        b # free \<Rightarrow> (c\<lparr>hc := (hc c)\<lparr>hc_free := free\<rparr>\<rparr>, Inr b)
      | [] \<Rightarrow>
          if hc_nbusy (hc c) < large_num conf then
            (case allocs c of
               [] \<Rightarrow> (c, Inl ALLOC_ERROR)
             | (None, _) # rest \<Rightarrow> (c\<lparr>allocs := rest\<rparr>, Inl ALLOC_ERROR)
             | (Some b, link) # rest \<Rightarrow> (c\<lparr>allocs := rest\<rparr>, if link then Inr b else Inl ALLOC_ERROR))
          else (c, Inl ALLOC_DECLINED))"

text \<open>Every pointer of the line keeps its distance from the start; those that may be \<open>NULL\<close> are tested first.\<close>

definition relocate :: "int \<Rightarrow> int \<Rightarrow> ngx_request \<Rightarrow> ngx_request" where
  "relocate old new r = r\<lparr>
     request_start := new,
     request_end := (if request_end r \<noteq> 0 then new + (request_end r - old) else request_end r),
     method_end := new + (method_end r - old),
     uri_start := new + (uri_start r - old),
     uri_end := new + (uri_end r - old),
     schema_start := (if schema_start r \<noteq> 0 then new + (schema_start r - old) else schema_start r),
     schema_end := (if schema_start r \<noteq> 0 then new + (schema_end r - old) else schema_end r),
     host_start := (if host_start r \<noteq> 0 then new + (host_start r - old) else host_start r),
     host_end := (if host_start r \<noteq> 0 \<and> host_end r \<noteq> 0 then new + (host_end r - old) else host_end r),
     port_start := (if port_start r \<noteq> 0 then new + (port_start r - old) else port_start r),
     port_end := (if port_start r \<noteq> 0 then new + (port_end r - old) else port_end r),
     uri_ext := (if uri_ext r \<noteq> 0 then new + (uri_ext r - old) else uri_ext r),
     args_start := (if args_start r \<noteq> 0 then new + (args_start r - old) else args_start r),
     http_protocol := (if http_protocol r \<noteq> 0 then new + (http_protocol r - old) else http_protocol r)\<rparr>"

text \<open>\<open>memcpy\<close>: the areas may not overlap, and the target has \<open>room\<close> bytes.\<close>

definition memcpy :: "mem \<Rightarrow> int \<Rightarrow> int \<Rightarrow> int \<Rightarrow> int \<Rightarrow> mem option" where
  "memcpy mem dst src n room = do {
     bs \<leftarrow> mem_load mem src (nat n);
     if n \<le> room \<and> (dst + n \<le> src \<or> src + n \<le> dst) then Some (mem_store mem dst bs) else None
   }"

definition ngx_http_alloc_large_header_buffer :: "header_conf \<Rightarrow> conn \<Rightarrow> (conn \<times> alloc_rc) option" where
  "ngx_http_alloc_large_header_buffer conf c =
     (let r = req c; b0 = header_in c in
      if r_state r = sw_start then Some (c\<lparr>header_in := b0\<lparr>b_pos := b_start b0, b_last := b_start b0\<rparr>\<rparr>, ALLOC_OK)
      else
        let old = request_start r; n = b_pos b0 - old in
        if n \<ge> large_size conf then Some (c, ALLOC_DECLINED)
        else
          (case take_large_buffer conf c of
             (c, Inl rc) \<Rightarrow> Some (c, rc)
           | (c, Inr b) \<Rightarrow> do {
               let c = c\<lparr>hc := (hc c)\<lparr>hc_busy := b # hc_busy (hc c), hc_nbusy := hc_nbusy (hc c) + 1\<rparr>\<rparr>;
               let new = b_start b;
               m \<leftarrow> memcpy (memory c) new old n (b_end b - new);
               Some (c\<lparr>memory := m, header_in := b\<lparr>b_pos := new + n, b_last := new + n\<rparr>, req := relocate old new r\<rparr>, ALLOC_OK)
             }))"

datatype reading = Ready conn "byte list list" | Again conn | Closed conn

text \<open>\<open>c->recv\<close> gives at most as many bytes as the buffer has room for; no byte means that the peer has closed the connection.\<close>

definition ngx_http_read_request_header :: "conn \<Rightarrow> byte list list \<Rightarrow> reading" where
  "ngx_http_read_request_header c input =
     (let b = header_in c in
      if b_last b - b_pos b > 0 then Ready c input
      else
        (case input of
           [] \<Rightarrow> Again c
         | bs # rest \<Rightarrow>
             let n = nat (b_end b - b_last b); got = take n bs; more = drop n bs in
             if got = [] then Closed c
             else Ready (c\<lparr>memory := mem_store (memory c) (b_last b) got, header_in := b\<lparr>b_last := b_last b + int (length got)\<rparr>\<rparr>)
               (if more = [] then rest else more # rest)))"

datatype outcome = Waiting | Disconnected | Parsed ngx_rc | Internal_Error | Request_Line_Too_Long

text \<open>The loop of \<open>ngx_http_process_request_line\<close> up to the treatment of the line.\<close>

partial_function (option) ngx_http_process_request_line :: "header_conf \<Rightarrow> conn \<Rightarrow> byte list list \<Rightarrow> (conn \<times> outcome) option" where
  "ngx_http_process_request_line conf c input =
     (case ngx_http_read_request_header c input of
        Again c \<Rightarrow> Some (c, Waiting)
      | Closed c \<Rightarrow> Some (c, Disconnected)
      | Ready c input \<Rightarrow> do {
          (r, pos, rc) \<leftarrow> ngx_http_parse_request_line (memory c) (req c) (b_pos (header_in c)) (b_last (header_in c));
          let c = c\<lparr>req := r, header_in := (header_in c)\<lparr>b_pos := pos\<rparr>\<rparr>;
          if rc \<noteq> NGX_AGAIN then Some (c, Parsed rc)
          else if b_pos (header_in c) = b_end (header_in c) then do {
            (c, rv) \<leftarrow> ngx_http_alloc_large_header_buffer conf c;
            case rv of
              ALLOC_ERROR \<Rightarrow> Some (c, Internal_Error)
            | ALLOC_DECLINED \<Rightarrow> Some (c, Request_Line_Too_Long)
            | ALLOC_OK \<Rightarrow> ngx_http_process_request_line conf c input
          }
          else ngx_http_process_request_line conf c input
        })"

section \<open>Two runs at different addresses\<close>

text \<open>A pointer that is \<open>NULL\<close> in both runs, or set in both at the same distance from the line.\<close>

definition nz :: "int \<Rightarrow> int \<Rightarrow> int \<Rightarrow> bool" where
  "nz d x y \<longleftrightarrow> (if x = 0 then y = 0 else y \<noteq> 0 \<and> y = x + d)"

definition in_uri :: "rl_state set" where
  "in_uri = {sw_after_slash_in_uri, sw_check_uri, sw_uri}"

definition before_uri :: "rl_state set" where
  "before_uri = {sw_start, sw_method, sw_spaces_before_uri, sw_schema, sw_schema_slash, sw_schema_slash_slash, sw_host_start, sw_host,
     sw_host_end, sw_host_ip_literal, sw_port}"

text \<open>The fields that do not depend on the place of the line, and those that do: each pointer from the state on in which it is set.\<close>

definition same_flags :: "ngx_request \<Rightarrow> ngx_request \<Rightarrow> bool" where
  "same_flags r s \<longleftrightarrow> r_method s = r_method r \<and> http_version s = http_version r \<and> complex_uri s = complex_uri r \<and> quoted_uri s = quoted_uri r \<and>
     plus_in_uri s = plus_in_uri r \<and> space_in_uri s = space_in_uri r \<and> http_minor s = http_minor r \<and> http_major s = http_major r"

definition same_optional :: "int \<Rightarrow> ngx_request \<Rightarrow> ngx_request \<Rightarrow> bool" where
  "same_optional d r s \<longleftrightarrow> nz d (request_end r) (request_end s) \<and> nz d (schema_start r) (schema_start s) \<and> nz d (host_start r) (host_start s) \<and>
     nz d (host_end r) (host_end s) \<and> nz d (uri_ext r) (uri_ext s) \<and> nz d (args_start r) (args_start s) \<and>
     nz d (http_protocol r) (http_protocol s) \<and> port_start r = 0 \<and> port_start s = 0 \<and> (host_start r = 0 \<longrightarrow> host_end r = 0)"

definition moved :: "rl_state \<Rightarrow> int \<Rightarrow> ngx_request \<Rightarrow> ngx_request \<Rightarrow> bool" where
  "moved st d r s \<longleftrightarrow> same_flags r s \<and> same_optional d r s \<and>
     (st \<noteq> sw_start \<longrightarrow> request_start s = request_start r + d) \<and>
     (st \<noteq> sw_start \<and> st \<noteq> sw_method \<longrightarrow> method_end s = method_end r + d) \<and>
     (st \<notin> before_uri \<longrightarrow> uri_start s = uri_start r + d) \<and>
     (st \<notin> before_uri \<and> st \<notin> in_uri \<longrightarrow> uri_end s = uri_end r + d) \<and>
     (schema_start r \<noteq> 0 \<and> st \<noteq> sw_schema \<longrightarrow> schema_end s = schema_end r + d) \<and>
     (st \<in> {sw_host, sw_host_end, sw_host_ip_literal, sw_port} \<longrightarrow> host_start r \<noteq> 0) \<and>
     (st \<in> {sw_schema, sw_schema_slash, sw_schema_slash_slash, sw_host_start, sw_host, sw_host_end, sw_host_ip_literal, sw_port} \<longrightarrow> schema_start r \<noteq> 0) \<and>
     (st \<in> {sw_start, sw_method, sw_spaces_before_uri} \<longrightarrow>
        request_end r = 0 \<and> schema_start r = 0 \<and> host_start r = 0 \<and> uri_ext r = 0 \<and> args_start r = 0 \<and> http_protocol r = 0)"

lemmas moved_defs = moved_def same_flags_def same_optional_def before_uri_def in_uri_def

definition round_moved :: "int \<Rightarrow> rl_round \<Rightarrow> rl_round \<Rightarrow> bool" where
  "round_moved d x y =
     (case (x, y) of
        (Break st r, Break st' s) \<Rightarrow> st' = st \<and> moved st d r s
      | (Unread st r, Unread st' s) \<Rightarrow> st' = st \<and> moved st d r s
      | (Done r, Done s) \<Rightarrow> moved sw_almost_done d r s
      | (Return rc r, Return rc' s) \<Rightarrow> rc' = rc
      | _ \<Rightarrow> False)"

lemma nz_simps [simp]: "nz d 0 y \<longleftrightarrow> y = 0" "0 < x \<Longrightarrow> 0 < x + d \<Longrightarrow> nz d x y \<longleftrightarrow> y = x + d"
  by (auto simp: nz_def)

lemma round_moved_simps [simp]:
  "round_moved d (if P then a else b) (if P then a' else b') = (if P then round_moved d a a' else round_moved d b b')"
  "round_moved d (Break st r) (Break st' s) \<longleftrightarrow> st' = st \<and> moved st d r s"
  "round_moved d (Unread st r) (Unread st' s) \<longleftrightarrow> st' = st \<and> moved st d r s"
  "round_moved d (Done r) (Done s) \<longleftrightarrow> moved sw_almost_done d r s"
  "round_moved d (Return rc r) (Return rc' s) \<longleftrightarrow> rc' = rc"
  by (simp_all add: round_moved_def)

lemma uri_states_moved:
  assumes "1 < p" "1 < p + d"
  shows "moved sw_after_slash_in_uri d r s \<Longrightarrow> round_moved d (do_after_slash_in_uri r p ch) (do_after_slash_in_uri s (p + d) ch)"
    and "moved sw_check_uri d r s \<Longrightarrow> round_moved d (do_check_uri r p ch) (do_check_uri s (p + d) ch)"
    and "moved sw_uri d r s \<Longrightarrow> round_moved d (do_uri r p ch) (do_uri s (p + d) ch)"
  using assms
  by (simp_all add: do_after_slash_in_uri_def do_check_uri_def do_uri_def moved_defs)

lemma http_09_moved:
  assumes "1 < p" "1 < p + d"
  shows "moved sw_host_http_09 d r s \<Longrightarrow> round_moved d (do_host_http_09 r p ch) (do_host_http_09 s (p + d) ch)"
    and "moved sw_check_uri_http_09 d r s \<Longrightarrow> round_moved d (do_check_uri_http_09 r p ch) (do_check_uri_http_09 s (p + d) ch)"
    and "moved sw_http_09 d r s \<Longrightarrow> round_moved d (do_http_09 r p ch) (do_http_09 s (p + d) ch)"
  using assms
  by (simp_all add: do_host_http_09_def do_check_uri_http_09_def do_http_09_def moved_defs)

lemma version_moved:
  "moved sw_first_major_digit d r s \<Longrightarrow> round_moved d (do_first_major_digit r ch) (do_first_major_digit s ch)"
  "moved sw_major_digit d r s \<Longrightarrow> round_moved d (do_major_digit r ch) (do_major_digit s ch)"
  "moved sw_first_minor_digit d r s \<Longrightarrow> round_moved d (do_first_minor_digit r ch) (do_first_minor_digit s ch)"
  "moved sw_minor_digit d r s \<Longrightarrow> round_moved d (do_minor_digit r ch) (do_minor_digit s ch)"
  "moved sw_spaces_after_digit d r s \<Longrightarrow> round_moved d (do_spaces_after_digit r ch) (do_spaces_after_digit s ch)"
  by (simp_all add: do_first_major_digit_def do_major_digit_def do_first_minor_digit_def do_minor_digit_def do_spaces_after_digit_def
      moved_defs Let_def)

lemma expect_moved:
  "moved sw_schema_slash d r s \<Longrightarrow> round_moved d (expect c sw_schema_slash_slash r ch) (expect c sw_schema_slash_slash s ch)"
  "moved sw_schema_slash_slash d r s \<Longrightarrow> round_moved d (expect c sw_host_start r ch) (expect c sw_host_start s ch)"
  "moved sw_http_H d r s \<Longrightarrow> round_moved d (expect c sw_http_HT r ch) (expect c sw_http_HT s ch)"
  "moved sw_http_HT d r s \<Longrightarrow> round_moved d (expect c sw_http_HTT r ch) (expect c sw_http_HTT s ch)"
  "moved sw_http_HTT d r s \<Longrightarrow> round_moved d (expect c sw_http_HTTP r ch) (expect c sw_http_HTTP s ch)"
  "moved sw_http_HTTP d r s \<Longrightarrow> round_moved d (expect c sw_first_major_digit r ch) (expect c sw_first_major_digit s ch)"
  by (simp_all add: expect_def moved_defs)

lemma start_moved:
  assumes "1 < p" "1 < p + d"
  shows "moved sw_start d r s \<Longrightarrow> round_moved d (do_start r p ch) (do_start s (p + d) ch)"
    and "moved sw_spaces_before_uri d r s \<Longrightarrow> round_moved d (do_spaces_before_uri r p ch) (do_spaces_before_uri s (p + d) ch)"
    and "moved sw_schema d r s \<Longrightarrow> round_moved d (do_schema r p ch) (do_schema s (p + d) ch)"
    and "moved sw_almost_done d r s \<Longrightarrow> round_moved d (do_almost_done r p ch) (do_almost_done s (p + d) ch)"
  using assms
  by (clarsimp simp: do_start_def do_spaces_before_uri_def do_schema_def do_almost_done_def moved_defs Let_def)+

lemma host_moved:
  assumes "1 < p" "1 < p + d"
  shows "moved sw_host_end d r s \<Longrightarrow> round_moved d (do_host_end r p ch) (do_host_end s (p + d) ch)"
    and "moved sw_host d r s \<Longrightarrow> round_moved d (do_host r p ch) (do_host s (p + d) ch)"
    and "moved sw_host_start d r s \<Longrightarrow> round_moved d (do_host_start r p ch) (do_host_start s (p + d) ch)"
    and "moved sw_host_ip_literal d r s \<Longrightarrow> round_moved d (do_host_ip_literal r p ch) (do_host_ip_literal s (p + d) ch)"
    and "moved sw_port d r s \<Longrightarrow> round_moved d (do_port r p ch) (do_port s (p + d) ch)"
  using assms
  by (clarsimp simp: do_host_start_def do_host_def do_host_end_def do_host_ip_literal_def do_port_def uri_is_slash_def moved_defs Let_def)+

text \<open>The bytes of the addresses from \<open>a\<close> to \<open>b\<close> have the distance \<open>d\<close> in the other memory.\<close>

definition mem_moved :: "mem \<Rightarrow> mem \<Rightarrow> int \<Rightarrow> int \<Rightarrow> int \<Rightarrow> bool" where
  "mem_moved mem mem' d a b \<longleftrightarrow> (\<forall>x. a \<le> x \<and> x < b \<longrightarrow> mem' (x + d) = mem x)"

definition readable :: "mem \<Rightarrow> int \<Rightarrow> int \<Rightarrow> bool" where
  "readable mem a b \<longleftrightarrow> (\<forall>x. a \<le> x \<and> x \<le> b \<longrightarrow> mem x \<noteq> None)"

lemma mem_movedD: "mem_moved mem mem' d a b \<Longrightarrow> a \<le> x \<Longrightarrow> x < b \<Longrightarrow> mem' (x + d) = mem x"
  by (simp add: mem_moved_def)

lemma mem_moved_mono: "mem_moved mem mem' d a b \<Longrightarrow> a \<le> a' \<Longrightarrow> b' \<le> b \<Longrightarrow> mem_moved mem mem' d a' b'"
  by (auto simp: mem_moved_def)

lemma mem_moved_empty [simp]: "b \<le> a \<Longrightarrow> mem_moved mem mem' d a b"
  by (auto simp: mem_moved_def)

lemma slice_moved:
  assumes "mem_moved mem mem' d a b"
  shows "slice mem' (a + d) (b + d) = slice mem a b"
proof (rule nth_equalityI)
  fix i assume "i < length (slice mem' (a + d) (b + d))"
  then show "slice mem' (a + d) (b + d) ! i = slice mem a b ! i"
    using mem_movedD [OF assms, of "a + int i"] by (simp add: slice_def algebra_simps)
qed simp

lemma span_moved: "mem_moved mem mem' d a b \<Longrightarrow> span mem a b P \<Longrightarrow> span mem' (a + d) (b + d) P"
  unfolding span_def mem_moved_def by (metis add_diff_cancel_right' diff_add_cancel le_diff_eq diff_less_eq)

lemma method_moved:
  assumes inv: "rl_inv mem lo (sw_method, r) p" and m: "moved sw_method d r s" "1 < p" "1 < p + d"
    and agree: "mem_moved mem mem' d lo (p + 1)" and ch: "mem p = Some ch" "mem (p + 1) \<noteq> None" "mem' (p + d + 1) \<noteq> None"
  shows "\<exists>x y. do_method mem r p ch = Some x \<and> do_method mem' s (p + d) ch = Some y \<and> round_moved d x y"
proof (cases "ch = 32")
  case False
  then show ?thesis using m by (simp add: do_method_def)
next
  case True
  let ?a = "request_start r"
  obtain n where n: "p = ?a + int n" using inv by (metis less_imp_le rl_inv.simps rl_state.case(2) zle_iff_zadd)
  have sp: "span mem ?a (?a + int n) method_char" "lo \<le> ?a" "r_method r = NGX_HTTP_UNKNOWN" using inv by (simp_all add: n)
  have a: "mem_moved mem mem' d ?a (?a + int n)" using mem_moved_mono [OF agree sp(2)] n by simp
  have d: "?a + int n + d = ?a + d + int n" by simp
  have m1: "method_switch mem ?a (int n) NGX_HTTP_UNKNOWN = Some (method_of (slice mem ?a (?a + int n)))"
    using method_switch_ok [OF sp(1)] ch True n by simp
  have "mem' (?a + d + int n) = Some 32" using mem_movedD [OF agree, of p] sp(2) ch True n d by simp
  then have m2: "method_switch mem' (?a + d) (int n) NGX_HTTP_UNKNOWN = Some (method_of (slice mem ?a (?a + int n)))"
    using method_switch_ok [of mem' "?a + d" n method_char] ch(3) n span_moved [OF a sp(1)] slice_moved [OF a] d by simp
  have s: "request_start s = ?a + d" "r_method s = NGX_HTTP_UNKNOWN" using m(1) sp(3) by (simp_all add: moved_def same_flags_def)
  have nn: "p - ?a = int n" "p + d - request_start s = int n" using n s by simp_all
  let ?v = "method_of (slice mem ?a (?a + int n))"
  have "do_method mem r p ch = Some (Break sw_spaces_before_uri (r\<lparr>method_end := p - 1, r_method := ?v\<rparr>))"
    "do_method mem' s (p + d) ch = Some (Break sw_spaces_before_uri (s\<lparr>method_end := p + d - 1, r_method := ?v\<rparr>))"
    using True m1 m2 sp(3) nn s by (simp_all add: do_method_def Let_def)
  moreover have "moved sw_spaces_before_uri d (r\<lparr>method_end := p - 1, r_method := ?v\<rparr>) (s\<lparr>method_end := p + d - 1, r_method := ?v\<rparr>)"
    using m by (clarsimp simp: moved_defs)
  ultimately show ?thesis by simp
qed

lemma rl_switch_moved:
  assumes "rl_inv mem lo (st, r) p" "moved st d r s" "1 < p" "1 < p + d"
    and "mem_moved mem mem' d lo (p + 1)" "mem p = Some ch" "mem (p + 1) \<noteq> None" "mem' (p + d + 1) \<noteq> None"
  shows "\<exists>x y. rl_switch mem st r p ch = Some x \<and> rl_switch mem' st s (p + d) ch = Some y \<and> round_moved d x y"
proof (cases "st = sw_method")
  case True
  then show ?thesis using method_moved [of mem lo r p d s mem' ch] assms by (simp add: rl_switch_def del: rl_inv.simps)
next
  case False
  note facts = uri_states_moved [OF assms(3,4)] http_09_moved [OF assms(3,4)] version_moved expect_moved start_moved [OF assms(3,4)] host_moved [OF assms(3,4)]
  show ?thesis using False assms(2) by (cases st) (simp_all add: rl_switch_def facts)
qed

definition run_moved :: "mem \<Rightarrow> int \<Rightarrow> int \<Rightarrow> rl_state \<times> ngx_request \<Rightarrow> int \<Rightarrow> rl_state \<times> ngx_request \<Rightarrow> int \<Rightarrow> bool" where
  "run_moved mem lo d s1 p1 s2 p2 \<longleftrightarrow> fst s2 = fst s1 \<and> p2 = p1 + d \<and> moved (fst s1) d (snd s1) (snd s2) \<and> rl_inv mem lo s1 p1"

definition exit_moved :: "int \<Rightarrow> rl_exit \<Rightarrow> rl_exit \<Rightarrow> bool" where
  "exit_moved d x y = rel_sum (\<lambda>(r, p) (s, q). q = p + d \<and> moved sw_almost_done d r s) (\<lambda>(rc, r) (rc', s). rc' = rc) x y"

definition moved_to :: "mem \<Rightarrow> mem \<Rightarrow> int \<Rightarrow> int \<Rightarrow> int \<Rightarrow> bool" where
  "moved_to mem mem' d lo lst \<longleftrightarrow> 1 < lo \<and> 1 < lo + d \<and> mem_moved mem mem' d lo lst \<and> readable mem lo lst \<and> mem' (lst + d) \<noteq> None"

lemma rl_step_moved:
  assumes run: "run_moved mem lo d s1 p1 s2 p2" and p: "p1 < lst" and to: "moved_to mem mem' d lo lst" and x: "rl_step mem s1 p1 = Some x"
  shows "\<exists>y. rl_step mem' s2 p2 = Some y \<and> rel_sum (\<lambda>(s1, p1) (s2, p2). run_moved mem lo d s1 p1 s2 p2) (exit_moved d) x y"
proof -
  obtain st r where s1: "s1 = (st, r)" by (cases s1)
  obtain s where s2: "s2 = (st, s)" "p2 = p1 + d" "moved st d r s" "rl_inv mem lo (st, r) p1"
    using run by (cases s2) (simp add: run_moved_def s1 del: rl_inv.simps)
  have lo: "lo \<le> p1" "1 < p1" "1 < p1 + d" using s2(4) to by (simp_all add: moved_to_def)
  have mm: "mem_moved mem mem' d lo lst" using to by (simp add: moved_to_def)
  obtain ch where ch: "mem p1 = Some ch" using to lo p by (fastforce simp: moved_to_def readable_def)
  have ch': "mem' (p1 + d) = Some ch" using mem_movedD [OF mm, of p1] lo p ch by simp
  have nx: "mem (p1 + 1) \<noteq> None" using to lo p by (simp add: moved_to_def readable_def)
  have d: "p1 + d + 1 = p1 + 1 + d" by simp
  have nx': "mem' (p1 + d + 1) \<noteq> None"
    unfolding d using mem_movedD [OF mm, of "p1 + 1"] to nx lo p by (cases "p1 + 1 = lst") (auto simp: moved_to_def)
  have "mem_moved mem mem' d lo (p1 + 1)" using p by (intro mem_moved_mono [OF mm]) auto
  from rl_switch_moved [OF s2(4,3) lo(2,3) this ch nx nx'] obtain a b where
    ab: "rl_switch mem st r p1 ch = Some a" "rl_switch mem' st s (p1 + d) ch = Some b" "round_moved d a b" by blast
  have "round_ok mem lo p1 a" using rl_switch_round [OF s2(4) ch nx] ab(1) by auto
  then show ?thesis
    using x ab ch ch' unfolding s1 s2(1,2)
    by (cases a; cases b) (auto simp: rl_step_def round_moved_def round_ok_def run_moved_def exit_moved_def simp del: rl_inv.simps)
qed

lemma rl_scan_moved:
  assumes run: "run_moved mem lo d s1 p1 s2 p2" and to: "moved_to mem mem' d lo lst" and x: "rl_scan mem lst s1 p1 = Some x"
  shows "\<exists>y. rl_scan mem' (lst + d) s2 p2 = Some y \<and> rel_sum (\<lambda>(s1, p1) (s2, p2). run_moved mem lo d s1 p1 s2 p2) (exit_moved d) x y"
  by (rule rl.scan_sim [where R = "run_moved mem lo d" and Q = "exit_moved d", OF rl_scan.simps _ rl_step_moved [OF _ _ to] run x])
    (auto simp: run_moved_def simp del: rl_inv.simps)

section \<open>Moving to another buffer\<close>

text \<open>The optional pointers of a line that has begun are \<open>NULL\<close> or not before its start.\<close>

definition at_least :: "int \<Rightarrow> int \<Rightarrow> bool" where
  "at_least a x \<longleftrightarrow> x = 0 \<or> a \<le> x"

definition ptrs_above :: "rl_state \<Rightarrow> ngx_request \<Rightarrow> bool" where
  "ptrs_above st r \<longleftrightarrow> (if st = sw_start then request_end r = 0 \<and> schema_start r = 0 \<and> host_start r = 0 \<and> host_end r = 0 \<and> uri_ext r = 0 \<and>
       args_start r = 0 \<and> http_protocol r = 0
     else at_least (request_start r) (request_end r) \<and> at_least (request_start r) (schema_start r) \<and> at_least (request_start r) (host_start r) \<and>
       at_least (request_start r) (host_end r) \<and> at_least (request_start r) (uri_ext r) \<and> at_least (request_start r) (args_start r) \<and>
       at_least (request_start r) (http_protocol r))"

lemma at_least_simps [simp]: "at_least a 0" "a \<le> x \<Longrightarrow> at_least a x"
  by (simp_all add: at_least_def)

lemma rl_inv_start: "rl_inv mem lo (st, r) p \<Longrightarrow> st \<noteq> sw_start \<Longrightarrow> lo \<le> request_start r \<and> request_start r < p"
  by (cases st) (auto simp: part_defs)

lemma rl_switch_above:
  assumes "rl_inv mem lo (st, r) p" "ptrs_above st r" "rl_switch mem st r p ch = Some x"
  shows "case x of Break st' r' \<Rightarrow> ptrs_above st' r' | Unread st' r' \<Rightarrow> ptrs_above st' r' | _ \<Rightarrow> True"
proof -
  have "st \<noteq> sw_start \<Longrightarrow> request_start r < p" using rl_inv_start [OF assms(1)] by simp
  then show ?thesis using assms(2,3)
    by (cases st) (auto simp: rl_switch_def rl_defs uri_is_slash_def ptrs_above_def Let_def split: if_splits bind_splits)
qed

text \<open>\<open>relocate\<close> field by field.\<close>

lemma relocate_fields:
  "request_end (relocate old new s) = (if request_end s = 0 then 0 else new + (request_end s - old))"
  "schema_start (relocate old new s) = (if schema_start s = 0 then 0 else new + (schema_start s - old))"
  "schema_end (relocate old new s) = (if schema_start s = 0 then schema_end s else new + (schema_end s - old))"
  "host_start (relocate old new s) = (if host_start s = 0 then 0 else new + (host_start s - old))"
  "host_start s \<noteq> 0 \<or> host_end s = 0 \<Longrightarrow> host_end (relocate old new s) = (if host_end s = 0 then 0 else new + (host_end s - old))"
  "uri_ext (relocate old new s) = (if uri_ext s = 0 then 0 else new + (uri_ext s - old))"
  "args_start (relocate old new s) = (if args_start s = 0 then 0 else new + (args_start s - old))"
  "http_protocol (relocate old new s) = (if http_protocol s = 0 then 0 else new + (http_protocol s - old))"
  "port_start s = 0 \<Longrightarrow> port_start (relocate old new s) = 0"
  "request_start (relocate old new s) = new" "method_end (relocate old new s) = new + (method_end s - old)"
  "uri_start (relocate old new s) = new + (uri_start s - old)" "uri_end (relocate old new s) = new + (uri_end s - old)"
  "same_flags r (relocate old new s) = same_flags r s" "r_state (relocate old new s) = r_state s"
  by (auto simp: relocate_def same_flags_def)

lemma relocate_moved:
  assumes m: "moved st d r s" and above: "ptrs_above st r" and st: "st \<noteq> sw_start" and new: "1 < new" and old: "old = request_start r + d"
  shows "moved st (new - request_start r) r (relocate old new s)"
proof -
  have nzI: "nz (new - request_start r) x (if y = 0 then 0 else new + (y - old))" if "nz d x y" "at_least (request_start r) x" for x y
    using that new old by (auto simp: nz_def at_least_def split: if_splits)
  have nz0: "y = 0 \<longleftrightarrow> x = 0" if "nz d x y" for x y using that by (auto simp: nz_def split: if_splits)
  have al: "at_least (request_start r) (request_end r)" "at_least (request_start r) (schema_start r)" "at_least (request_start r) (host_start r)"
    "at_least (request_start r) (host_end r)" "at_least (request_start r) (uri_ext r)" "at_least (request_start r) (args_start r)"
    "at_least (request_start r) (http_protocol r)" using above st by (simp_all add: ptrs_above_def)
  have opt: "same_optional d r s" using m by (simp add: moved_def)
  then have h: "host_start s \<noteq> 0 \<or> host_end s = 0" "schema_start s = 0 \<longleftrightarrow> schema_start r = 0" "port_start s = 0"
    using nz0 [of "host_start r" "host_start s"] nz0 [of "host_end r" "host_end s"] nz0 [of "schema_start r" "schema_start s"]
    by (auto simp: same_optional_def)
  have "same_optional (new - request_start r) r (relocate old new s)"
    using opt al h unfolding same_optional_def relocate_fields relocate_fields(5) [OF h(1)] relocate_fields(9) [OF h(3)] by (blast intro: nzI)
  then show ?thesis using m st old unfolding moved_def relocate_fields h(2) by auto
qed

lemma rl_inv_lo: "rl_inv mem lo (st, r) p \<Longrightarrow> st \<noteq> sw_start \<Longrightarrow> rl_inv mem (request_start r) (st, r) p"
proof -
  assume inv: "rl_inv mem lo (st, r) p" and st: "st \<noteq> sw_start"
  then have "request_start r < p" using rl_inv_start by blast
  then show ?thesis using inv st by (cases st) (simp_all add: part_defs)
qed

lemma moved_start: "ptrs_above sw_start r \<Longrightarrow> moved sw_start d r s \<Longrightarrow> moved sw_start d' r s"
  by (simp add: ptrs_above_def moved_defs)

lemma moved_state [simp]: "moved st d r (s\<lparr>r_state := x\<rparr>) = moved st d r s" "moved st d (r\<lparr>r_state := x\<rparr>) s = moved st d r s"
  by (simp_all add: moved_def same_flags_def same_optional_def)

lemma rl_scan_above:
  assumes "rl_inv mem lo s p" "ptrs_above (fst s) (snd s)" "p \<le> lst" "readable mem lo lst"
  shows "\<exists>x. rl_scan mem lst s p = Some x \<and>
    (case x of Inl (s', p') \<Rightarrow> (rl_inv mem lo s' p' \<and> ptrs_above (fst s') (snd s')) \<and> p' = lst | Inr r \<Rightarrow> rl_exit_ok mem lo lst r)"
proof (rule rl.scan_inv [where I = "\<lambda>s p. rl_inv mem lo s p \<and> ptrs_above (fst s) (snd s)"])
  fix s p assume I: "rl_inv mem lo s p \<and> ptrs_above (fst s) (snd s)" "p < lst"
  then obtain x where x: "rl_step mem s p = Some x" "case x of Inl (s', p') \<Rightarrow> rl_inv mem lo s' p' | Inr r \<Rightarrow> rl_exit_ok mem lo lst r"
    using rl_step_round [of mem lo s p lst] assms(4) by (auto simp: readable_def)
  obtain ch y where y: "mem p = Some ch" "rl_switch mem (fst s) (snd s) p ch = Some y"
    using x(1) by (auto simp: rl_step_def split: bind_splits)
  have "case y of Break st' r' \<Rightarrow> ptrs_above st' r' | Unread st' r' \<Rightarrow> ptrs_above st' r' | _ \<Rightarrow> True"
    using rl_switch_above [of mem lo "fst s" "snd s" p ch y] I y(2) by simp
  then show "\<exists>x. rl_step mem s p = Some x \<and>
      (case x of Inl (s', p') \<Rightarrow> rl_inv mem lo s' p' \<and> ptrs_above (fst s') (snd s') | Inr r \<Rightarrow> rl_exit_ok mem lo lst r)"
    using x y by (cases y) (auto simp: rl_step_def)
qed (use assms in auto)

lemma rl_done_moved:
  assumes "moved sw_almost_done d r s" "1 < p" "1 < p + d"
  shows "\<exists>r' s' rc. rl_done r p = (r', p + 1, rc) \<and> rl_done s (p + d) = (s', p + 1 + d, rc) \<and> moved sw_almost_done d r' s' \<and>
    request_start r' = request_start r"
proof -
  have e: "request_end s = 0 \<longleftrightarrow> request_end r = 0" and v: "http_major s = http_major r" "http_minor s = http_minor r" "r_method s = r_method r"
    using assms(1) by (auto simp: moved_def same_optional_def same_flags_def nz_def split: if_splits)
  show ?thesis using assms by (cases "request_end r = 0") (simp_all add: rl_done_def Let_def e v, auto simp: moved_defs)
qed

section \<open>Reading and parsing\<close>

text \<open>A buffer with the byte after its end can be read: comparing a method of six letters loads one byte more than the line has.\<close>

definition buf_ok :: "mem \<Rightarrow> ngx_buf \<Rightarrow> bool" where
  "buf_ok mem b \<longleftrightarrow> 1 < b_start b \<and> b_start b < b_end b \<and> readable mem (b_start b) (b_end b)"

definition apart :: "ngx_buf \<Rightarrow> ngx_buf \<Rightarrow> bool" where
  "apart b b' \<longleftrightarrow> b_end b \<le> b_start b' \<or> b_end b' \<le> b_start b"

definition spare :: "conn \<Rightarrow> ngx_buf list" where
  "spare c = hc_free (hc c) @ concat (map (\<lambda>(x, _). case x of Some b \<Rightarrow> [b] | None \<Rightarrow> []) (allocs c))"

definition spare_ok :: "header_conf \<Rightarrow> mem \<Rightarrow> ngx_buf \<Rightarrow> ngx_buf list \<Rightarrow> bool" where
  "spare_ok conf mem h bs \<longleftrightarrow> (\<forall>b \<in> set bs. buf_ok mem b \<and> b_end b - b_start b = large_size conf \<and> apart h b) \<and> sorted_wrt apart bs"

definition conn_ok :: "header_conf \<Rightarrow> conn \<Rightarrow> bool" where
  "conn_ok conf c \<longleftrightarrow> buf_ok (memory c) (header_in c) \<and> b_start (header_in c) \<le> b_pos (header_in c) \<and>
     b_pos (header_in c) \<le> b_last (header_in c) \<and> b_last (header_in c) \<le> b_end (header_in c) \<and>
     spare_ok conf (memory c) (header_in c) (spare c)"

text \<open>The allocator has the buffers that the configuration allows.\<close>

definition supplied :: "header_conf \<Rightarrow> conn \<Rightarrow> bool" where
  "supplied conf c \<longleftrightarrow> large_num conf \<le> hc_nbusy (hc c) + length (allocs c) \<and> (\<forall>x \<in> set (allocs c). fst x \<noteq> None \<and> snd x)"

lemma take_large_buffer_ok:
  assumes "take_large_buffer conf c = (c', x)" "spare_ok conf mem h (spare c)"
  shows "memory c' = memory c \<and> header_in c' = header_in c \<and> req c' = req c \<and> hc_nbusy (hc c') = hc_nbusy (hc c) \<and>
    (case x of
       Inl rc \<Rightarrow> rc = ALLOC_DECLINED \<and> large_num conf \<le> hc_nbusy (hc c) \<or> rc = ALLOC_ERROR \<and> \<not> supplied conf c
     | Inr b \<Rightarrow> buf_ok mem b \<and> b_end b - b_start b = large_size conf \<and> apart h b \<and> spare_ok conf mem b (spare c') \<and>
         (supplied conf c \<longrightarrow> supplied conf (c'\<lparr>hc := (hc c')\<lparr>hc_nbusy := hc_nbusy (hc c') + 1\<rparr>\<rparr>)))"
proof (cases "hc_free (hc c)")
  case (Cons b free)
  then show ?thesis using assms by (auto simp: take_large_buffer_def spare_ok_def spare_def supplied_def)
next
  case Nil
  show ?thesis
  proof (cases "hc_nbusy (hc c) < large_num conf")
    case False
    then show ?thesis using assms(1) Nil by (auto simp: take_large_buffer_def)
  next
    case True
    show ?thesis
    proof (cases "allocs c")
      case Nil
      then show ?thesis using assms(1) \<open>hc_free (hc c) = []\<close> True by (auto simp: take_large_buffer_def supplied_def)
    next
      case (Cons y rest)
      then show ?thesis using assms \<open>hc_free (hc c) = []\<close> True
        by (cases y; cases "fst y"; cases "snd y") (auto simp: take_large_buffer_def supplied_def spare_ok_def spare_def)
    qed
  qed
qed

text \<open>
  The connection in the loop, against one run of the parser on the whole input, which lies in \<open>mem\<close> up to \<open>lst\<close>: that run is at \<open>p\<close>
  with the request \<open>r\<close>, the line begins at \<open>lo\<close> or later, the buffer has it at the distance \<open>d\<close>, and what is not yet
  received follows in \<open>mem\<close>.
\<close>

definition unread :: "conn \<Rightarrow> int" where
  "unread c = b_last (header_in c) - b_pos (header_in c)"

definition serving :: "header_conf \<Rightarrow> mem \<Rightarrow> int \<Rightarrow> ((rl_state \<times> ngx_request) \<times> int + rl_exit) option \<Rightarrow> conn \<Rightarrow> byte list list \<Rightarrow>
  int \<Rightarrow> int \<Rightarrow> int \<Rightarrow> ngx_request \<Rightarrow> bool" where
  "serving conf mem lst res c input lo d p r \<longleftrightarrow>
     conn_ok conf c \<and> readable mem lo lst \<and> 1 < lo \<and>
     b_start (header_in c) \<le> lo + d \<and> b_pos (header_in c) = p + d \<and>
     res = rl_scan mem lst (r_state (req c), r) p \<and>
     rl_inv mem lo (r_state (req c), r) p \<and> ptrs_above (r_state (req c)) r \<and> moved (r_state (req c)) d r (req c) \<and>
     mem_moved mem (memory c) d lo (p + unread c) \<and> bytes_at mem (p + unread c) (concat input) \<and>
     p + unread c + int (length (concat input)) = lst"

lemma readable_store: "readable mem a b \<Longrightarrow> readable (mem_store mem x bs) a b"
  by (simp add: readable_def mem_store_def)

lemma buf_ok_store: "buf_ok mem b \<Longrightarrow> buf_ok (mem_store mem x bs) b"
  by (simp add: buf_ok_def readable_store)

lemma spare_ok_store: "spare_ok conf mem h bs \<Longrightarrow> spare_ok conf (mem_store mem x cs) h bs"
  by (simp add: spare_ok_def buf_ok_store)

lemma mem_moved_store:
  assumes "mem_moved mem mem' d lo q" "bytes_at mem q bs"
  shows "mem_moved mem (mem_store mem' (q + d) bs) d lo (q + int (length bs))"
  unfolding mem_moved_def
proof (intro allI impI)
  fix x assume x: "lo \<le> x \<and> x < q + int (length bs)"
  show "mem_store mem' (q + d) bs (x + d) = mem x"
  proof (cases "x < q")
    case True
    then show ?thesis using mem_movedD [OF assms(1)] x by (simp add: mem_store_def)
  next
    case False
    then show ?thesis using bytes_at_nth [OF assms(2), of "nat (x - q)"] x by (simp add: mem_store_def nat_less_iff)
  qed
qed

lemma receive_serving:
  assumes sv: "serving conf mem lst res c input lo d p r" and u: "unread c = 0"
    and in': "concat input = got @ concat input'" and fit: "int (length got) \<le> b_end (header_in c) - b_last (header_in c)"
    and c': "c' = c\<lparr>memory := mem_store (memory c) (b_last (header_in c)) got,
      header_in := (header_in c)\<lparr>b_last := b_last (header_in c) + int (length got)\<rparr>\<rparr>"
  shows "serving conf mem lst res c' input' lo d p r \<and> unread c' = int (length got)"
proof -
  have l: "b_last (header_in c) = p + d" using sv u by (simp add: serving_def unread_def)
  have ba: "bytes_at mem p got" "bytes_at mem (p + int (length got)) (concat input')"
    using sv by (simp_all add: serving_def u in' bytes_at_append)
  have mm: "mem_moved mem (mem_store (memory c) (p + d) got) d lo (p + int (length got))"
    using sv u by (intro mem_moved_store ba) (simp add: serving_def)
  have u': "unread c' = int (length got)" using u by (simp add: c' unread_def)
  have sp: "spare c' = spare c" by (simp add: c' spare_def)
  have ap: "apart (header_in c') = apart (header_in c)" by (rule ext) (simp add: apart_def c')
  have "conn_ok conf c'" using sv fit buf_ok_store [of "memory c" "header_in c" "b_last (header_in c)" got]
      spare_ok_store [of conf "memory c" "header_in c" "spare c" "b_last (header_in c)" got] ap
    unfolding serving_def conn_ok_def sp by (simp add: c' spare_ok_def buf_ok_def)
  then show ?thesis using sv mm ba u' in' u l unfolding serving_def u' by (simp add: c' del: rl_inv.simps)
qed

lemma read_serving:
  assumes sv: "serving conf mem lst res c input lo d p r" and room: "b_pos (header_in c) < b_end (header_in c)"
  shows "case ngx_http_read_request_header c input of
      Ready c' input' \<Rightarrow> serving conf mem lst res c' input' lo d p r \<and> 0 < unread c' \<and>
        unread c' + int (length (concat input')) = unread c + int (length (concat input)) \<and> hc c' = hc c \<and> allocs c' = allocs c \<and>
        ([] \<in> set input' \<longrightarrow> [] \<in> set input)
    | Again c' \<Rightarrow> c' = c \<and> p = lst
    | Closed c' \<Rightarrow> [] \<in> set input"
proof (cases "0 < unread c")
  case True
  then show ?thesis using sv by (simp add: ngx_http_read_request_header_def unread_def)
next
  case False
  then have u: "unread c = 0" using sv by (simp add: serving_def conn_ok_def unread_def)
  have le: "b_last (header_in c) < b_end (header_in c)" using room u by (simp add: unread_def)
  show ?thesis
  proof (cases input)
    case Nil
    then show ?thesis using sv u by (simp add: ngx_http_read_request_header_def unread_def serving_def)
  next
    case (Cons bs rest)
    define n where "n = nat (b_end (header_in c) - b_last (header_in c))"
    define input' where "input' = (if drop n bs = [] then rest else drop n bs # rest)"
    define c' where "c' = c\<lparr>memory := mem_store (memory c) (b_last (header_in c)) (take n bs),
      header_in := (header_in c)\<lparr>b_last := b_last (header_in c) + int (length (take n bs))\<rparr>\<rparr>"
    have in': "concat input = take n bs @ concat input'" by (simp add: Cons input'_def)
    have fit: "int (length (take n bs)) \<le> b_end (header_in c) - b_last (header_in c)" using le by (simp add: n_def)
    have r: "ngx_http_read_request_header c input = (if take n bs = [] then Closed c else Ready c' input')"
      using u by (simp add: ngx_http_read_request_header_def unread_def Cons n_def c'_def input'_def Let_def)
    have "n > 0" using le by (simp add: n_def)
    note sv' = receive_serving [OF sv u in' fit c'_def]
    have "[] \<in> set input' \<Longrightarrow> [] \<in> set input" by (simp add: input'_def Cons split: if_splits)
    moreover have "hc c' = hc c" "allocs c' = allocs c" by (simp_all add: c'_def)
    ultimately show ?thesis using sv' u \<open>n > 0\<close> in' unfolding r by (auto simp: Cons)
  qed
qed

text \<open>The outcome \<open>out\<close> with the connection \<open>c\<close> against the result of the parser on the whole input.\<close>

definition agrees :: "mem \<Rightarrow> ngx_request \<times> int \<times> ngx_rc \<Rightarrow> conn \<Rightarrow> ngx_rc \<Rightarrow> bool" where
  "agrees mem whole c rc =
     (case whole of (r, pos, rc') \<Rightarrow> rc' = rc \<and>
        (rc = NGX_OK \<longrightarrow> (\<exists>d. b_pos (header_in c) = pos + d \<and> moved sw_almost_done d r (req c) \<and> mem_moved mem (memory c) d (request_start r) pos)))"

definition finish :: "ngx_request \<Rightarrow> int \<Rightarrow> (rl_state \<times> ngx_request) \<times> int + rl_exit \<Rightarrow> ngx_request \<times> int \<times> ngx_rc" where
  "finish r pos x = (case x of
         Inl ((st, r), p) \<Rightarrow> (r\<lparr>r_state := st\<rparr>, p, NGX_AGAIN)
       | Inr (Inl (r, p)) \<Rightarrow> rl_done r p
       | Inr (Inr (rc, r)) \<Rightarrow> (r, pos, rc))"

lemma parse_finish: "ngx_http_parse_request_line mem r pos lst = map_option (finish r pos) (rl_scan mem lst (r_state r, r) pos)"
  by (simp add: ngx_http_parse_request_line_def finish_def map_option_case split: option.splits)

lemma exit_agrees:
  assumes ok: "rl_exit_ok mem lo q e" and mv: "exit_moved d e e'" and lo: "1 < lo" "1 < lo + d"
    and mm: "mem_moved mem (memory c) d lo q" and f: "finish s b (Inr e') = (r', pos', rc)"
  shows "rc \<noteq> NGX_AGAIN \<and> agrees mem (finish r a (Inr e)) (c\<lparr>req := r', header_in := (header_in c)\<lparr>b_pos := pos'\<rparr>\<rparr>) rc"
proof (cases e)
  case (Inl x)
  obtain r1 p where x: "x = (r1, p)" by (cases x)
  obtain s1 where e': "e' = Inl (s1, p + d)" "moved sw_almost_done d r1 s1" using mv by (cases e') (auto simp: Inl x exit_moved_def)
  have fin: "rl_final mem lo r1 p" "p < q" using ok by (simp_all add: Inl x rl_exit_ok_def)
  then have "lo \<le> request_start r1" "request_start r1 \<le> p" by (auto simp: rl_final_def part_defs)
  with lo have p: "1 < p" "1 < p + d" by simp_all
  obtain r2 where r2: "rl_done r1 p = (r2, p + 1, rc)" "pos' = p + 1 + d" "moved sw_almost_done d r2 r'" "request_start r2 = request_start r1"
    using rl_done_moved [OF e'(2) p] f by (auto simp: finish_def e')
  have "mem_moved mem (memory c) d (request_start r2) (p + 1)"
    using fin(2) \<open>lo \<le> request_start r1\<close> by (intro mem_moved_mono [OF mm]) (simp_all add: r2)
  then show ?thesis using r2 rl_done_ok [OF fin(1) r2(1)] by (auto simp: agrees_def finish_def Inl x)
next
  case (Inr x)
  then show ?thesis using ok mv f by (cases x; cases e') (auto simp: agrees_def finish_def exit_moved_def rl_exit_ok_def)
qed

text \<open>A call of the parser in the loop either ends the run on the whole input in the same way, or takes the loop on.\<close>

lemma parse_serving:
  assumes sv: "serving conf mem lst (Some whole) c input lo d p r"
  shows "\<exists>r' pos' rc c'. ngx_http_parse_request_line (memory c) (req c) (b_pos (header_in c)) (b_last (header_in c)) = Some (r', pos', rc) \<and>
    c' = c\<lparr>req := r', header_in := (header_in c)\<lparr>b_pos := pos'\<rparr>\<rparr> \<and>
    (if rc = NGX_AGAIN
     then pos' = b_last (header_in c) \<and> (\<exists>r1. serving conf mem lst (Some whole) c' input lo d (p + unread c) r1)
     else \<forall>r0 a. agrees mem (finish r0 a whole) c' rc)"
proof -
  define q where "q = p + unread c"
  define st where "st = r_state (req c)"
  have bl: "b_pos (header_in c) = p + d" "b_last (header_in c) = q + d" "p \<le> q" "q \<le> lst"
    using sv by (simp_all add: serving_def conn_ok_def q_def unread_def del: rl_inv.simps)
  have inv: "rl_inv mem lo (st, r) p" "ptrs_above st r" "moved st d r (req c)" using sv by (simp_all add: serving_def st_def del: rl_inv.simps)
  have lo: "1 < lo" "1 < lo + d" "mem_moved mem (memory c) d lo q" and rd: "readable mem lo lst"
    using sv by (simp_all add: serving_def conn_ok_def buf_ok_def q_def del: rl_inv.simps)
  have rest: "b_start (header_in c) \<le> lo + d" "bytes_at mem q (concat input)" "q + int (length (concat input)) = lst"
    using sv by (simp_all add: serving_def q_def del: rl_inv.simps)
  have rq: "readable mem lo q" using rd bl(4) by (simp add: readable_def)
  have "memory c (q + d) \<noteq> None" using sv bl by (simp add: serving_def conn_ok_def buf_ok_def readable_def del: rl_inv.simps)
  then have to: "moved_to mem (memory c) d lo q" using lo rq by (simp add: moved_to_def)
  obtain x where x: "rl_scan mem q (st, r) p = Some x"
    "case x of Inl (s', p') \<Rightarrow> (rl_inv mem lo s' p' \<and> ptrs_above (fst s') (snd s')) \<and> p' = q | Inr e \<Rightarrow> rl_exit_ok mem lo q e"
    using rl_scan_above [of mem lo "(st, r)" p q] inv bl(3) rq by (auto simp del: rl_inv.simps)
  have "run_moved mem lo d (st, r) p (st, req c) (p + d)" using inv by (simp add: run_moved_def del: rl_inv.simps)
  from rl_scan_moved [OF this to x(1)] obtain y where y: "rl_scan (memory c) (q + d) (st, req c) (p + d) = Some y"
    "rel_sum (\<lambda>(s1, p1) (s2, p2). run_moved mem lo d s1 p1 s2 p2) (exit_moved d) x y" by blast
  have parse: "ngx_http_parse_request_line (memory c) (req c) (b_pos (header_in c)) (b_last (header_in c)) = Some (finish (req c) (p + d) y)"
    using y(1) by (simp add: parse_finish bl st_def)
  have whole: "Some whole = (case x of Inl (s', p') \<Rightarrow> rl_scan mem lst s' p' | Inr e \<Rightarrow> Some (Inr e))"
    using rl.scan_resume [OF bl(4), of mem "(st, r)" p] sv x(1) by (simp add: serving_def st_def del: rl_inv.simps)
  show ?thesis
  proof (cases x)
    case (Inl z)
    obtain st1 r1 where z: "z = ((st1, r1), q)" "rl_inv mem lo (st1, r1) q" "ptrs_above st1 r1" using x(2) Inl by (cases z; cases "fst z") (simp del: rl_inv.simps)
    obtain s1 where s1: "y = Inl ((st1, s1), q + d)" "moved st1 d r1 s1"
      using y(2) by (cases y) (auto simp: Inl z(1) run_moved_def simp del: rl_inv.simps)
    let ?c = "c\<lparr>req := s1\<lparr>r_state := st1\<rparr>, header_in := (header_in c)\<lparr>b_pos := q + d\<rparr>\<rparr>"
    have "conn_ok conf ?c" using sv bl by (simp add: serving_def conn_ok_def buf_ok_def spare_ok_def apart_def spare_def del: rl_inv.simps)
    moreover have "rl_scan mem lst (st1, r1) q = Some whole" using whole by (simp add: Inl z(1))
    ultimately have "serving conf mem lst (Some whole) ?c input lo d q r1"
      using rest lo(1,3) rd z(2,3) s1(2) bl(2) by (simp add: serving_def unread_def del: rl_inv.simps)
    then show ?thesis using parse bl(2) unfolding s1(1) q_def [symmetric] by (auto simp: finish_def)
  next
    case (Inr e)
    obtain e' where e': "y = Inr e'" "exit_moved d e e'" using y(2) by (cases y) (auto simp: Inr)
    obtain r' pos' rc where f: "finish (req c) (p + d) (Inr e') = (r', pos', rc)" by (cases "finish (req c) (p + d) (Inr e')")
    show ?thesis using exit_agrees [OF _ e'(2) lo(1,2,3) f] x(2) parse whole f by (auto simp: Inr e')
  qed
qed

lemma memcpy_ok:
  assumes "readable mem src (src + n)" "0 \<le> n" "n \<le> room" "dst + n \<le> src \<or> src + n \<le> dst"
  shows "\<exists>bs. memcpy mem dst src n room = Some (mem_store mem dst bs) \<and> length bs = nat n \<and> (\<forall>i < nat n. mem (src + int i) = Some (bs ! i))"
proof -
  obtain bs where bs: "mem_load mem src (nat n) = Some bs"
    using mem_load_Some [of src "nat n" mem] assms(1,2) by (auto simp: readable_def)
  then show ?thesis using assms mem_load_length [OF bs] mem_load_nth [OF bs] by (auto simp: memcpy_def)
qed

lemma copy_moved:
  assumes "mem_moved mem mem' d lo q" "lo \<le> a" "a \<le> q" "length bs = nat (q - a)" "\<forall>i < nat (q - a). mem' (a + d + int i) = Some (bs ! i)"
  shows "mem_moved mem (mem_store mem' new bs) (new - a) a q"
  unfolding mem_moved_def
proof (intro allI impI)
  fix x assume x: "a \<le> x \<and> x < q"
  then have "mem' (a + d + int (nat (x - a))) = Some (bs ! nat (x - a))" using assms(5) [rule_format, of "nat (x - a)"] x by (simp del: int_nat_eq)
  moreover have "a + d + int (nat (x - a)) = x + d" using x by simp
  ultimately have "mem x = Some (bs ! nat (x - a))" using mem_movedD [OF assms(1), of x] assms(2) x by (simp add: add.commute)
  then show "mem_store mem' new bs (x + (new - a)) = mem x" using x assms(4) by (simp add: mem_store_def)
qed

text \<open>A full buffer: the loop goes on in another buffer, unless the line is too long or there is no other buffer.\<close>

lemma reset_serving:
  assumes sv: "serving conf mem lst whole c input lo d p r" and st: "r_state (req c) = sw_start" and u: "unread c = 0"
    and c': "c' = c\<lparr>header_in := (header_in c)\<lparr>b_pos := b_start (header_in c), b_last := b_start (header_in c)\<rparr>\<rparr>"
  shows "\<exists>lo' d'. lo \<le> lo' \<and> serving conf mem lst whole c' input lo' d' p r"
proof -
  have u': "unread c' = 0" by (simp add: c' unread_def)
  have ok: "conn_ok conf c'" using sv by (auto simp: serving_def conn_ok_def buf_ok_def spare_ok_def apart_def spare_def c')
  have "lo \<le> p" "1 < lo" using sv by (simp_all add: serving_def)
  moreover have "readable mem p lst" using sv \<open>lo \<le> p\<close> by (simp add: serving_def readable_def)
  moreover have "moved sw_start (b_start (header_in c) - p) r (req c)" using sv st moved_start [of r d "req c"] by (simp add: serving_def)
  moreover have "rl_inv mem p (sw_start, r) p" using sv st by (simp add: serving_def)
  ultimately have "serving conf mem lst whole c' input p (b_start (header_in c) - p) p r"
    using sv st ok u by (simp add: serving_def u') (simp add: c')
  then show ?thesis using \<open>lo \<le> p\<close> by blast
qed

lemma copy_serving:
  assumes sv: "serving conf mem lst whole c input lo d p r" and st: "r_state (req c) \<noteq> sw_start" and u: "unread c = 0"
    and nb: "buf_ok (memory c) b" "spare_ok conf (memory c) b (spare c1)" "b_start b + (p - request_start r) < b_end b"
    and bs: "length bs = nat (p - request_start r)" "\<forall>i < nat (p - request_start r). memory c (request_start r + d + int i) = Some (bs ! i)"
    and c': "memory c' = mem_store (memory c) (b_start b) bs" "header_in c' = b\<lparr>b_pos := b_start b + (p - request_start r), b_last := b_start b + (p - request_start r)\<rparr>"
      "req c' = relocate (request_start r + d) (b_start b) (req c)" "spare c' = spare c1"
  shows "\<exists>lo' d'. lo \<le> lo' \<and> serving conf mem lst whole c' input lo' d' p r"
proof -
  define a where "a = request_start r"
  have inv: "rl_inv mem lo (r_state (req c), r) p" "ptrs_above (r_state (req c)) r" "moved (r_state (req c)) d r (req c)"
    "whole = rl_scan mem lst (r_state (req c), r) p" using sv by (simp_all add: serving_def del: rl_inv.simps)
  have a: "lo \<le> a" "a < p" using rl_inv_start [OF inv(1) st] by (simp_all add: a_def)
  have rest: "bytes_at mem p (concat input)" "p + int (length (concat input)) = lst" "readable mem lo lst" "1 < lo"
    "mem_moved mem (memory c) d lo p" using sv u by (simp_all add: serving_def del: rl_inv.simps)
  have new: "1 < b_start b" "b_start b < b_end b" using nb(1) by (simp_all add: buf_ok_def)
  have "moved (r_state (req c)) (b_start b - a) r (req c')"
    using relocate_moved [OF inv(3,2) st new(1)] by (simp add: c' a_def)
  moreover have "rl_inv mem a (r_state (req c), r) p" using rl_inv_lo [OF inv(1) st] by (simp add: a_def)
  moreover have "mem_moved mem (memory c') (b_start b - a) a p"
    using copy_moved [OF rest(5) a(1), of bs] a(2) bs by (simp add: c' a_def)
  moreover have "conn_ok conf c'"
    using buf_ok_store [OF nb(1)] spare_ok_store [OF nb(2)] nb(3) a(2)
    by (simp add: conn_ok_def c' buf_ok_def spare_ok_def apart_def a_def)
  moreover have "r_state (req c') = r_state (req c)" "unread c' = 0" by (simp_all add: c' relocate_fields unread_def)
  ultimately have "serving conf mem lst whole c' input a (b_start b - a) p r"
    using inv(2,4) rest a by (simp add: serving_def c'(2) a_def readable_def del: rl_inv.simps)
  then show ?thesis using a by blast
qed

text \<open>What the loop does with a full buffer.\<close>

definition after_alloc :: "header_conf \<Rightarrow> mem \<Rightarrow> int \<Rightarrow> ((rl_state \<times> ngx_request) \<times> int + rl_exit) option \<Rightarrow> conn \<Rightarrow> byte list list \<Rightarrow>
  int \<Rightarrow> int \<Rightarrow> ngx_request \<Rightarrow> conn \<Rightarrow> alloc_rc \<Rightarrow> bool" where
  "after_alloc conf mem lst whole c input lo p r c' rv =
    (case rv of
       ALLOC_OK \<Rightarrow> (\<exists>lo' d. lo \<le> lo' \<and> serving conf mem lst whole c' input lo' d p r) \<and> b_pos (header_in c') < b_end (header_in c') \<and> unread c' = 0 \<and>
         (supplied conf c \<longrightarrow> supplied conf c')
     | ALLOC_DECLINED \<Rightarrow> large_size conf \<le> p - lo \<or> large_num conf \<le> hc_nbusy (hc c')
     | ALLOC_ERROR \<Rightarrow> \<not> supplied conf c)"

lemma take_serving:
  assumes sv: "serving conf mem lst whole c input lo d p r" and full: "b_pos (header_in c) = b_end (header_in c)"
    and st: "r_state (req c) \<noteq> sw_start" and short: "p - request_start r < large_size conf"
    and tk: "take_large_buffer conf c = (c1, Inr b)"
    and c2: "c2 = c1\<lparr>hc := (hc c1)\<lparr>hc_busy := b # hc_busy (hc c1), hc_nbusy := hc_nbusy (hc c1) + 1\<rparr>\<rparr>"
  shows "\<exists>m. memcpy (memory c2) (b_start b) (request_start r + d) (p - request_start r) (b_end b - b_start b) = Some m \<and>
    after_alloc conf mem lst whole c input lo p r (c2\<lparr>memory := m, header_in := b\<lparr>b_pos := b_start b + (p - request_start r),
      b_last := b_start b + (p - request_start r)\<rparr>, req := relocate (request_start r + d) (b_start b) (req c)\<rparr>) ALLOC_OK"
proof -
  define a where "a = request_start r"
  have u: "unread c = 0" and ok: "conn_ok conf c" and pd: "b_end (header_in c) = p + d" "b_start (header_in c) \<le> lo + d"
    and inv: "rl_inv mem lo (r_state (req c), r) p"
    using sv full by (auto simp: serving_def conn_ok_def unread_def simp del: rl_inv.simps)
  have a: "lo \<le> a" "a < p" using rl_inv_start [OF inv st] by (simp_all add: a_def)
  have sp: "spare_ok conf (memory c) (header_in c) (spare c)" and h: "readable (memory c) (b_start (header_in c)) (p + d)"
    using ok pd(1) by (simp_all add: conn_ok_def buf_ok_def)
  have tb: "memory c1 = memory c" "buf_ok (memory c) b" "b_end b - b_start b = large_size conf" "apart (header_in c) b"
      "spare_ok conf (memory c) b (spare c1)" "supplied conf c \<Longrightarrow> supplied conf (c1\<lparr>hc := (hc c1)\<lparr>hc_nbusy := hc_nbusy (hc c1) + 1\<rparr>\<rparr>)"
    using take_large_buffer_ok [OF tk sp] unfolding sum.case by blast+
  have room: "b_start b + (p - a) < b_end b" using short tb(3) by (simp add: a_def)
  have "readable (memory c) (a + d) (a + d + (p - a))" using h a pd by (simp add: readable_def)
  moreover have "b_start b + (p - a) \<le> a + d \<or> a + d + (p - a) \<le> b_start b"
    using tb(4) room a pd by (auto simp: apart_def)
  ultimately obtain bs where bs: "memcpy (memory c) (b_start b) (a + d) (p - a) (b_end b - b_start b) = Some (mem_store (memory c) (b_start b) bs)"
      "length bs = nat (p - a)" "\<forall>i < nat (p - a). memory c (a + d + int i) = Some (bs ! i)"
    using memcpy_ok [of "memory c" "a + d" "p - a" "b_end b - b_start b" "b_start b"] room a by auto
  define c' where "c' = c2\<lparr>memory := mem_store (memory c) (b_start b) bs, header_in := b\<lparr>b_pos := b_start b + (p - a), b_last := b_start b + (p - a)\<rparr>,
    req := relocate (a + d) (b_start b) (req c)\<rparr>"
  have "spare c' = spare c1" by (simp add: c'_def c2 spare_def)
  then have "\<exists>lo' d'. lo \<le> lo' \<and> serving conf mem lst whole c' input lo' d' p r"
    using bs room unfolding a_def by (intro copy_serving [OF sv st u tb(2,5)]) (simp_all add: c'_def a_def)
  moreover have "supplied conf c' = supplied conf (c1\<lparr>hc := (hc c1)\<lparr>hc_nbusy := hc_nbusy (hc c1) + 1\<rparr>\<rparr>)"
    by (simp add: supplied_def c'_def c2)
  ultimately have "after_alloc conf mem lst whole c input lo p r c' ALLOC_OK"
    using room tb(6) unfolding after_alloc_def by (simp add: unread_def) (simp add: c'_def)
  then show ?thesis using bs(1) tb(1) unfolding c'_def a_def by (simp add: c2)
qed

lemma alloc_serving:
  assumes sv: "serving conf mem lst whole c input lo d p r" and full: "b_pos (header_in c) = b_end (header_in c)"
  shows "\<exists>c' rv. ngx_http_alloc_large_header_buffer conf c = Some (c', rv) \<and> after_alloc conf mem lst whole c input lo p r c' rv"
proof -
  have u: "unread c = 0" and ok: "conn_ok conf c" and pd: "b_pos (header_in c) = p + d"
    using sv full by (auto simp: serving_def conn_ok_def unread_def simp del: rl_inv.simps)
  show ?thesis
  proof (cases "r_state (req c) = sw_start")
    case True
    then show ?thesis using reset_serving [OF sv True u refl] ok
      by (auto simp: ngx_http_alloc_large_header_buffer_def Let_def conn_ok_def buf_ok_def unread_def supplied_def after_alloc_def)
  next
    case False
    have inv: "rl_inv mem lo (r_state (req c), r) p" and mv: "moved (r_state (req c)) d r (req c)"
      using sv by (simp_all add: serving_def del: rl_inv.simps)
    have a: "lo \<le> request_start r" using rl_inv_start [OF inv False] by simp
    have old: "request_start (req c) = request_start r + d" using mv False by (simp add: moved_def)
    have n: "b_pos (header_in c) - (request_start r + d) = p - request_start r" by (simp add: pd)
    obtain c1 x where tk: "take_large_buffer conf c = (c1, x)" by (cases "take_large_buffer conf c")
    have sp: "spare_ok conf (memory c) (header_in c) (spare c)" using ok by (simp add: conn_ok_def)
    consider "large_size conf \<le> p - request_start r" | rc where "p - request_start r < large_size conf" "x = Inl rc"
      | b where "p - request_start r < large_size conf" "x = Inr b" by (cases x) fastforce+
    then show ?thesis
    proof cases
      case 1
      then show ?thesis using False a by (simp add: ngx_http_alloc_large_header_buffer_def Let_def old n after_alloc_def)
    next
      case 2
      then show ?thesis using False take_large_buffer_ok [OF tk sp] tk
        by (auto simp: ngx_http_alloc_large_header_buffer_def Let_def old n after_alloc_def)
    next
      case 3
      then show ?thesis using False take_serving [OF sv full False 3(1) _ refl, of c1 b] tk
        by (auto simp: ngx_http_alloc_large_header_buffer_def Let_def old n)
    qed
  qed
qed

section \<open>The loop\<close>

text \<open>The outcome of the loop from the connection \<open>c\<close> on, against the result of the parser on the whole input of \<open>n\<close> bytes.\<close>

definition served :: "header_conf \<Rightarrow> mem \<Rightarrow> ngx_request \<times> int \<times> ngx_rc \<Rightarrow> int \<Rightarrow> conn \<Rightarrow> byte list list \<Rightarrow> conn \<Rightarrow> outcome \<Rightarrow> bool" where
  "served conf mem whole n c input c' out =
     (case out of
        Parsed rc \<Rightarrow> agrees mem whole c' rc
      | Waiting \<Rightarrow> snd (snd whole) = NGX_AGAIN
      | Disconnected \<Rightarrow> [] \<in> set input
      | Internal_Error \<Rightarrow> \<not> supplied conf c
      | Request_Line_Too_Long \<Rightarrow> large_size conf \<le> n \<or> large_num conf \<le> hc_nbusy (hc c'))"

lemma served_mono:
  "served conf mem whole n c2 input2 c' out \<Longrightarrow> ([] \<in> set input2 \<Longrightarrow> [] \<in> set input) \<Longrightarrow> (supplied conf c \<Longrightarrow> supplied conf c2) \<Longrightarrow>
     served conf mem whole n c input c' out"
  by (auto simp: served_def split: outcome.splits)

lemma process_serving:
  assumes "serving conf mem lst (Some whole) c input lo d p r" "b_pos (header_in c) < b_end (header_in c)" "a \<le> lo"
  shows "\<exists>c' out. ngx_http_process_request_line conf c input = Some (c', out) \<and> served conf mem (finish r0 a whole) (lst - a) c input c' out"
  using assms
proof (induction "nat (unread c) + length (concat input)" arbitrary: c input lo d p r rule: less_induct)
  case less
  note sv = less.prems(1) and room = less.prems(2) and al = less.prems(3)
  note eq = ngx_http_process_request_line.simps [of conf c input]
  show ?case
  proof (cases "ngx_http_read_request_header c input")
    case (Again c')
    then have "p = lst" using read_serving [OF sv room] by simp
    then have "finish r0 a whole = (r\<lparr>r_state := r_state (req c)\<rparr>, lst, NGX_AGAIN)"
      using sv by (simp add: serving_def rl.scan_end finish_def del: rl_inv.simps)
    then show ?thesis using eq Again by (simp add: served_def)
  next
    case (Closed c')
    then show ?thesis using eq read_serving [OF sv room] by (simp add: served_def)
  next
    case (Ready c1 input1)
    then have sv1: "serving conf mem lst (Some whole) c1 input1 lo d p r" "0 < unread c1"
      "unread c1 + int (length (concat input1)) = unread c + int (length (concat input))" "hc c1 = hc c" "allocs c1 = allocs c"
      "[] \<in> set input1 \<Longrightarrow> [] \<in> set input" using read_serving [OF sv room] by simp_all
    from parse_serving [OF sv1(1)] obtain r' pos' rc c2 where
      ps: "ngx_http_parse_request_line (memory c1) (req c1) (b_pos (header_in c1)) (b_last (header_in c1)) = Some (r', pos', rc)"
      and c2: "c2 = c1\<lparr>req := r', header_in := (header_in c1)\<lparr>b_pos := pos'\<rparr>\<rparr>"
      and res: "if rc = NGX_AGAIN
         then pos' = b_last (header_in c1) \<and> (\<exists>r1. serving conf mem lst (Some whole) c2 input1 lo d (p + unread c1) r1)
         else \<forall>r0 a. agrees mem (finish r0 a whole) c2 rc" by blast
    show ?thesis
    proof (cases "rc = NGX_AGAIN")
      case False
      then show ?thesis using eq Ready ps res by (simp add: served_def c2)
    next
      case True
      then obtain r1 where sv2: "serving conf mem lst (Some whole) c2 input1 lo d (p + unread c1) r1" and pos': "pos' = b_last (header_in c1)"
        using res by auto
      have u2: "unread c2 = 0" by (simp add: c2 pos' unread_def)
      have eq2: "ngx_http_process_request_line conf c input =
          (if b_pos (header_in c2) = b_end (header_in c2) then do {
            (c, rv) \<leftarrow> ngx_http_alloc_large_header_buffer conf c2;
            case rv of
              ALLOC_ERROR \<Rightarrow> Some (c, Internal_Error)
            | ALLOC_DECLINED \<Rightarrow> Some (c, Request_Line_Too_Long)
            | ALLOC_OK \<Rightarrow> ngx_http_process_request_line conf c input1
          }
          else ngx_http_process_request_line conf c2 input1)"
        unfolding eq Ready by (simp add: ps True c2)
      have su: "supplied conf c2 = supplied conf c" by (simp add: supplied_def c2 sv1(4,5))
      have go: "\<exists>c' out. ngx_http_process_request_line conf c3 input1 = Some (c', out) \<and> served conf mem (finish r0 a whole) (lst - a) c input c' out"
        if sv3: "serving conf mem lst (Some whole) c3 input1 lo3 d3 (p + unread c1) r1" "b_pos (header_in c3) < b_end (header_in c3)" "lo \<le> lo3"
          and u3: "unread c3 = 0" and su3: "supplied conf c \<Longrightarrow> supplied conf c3" for c3 lo3 d3
        using less.hyps [OF _ sv3(1,2)] al sv3(3) u3 sv1(2,3) served_mono [OF _ sv1(6) su3] by fastforce
      have long: "p + unread c1 - lo \<le> lst - a" using sv2 al u2 by (simp add: serving_def)
      show ?thesis
      proof (cases "b_pos (header_in c2) = b_end (header_in c2)")
        case False
        then have "b_pos (header_in c2) < b_end (header_in c2)" using sv2 by (simp add: serving_def conn_ok_def)
        then show ?thesis using go [OF sv2 _ order_refl u2] su eq2 False by simp
      next
        case full: True
        obtain c3 rv where al3: "ngx_http_alloc_large_header_buffer conf c2 = Some (c3, rv)"
          "after_alloc conf mem lst (Some whole) c2 input1 lo (p + unread c1) r1 c3 rv" using alloc_serving [OF sv2 full] by blast
        show ?thesis
        proof (cases rv)
          case ALLOC_OK
          then show ?thesis using al3 eq2 full go su by (auto simp: after_alloc_def)
        next
          case ALLOC_DECLINED
          then show ?thesis using al3 eq2 full long by (auto simp: after_alloc_def served_def)
        next
          case ALLOC_ERROR
          then show ?thesis using al3 eq2 full su by (auto simp: after_alloc_def served_def)
        qed
      qed
    qed
  qed
qed

section \<open>Property\<close>

text \<open>A request before its first byte: zeroed pointers, as \<open>ngx_http_alloc_request\<close> leaves them.\<close>

definition blank :: "ngx_request \<Rightarrow> bool" where
  "blank r \<longleftrightarrow> r_state r = sw_start \<and> ptrs_above sw_start r \<and> port_start r = 0 \<and> r_method r = NGX_HTTP_UNKNOWN \<and> http_major r = 0"


text \<open>A line that arrives in three pieces at a buffer of eight bytes, and the connection with one large buffer.\<close>

definition pieces :: "byte list list" where
  "pieces = [map chr ''GET /in'', map chr ''dex HTTP/'', map chr ''1.1'' @ [CR, LF]]"

definition small_conn :: conn where
  "small_conn = \<lparr>memory = (\<lambda>x. if 100 \<le> x \<and> x \<le> 108 \<or> 200 \<le> x \<and> x \<le> 264 then Some 0 else None),
     header_in = \<lparr>b_pos = 100, b_last = 100, b_start = 100, b_end = 108\<rparr>, hc = \<lparr>hc_busy = [], hc_nbusy = 0, hc_free = []\<rparr>,
     allocs = [(Some \<lparr>b_pos = 200, b_last = 200, b_start = 200, b_end = 264\<rparr>, True)], req = zero_request\<rparr>"


end
