(* ===== verification/NgxHeaderLine.thy ===== *)
theory NgxHeaderLine
  imports Scanner
begin

text \<open>
  The header line parser of \<^verbatim>\<open>nginx/src/http/ngx_http_parse.c\<close> (\<open>ngx_http_parse_header_line\<close>), one definition per state of its
  \<open>switch\<close>, and its result on a block of header lines. Pointers are addresses; a result \<open>None\<close> is a load outside of memory or a store
  outside of the array \<open>lowcase_header\<close>.
\<close>

section \<open>Model\<close>

datatype hl_state = sw_start | sw_name | sw_space_before_value | sw_value | sw_space_after_value | sw_ignore_line | sw_almost_done
  | sw_header_almost_done

datatype hl_rc = NGX_OK | NGX_AGAIN | NGX_HTTP_PARSE_HEADER_DONE | NGX_HTTP_PARSE_INVALID_HEADER

definition NGX_HTTP_LC_HEADER_LEN :: nat where
  "NGX_HTTP_LC_HEADER_LEN = 32"

record ngx_headers =
  hl_state :: hl_state
  header_hash :: "64 word"
  lowcase_index :: nat
  lowcase_header :: "byte list"
  header_name_start :: int
  header_name_end :: int
  header_start :: int
  header_end :: int
  invalid_header :: bool
  upstream :: bool
  request_length :: int

definition lowcase_tab :: "byte list" where
  "lowcase_tab = replicate 45 0 @ [45, 0, 0] @ map of_nat [48..<58] @ replicate 7 0 @ map of_nat [97..<123] @ replicate 6 0 @ map of_nat [97..<123] @ replicate 133 0"

definition lowcase :: "byte \<Rightarrow> byte" where
  "lowcase ch = lowcase_tab ! unat ch"

definition ngx_hash :: "64 word \<Rightarrow> byte \<Rightarrow> 64 word" where
  "ngx_hash key c = key * 31 + ucast c"

text \<open>The local variables \<open>state\<close>, \<open>hash\<close> and \<open>i\<close> of the loop, with the request.\<close>

record hl_vars =
  v_state :: hl_state
  v_hash :: "64 word"
  v_i :: nat
  v_req :: ngx_headers

datatype hl_round = Break hl_vars | Done hl_vars | Header_done hl_vars | Invalid hl_vars

text \<open>\<open>r->lowcase_header[i++] = c; i &= NGX_HTTP_LC_HEADER_LEN - 1\<close>.\<close>

definition put_lowcase :: "hl_vars \<Rightarrow> byte \<Rightarrow> hl_vars option" where
  "put_lowcase v c =
     (if v_i v < length (lowcase_header (v_req v))
      then Some (v\<lparr>v_hash := ngx_hash (v_hash v) c,
        v_req := (v_req v)\<lparr>lowcase_header := (lowcase_header (v_req v))[v_i v := c]\<rparr>,
        v_i := (v_i v + 1) mod NGX_HTTP_LC_HEADER_LEN\<rparr>)
      else None)"

definition hl_start :: "bool \<Rightarrow> hl_vars \<Rightarrow> int \<Rightarrow> byte \<Rightarrow> hl_round option" where
  "hl_start allow_underscores v p ch =
     (let r = (v_req v)\<lparr>header_name_start := p, invalid_header := False\<rparr> in
      if ch = CR then Some (Break (v\<lparr>v_req := r\<lparr>header_end := p\<rparr>, v_state := sw_header_almost_done\<rparr>))
      else if ch = LF then Some (Header_done (v\<lparr>v_req := r\<lparr>header_end := p\<rparr>\<rparr>))
      else
        let v = v\<lparr>v_req := r, v_state := sw_name\<rparr>; c = lowcase ch in
        if c \<noteq> 0 then do {
          v \<leftarrow> put_lowcase (v\<lparr>v_hash := 0, v_i := 0\<rparr>) c;
          Some (Break v)
        }
        else if ch = chr CHR ''_'' then
          (if allow_underscores then do {
             v \<leftarrow> put_lowcase (v\<lparr>v_hash := 0, v_i := 0\<rparr>) ch;
             Some (Break v)
           }
           else Some (Break (v\<lparr>v_req := r\<lparr>invalid_header := True\<rparr>\<rparr>)))
        else if ch = 0 then Some (Invalid v)
        else Some (Break (v\<lparr>v_req := r\<lparr>invalid_header := True\<rparr>\<rparr>)))"

text \<open>\<open>ngx_strncmp (a, s, n) == 0\<close>: reads up to the first difference.\<close>

fun strncmp_eq :: "mem \<Rightarrow> int \<Rightarrow> byte list \<Rightarrow> bool option" where
  "strncmp_eq mem a [] = Some True"
| "strncmp_eq mem a (c # cs) = do { b \<leftarrow> mem a; if b = c then strncmp_eq mem (a + 1) cs else Some False }"

definition hl_name :: "mem \<Rightarrow> bool \<Rightarrow> hl_vars \<Rightarrow> int \<Rightarrow> byte \<Rightarrow> hl_round option" where
  "hl_name mem allow_underscores v p ch =
     (let r = v_req v; c = lowcase ch in
      if c \<noteq> 0 then do { v \<leftarrow> put_lowcase v c; Some (Break v) }
      else if ch = chr CHR ''_'' then
        (if allow_underscores then do { v \<leftarrow> put_lowcase v ch; Some (Break v) }
         else Some (Break (v\<lparr>v_req := r\<lparr>invalid_header := True\<rparr>\<rparr>)))
      else if ch = chr CHR '':'' then Some (Break (v\<lparr>v_req := r\<lparr>header_name_end := p\<rparr>, v_state := sw_space_before_value\<rparr>))
      else if ch = CR then
        Some (Break (v\<lparr>v_req := r\<lparr>header_name_end := p, header_start := p, header_end := p\<rparr>, v_state := sw_almost_done\<rparr>))
      else if ch = LF then Some (Done (v\<lparr>v_req := r\<lparr>header_name_end := p, header_start := p, header_end := p\<rparr>\<rparr>))
      else do {
        http \<leftarrow> (if ch = chr CHR ''/'' \<and> upstream r \<and> p - header_name_start r = 4
          then strncmp_eq mem (header_name_start r) (map chr ''HTTP'') else Some False);
        if http then Some (Break (v\<lparr>v_state := sw_ignore_line\<rparr>))
        else if ch = 0 then Some (Invalid v)
        else Some (Break (v\<lparr>v_req := r\<lparr>invalid_header := True\<rparr>\<rparr>))
      })"

definition hl_space_before_value :: "hl_vars \<Rightarrow> int \<Rightarrow> byte \<Rightarrow> hl_round" where
  "hl_space_before_value v p ch =
     (let r = v_req v in
      if ch = chr CHR '' '' then Break v
      else if ch = CR then Break (v\<lparr>v_req := r\<lparr>header_start := p, header_end := p\<rparr>, v_state := sw_almost_done\<rparr>)
      else if ch = LF then Done (v\<lparr>v_req := r\<lparr>header_start := p, header_end := p\<rparr>\<rparr>)
      else if ch = 0 then Invalid v
      else Break (v\<lparr>v_req := r\<lparr>header_start := p\<rparr>, v_state := sw_value\<rparr>))"

definition hl_value :: "hl_vars \<Rightarrow> int \<Rightarrow> byte \<Rightarrow> hl_round" where
  "hl_value v p ch =
     (let r = (v_req v)\<lparr>header_end := p\<rparr> in
      if ch = chr CHR '' '' then Break (v\<lparr>v_req := r, v_state := sw_space_after_value\<rparr>)
      else if ch = CR then Break (v\<lparr>v_req := r, v_state := sw_almost_done\<rparr>)
      else if ch = LF then Done (v\<lparr>v_req := r\<rparr>)
      else if ch = 0 then Invalid v
      else Break v)"

definition hl_space_after_value :: "hl_vars \<Rightarrow> byte \<Rightarrow> hl_round" where
  "hl_space_after_value v ch =
     (if ch = chr CHR '' '' then Break v
      else if ch = CR then Break (v\<lparr>v_state := sw_almost_done\<rparr>)
      else if ch = LF then Done v
      else if ch = 0 then Invalid v
      else Break (v\<lparr>v_state := sw_value\<rparr>))"

definition hl_ignore_line :: "hl_vars \<Rightarrow> byte \<Rightarrow> hl_round" where
  "hl_ignore_line v ch = (if ch = LF then Break (v\<lparr>v_state := sw_start\<rparr>) else Break v)"

definition hl_almost_done :: "hl_vars \<Rightarrow> byte \<Rightarrow> hl_round" where
  "hl_almost_done v ch = (if ch = LF then Done v else if ch = CR then Break v else Invalid v)"

definition hl_header_almost_done :: "hl_vars \<Rightarrow> byte \<Rightarrow> hl_round" where
  "hl_header_almost_done v ch = (if ch = LF then Header_done v else Invalid v)"

definition hl_switch :: "mem \<Rightarrow> bool \<Rightarrow> hl_vars \<Rightarrow> int \<Rightarrow> byte \<Rightarrow> hl_round option" where
  "hl_switch mem allow_underscores v p ch =
     (case v_state v of
        sw_start \<Rightarrow> hl_start allow_underscores v p ch
      | sw_name \<Rightarrow> hl_name mem allow_underscores v p ch
      | sw_space_before_value \<Rightarrow> Some (hl_space_before_value v p ch)
      | sw_value \<Rightarrow> Some (hl_value v p ch)
      | sw_space_after_value \<Rightarrow> Some (hl_space_after_value v ch)
      | sw_ignore_line \<Rightarrow> Some (hl_ignore_line v ch)
      | sw_almost_done \<Rightarrow> Some (hl_almost_done v ch)
      | sw_header_almost_done \<Rightarrow> Some (hl_header_almost_done v ch))"

type_synonym hl_exit = "hl_rc \<times> hl_vars \<times> int"

definition hl_step :: "mem \<Rightarrow> bool \<Rightarrow> hl_vars \<Rightarrow> int \<Rightarrow> (hl_vars \<times> int + hl_exit) option" where
  "hl_step mem allow_underscores v p = do {
     ch \<leftarrow> mem p;
     x \<leftarrow> hl_switch mem allow_underscores v p ch;
     Some (case x of
         Break v \<Rightarrow> Inl (v, p + 1)
       | Done v \<Rightarrow> Inr (NGX_OK, v, p)
       | Header_done v \<Rightarrow> Inr (NGX_HTTP_PARSE_HEADER_DONE, v, p)
       | Invalid v \<Rightarrow> Inr (NGX_HTTP_PARSE_INVALID_HEADER, v, p))
   }"

partial_function (option) hl_scan :: "mem \<Rightarrow> bool \<Rightarrow> int \<Rightarrow> hl_vars \<Rightarrow> int \<Rightarrow> (hl_vars \<times> int + hl_exit) option" where
  "hl_scan mem allow_underscores lst v p =
     (if p < lst then do {
        x \<leftarrow> hl_step mem allow_underscores v p;
        case x of Inl (v', p') \<Rightarrow> hl_scan mem allow_underscores lst v' p' | Inr r \<Rightarrow> Some (Inr r)
      } else Some (Inl (v, p)))"

text \<open>The arguments are the memory, the request, \<open>b->pos\<close> and \<open>b->last\<close>; the results are the request, \<open>b->pos\<close> and the return value.\<close>

definition ngx_http_parse_header_line :: "mem \<Rightarrow> bool \<Rightarrow> ngx_headers \<Rightarrow> int \<Rightarrow> int \<Rightarrow> (ngx_headers \<times> int \<times> hl_rc) option" where
  "ngx_http_parse_header_line mem allow_underscores r pos lst = do {
     x \<leftarrow> hl_scan mem allow_underscores lst \<lparr>v_state = hl_state r, v_hash = header_hash r, v_i = lowcase_index r, v_req = r\<rparr> pos;
     Some (case x of
         Inl (v, p) \<Rightarrow> ((v_req v)\<lparr>hl_state := v_state v, header_hash := v_hash v, lowcase_index := v_i v\<rparr>, p, NGX_AGAIN)
       | Inr (NGX_OK, v, p) \<Rightarrow> ((v_req v)\<lparr>hl_state := sw_start, header_hash := v_hash v, lowcase_index := v_i v\<rparr>, p + 1, NGX_OK)
       | Inr (NGX_HTTP_PARSE_HEADER_DONE, v, p) \<Rightarrow> ((v_req v)\<lparr>hl_state := sw_start\<rparr>, p + 1, NGX_HTTP_PARSE_HEADER_DONE)
       | Inr (rc, v, p) \<Rightarrow> (v_req v, pos, rc))
   }"

text \<open>
  The part of \<open>ngx_http_process_request_headers\<close> that works on the bytes received: every header line becomes an element of
  \<open>headers_in.headers\<close>, with its key and value ended by a zero byte in place. The booleans are the results of \<open>ngx_list_push\<close> and
  \<open>ngx_pnalloc\<close>, in the order of the calls; no result left is a failure. Header handlers are taken to return \<open>NGX_OK\<close>.
\<close>

record ngx_table_elt =
  hash :: "64 word"
  key_len :: nat
  key_data :: int
  value_len :: nat
  value_data :: int
  lowcase_key :: "byte list"

definition ngx_tolower :: "byte \<Rightarrow> byte" where
  "ngx_tolower c = (if chr CHR ''A'' \<le> c \<and> c \<le> chr CHR ''Z'' then or c 0x20 else c)"

definition ngx_hash_key :: "byte list \<Rightarrow> 64 word" where
  "ngx_hash_key data = foldl ngx_hash 0 data"

definition ngx_strlow :: "mem \<Rightarrow> int \<Rightarrow> nat \<Rightarrow> byte list option" where
  "ngx_strlow mem src n = map_option (map ngx_tolower) (mem_load mem src n)"

definition store_nul :: "mem \<Rightarrow> int \<Rightarrow> mem option" where
  "store_nul mem a = (if mem a = None then None else Some (mem(a \<mapsto> 0)))"

definition set_key_value :: "mem \<Rightarrow> ngx_headers \<Rightarrow> (mem \<times> ngx_table_elt) option" where
  "set_key_value mem r =
     (let key_len = nat (header_name_end r - header_name_start r); value_len = nat (header_end r - header_start r) in do {
        mem \<leftarrow> store_nul mem (header_name_start r + int key_len);
        mem \<leftarrow> store_nul mem (header_start r + int value_len);
        Some (mem, \<lparr>hash = header_hash r, key_len = key_len, key_data = header_name_start r, value_len = value_len,
          value_data = header_start r, lowcase_key = []\<rparr>)
      })"

definition set_lowcase_key :: "mem \<Rightarrow> ngx_headers \<Rightarrow> ngx_table_elt \<Rightarrow> ngx_table_elt option" where
  "set_lowcase_key mem r h = do {
     low \<leftarrow> (if key_len h = lowcase_index r
       then if key_len h \<le> length (lowcase_header r) then Some (take (key_len h) (lowcase_header r)) else None
       else ngx_strlow mem (key_data h) (key_len h));
     Some (h\<lparr>lowcase_key := low\<rparr>)
   }"

definition alloc_ok :: "nat \<Rightarrow> bool list \<Rightarrow> bool" where
  "alloc_ok i allocs \<longleftrightarrow> i < length allocs \<and> allocs ! i"

datatype headers_rc = Headers_done | Headers_again | Headers_bad_request | Headers_internal_error

partial_function (option) ngx_http_process_request_headers ::
  "bool \<Rightarrow> bool \<Rightarrow> int \<Rightarrow> mem \<Rightarrow> ngx_headers \<Rightarrow> int \<Rightarrow> bool list \<Rightarrow> ngx_table_elt list \<Rightarrow>
     (mem \<times> ngx_headers \<times> int \<times> ngx_table_elt list \<times> headers_rc) option" where
  "ngx_http_process_request_headers underscores_in_headers ignore_invalid_headers lst mem r pos allocs headers = do {
     (r, pos, rc) \<leftarrow> ngx_http_parse_header_line mem underscores_in_headers r pos lst;
     if rc = NGX_OK then
       let r = r\<lparr>request_length := request_length r + (pos - header_name_start r)\<rparr> in
       if invalid_header r \<and> ignore_invalid_headers then
         ngx_http_process_request_headers underscores_in_headers ignore_invalid_headers lst mem r pos allocs headers
       else if \<not> alloc_ok 0 allocs then Some (mem, r, pos, headers, Headers_internal_error)
       else do {
         (mem, h) \<leftarrow> set_key_value mem r;
         if \<not> alloc_ok 1 allocs then Some (mem, r, pos, headers @ [h], Headers_internal_error)
         else do {
           h \<leftarrow> set_lowcase_key mem r h;
           ngx_http_process_request_headers underscores_in_headers ignore_invalid_headers lst mem r pos (drop 2 allocs) (headers @ [h])
         }
       }
     else if rc = NGX_HTTP_PARSE_HEADER_DONE then
       Some (mem, r\<lparr>request_length := request_length r + (pos - header_name_start r)\<rparr>, pos, headers, Headers_done)
     else if rc = NGX_AGAIN then Some (mem, r, pos, headers, Headers_again)
     else Some (mem, r, pos, headers, Headers_bad_request)
   }"

declare hl_scan.simps [code] ngx_http_process_request_headers.simps [code]

end
