(* ===== verification/NgxHeaderProps.thy ===== *)
theory NgxHeaderProps
  imports NgxHeaderLine
begin

text \<open>
  The header line parser: its loop as a scanner, its runs on the name and on the value of a header, and the headers that a block of
  header lines leaves in the request.
\<close>

section \<open>The loop as a scanner\<close>

interpretation hl: scanner "hl_step mem allow" "hl_scan mem allow" "\<lambda>_. 0" for mem allow
proof
  fix lst s p
  show "hl_scan mem allow lst s p = (if p < lst then do {
      x \<leftarrow> hl_step mem allow s p;
      case x of Inl (s', p') \<Rightarrow> hl_scan mem allow lst s' p' | Inr r \<Rightarrow> Some (Inr r)
    } else Some (Inl (s, p)))"
    by (rule hl_scan.simps)
next
  fix s p s' p'
  assume "hl_step mem allow s p = Some (Inl (s', p'))"
  then show "p' = p + 1 \<or> p' = p \<and> (0::nat) < 0"
    by (auto simp: hl_step_def split: bind_splits hl_round.splits)
qed

section \<open>Names\<close>

definition name_char :: "bool \<Rightarrow> byte \<Rightarrow> bool" where
  "name_char allow c \<longleftrightarrow> lowcase c \<noteq> 0 \<or> allow \<and> c = chr CHR ''_''"

lemma length_lowcase_tab: "length lowcase_tab = 256"
  by (simp add: lowcase_tab_def)

lemma lowcase_all:
  assumes "list_all (\<lambda>(n, l). P (of_nat n) l) (List.enumerate 0 lowcase_tab)"
  shows "P (c :: byte) (lowcase c)"
proof -
  have "unat c < 256" using unsigned_less [of c] by simp
  moreover from this have "(unat c, lowcase c) \<in> set (List.enumerate 0 lowcase_tab)"
    by (simp add: in_set_enumerate_eq lowcase_def length_lowcase_tab)
  ultimately show ?thesis using assms by (fastforce simp: list_all_iff)
qed

lemma enumerate_zeros: "list_all (\<lambda>(n, l). l \<noteq> 0 \<longrightarrow> P n l) (List.enumerate i (replicate k 0))"
  by (auto simp: list_all_iff in_set_enumerate_eq)

lemma lowcase_table: "lowcase c \<noteq> 0 \<longrightarrow> ngx_tolower c = lowcase c \<and> c \<noteq> 10 \<and> c \<noteq> 13"
  by (rule lowcase_all)
    (simp add: lowcase_tab_def enumerate_append_eq enumerate_zeros upt_rec_numeral ngx_tolower_def word_le_nat_alt)

lemma underscore_table: "lowcase (chr CHR ''_'') = 0" "ngx_tolower (chr CHR ''_'') = chr CHR ''_''"
  by code_simp+

lemma colon_table: "lowcase (chr CHR '':'') = 0"
  by code_simp

fun puts :: "nat \<Rightarrow> byte list \<Rightarrow> byte list \<Rightarrow> byte list" where
  "puts i lc [] = lc"
| "puts i lc (c # cs) = puts ((i + 1) mod NGX_HTTP_LC_HEADER_LEN) (lc[i := c]) cs"

lemma length_puts [simp]: "length (puts i lc cs) = length lc"
  by (induction i lc cs rule: puts.induct) simp_all

lemma puts_prefix: "i + length cs < NGX_HTTP_LC_HEADER_LEN \<Longrightarrow> length lc = NGX_HTTP_LC_HEADER_LEN \<Longrightarrow>
    take (i + length cs) (puts i lc cs) = take i lc @ cs"
proof (induction i lc cs rule: puts.induct)
  case (2 i lc c cs)
  then have "(i + 1) mod NGX_HTTP_LC_HEADER_LEN = Suc i" by simp
  then show ?case using 2 by (simp add: take_Suc_conv_app_nth)
qed simp

definition named :: "byte list \<Rightarrow> hl_vars \<Rightarrow> hl_vars" where
  "named cs v = v\<lparr>v_state := sw_name, v_hash := foldl ngx_hash (v_hash v) (map ngx_tolower cs),
     v_i := (v_i v + length cs) mod NGX_HTTP_LC_HEADER_LEN,
     v_req := (v_req v)\<lparr>lowcase_header := puts (v_i v) (lowcase_header (v_req v)) (map ngx_tolower cs)\<rparr>\<rparr>"

lemma named_Cons: "named (c # cs) v = named cs (named [c] v)"
  by (simp add: named_def mod_simps ac_simps)

lemma put_lowcase_ok: "v_i v < length (lowcase_header (v_req v)) \<Longrightarrow> v_state v = sw_name \<Longrightarrow>
    put_lowcase v (ngx_tolower c) = Some (named [c] v)"
  by (simp add: put_lowcase_def named_def)

definition vars_ok :: "hl_vars \<Rightarrow> bool" where
  "vars_ok v \<longleftrightarrow> v_i v < NGX_HTTP_LC_HEADER_LEN \<and> length (lowcase_header (v_req v)) = NGX_HTTP_LC_HEADER_LEN"

lemma named_ok: "vars_ok v \<Longrightarrow> vars_ok (named cs v)"
  by (simp add: vars_ok_def named_def NGX_HTTP_LC_HEADER_LEN_def)

lemma name_step:
  assumes "name_char allow c" "mem p = Some c" "vars_ok v" "v_state v = sw_name"
  shows "hl_step mem allow v p = Some (Inl (named [c] v, p + 1))"
proof -
  have put: "put_lowcase v (ngx_tolower c) = Some (named [c] v)" using assms by (intro put_lowcase_ok) (simp_all add: vars_ok_def)
  show ?thesis
  proof (cases "lowcase c = 0")
    case True
    then show ?thesis using assms put underscore_table by (simp add: hl_step_def hl_switch_def hl_name_def name_char_def)
  next
    case False
    then show ?thesis using assms put lowcase_table [of c] by (simp add: hl_step_def hl_switch_def hl_name_def)
  qed
qed

lemma name_run:
  "bytes_at mem p cs \<Longrightarrow> list_all (name_char allow) cs \<Longrightarrow> vars_ok v \<Longrightarrow> v_state v = sw_name \<Longrightarrow> p + int (length cs) \<le> lst \<Longrightarrow>
     hl_scan mem allow lst v p = hl_scan mem allow lst (named cs v) (p + int (length cs))"
proof (induction cs arbitrary: p v)
  case Nil
  then have "named [] v = v" by (cases v) (simp add: named_def vars_ok_def)
  then show ?case by simp
next
  case (Cons c cs)
  have "hl_scan mem allow lst v p = hl_scan mem allow lst (named [c] v) (p + 1)"
    using Cons.prems by (intro hl.scan_go name_step) simp_all
  also have "\<dots> = hl_scan mem allow lst (named cs (named [c] v)) (p + 1 + int (length cs))"
    using Cons.prems by (intro Cons.IH named_ok) (simp_all add: named_def)
  finally show ?case by (simp only: named_Cons [of c cs] length_Cons) (simp add: algebra_simps)
qed

lemma start_step:
  assumes "name_char allow c" "mem p = Some c" "length (lowcase_header (v_req v)) = NGX_HTTP_LC_HEADER_LEN" "v_state v = sw_start"
  shows "hl_step mem allow v p =
    Some (Inl (named [c] (v\<lparr>v_hash := 0, v_i := 0, v_req := (v_req v)\<lparr>header_name_start := p, invalid_header := False\<rparr>\<rparr>), p + 1))"
proof -
  let ?v = "v\<lparr>v_req := (v_req v)\<lparr>header_name_start := p, invalid_header := False\<rparr>, v_state := sw_name, v_hash := 0, v_i := 0\<rparr>"
  have put: "put_lowcase ?v (ngx_tolower c) = Some (named [c] ?v)"
    using assms(3) by (intro put_lowcase_ok) (simp_all add: NGX_HTTP_LC_HEADER_LEN_def)
  have n: "named [c] ?v = named [c] (v\<lparr>v_hash := 0, v_i := 0, v_req := (v_req v)\<lparr>header_name_start := p, invalid_header := False\<rparr>\<rparr>)"
    by (simp add: named_def)
  show ?thesis
  proof (cases "lowcase c = 0")
    case True
    then show ?thesis using assms put underscore_table n by (simp add: hl_step_def hl_switch_def hl_start_def name_char_def Let_def)
  next
    case False
    then show ?thesis using assms put lowcase_table [of c] n by (simp add: hl_step_def hl_switch_def hl_start_def Let_def)
  qed
qed

section \<open>Values\<close>

abbreviation SP :: byte where "SP \<equiv> chr CHR '' ''"

definition value_char :: "byte \<Rightarrow> bool" where
  "value_char c \<longleftrightarrow> c \<noteq> 0 \<and> c \<noteq> CR \<and> c \<noteq> LF"

definition value_ok :: "byte list \<Rightarrow> bool" where
  "value_ok bs \<longleftrightarrow> list_all value_char bs \<and> (bs \<noteq> [] \<longrightarrow> hd bs \<noteq> SP \<and> List.last bs \<noteq> SP)"

definition value_state :: "hl_state \<Rightarrow> byte list \<Rightarrow> hl_state" where
  "value_state st bs = (if bs = [] then st else if List.last bs = SP then sw_space_after_value else sw_value)"

lemma value_step:
  assumes "value_char c" "mem p = Some c" "v_state v \<in> {sw_value, sw_space_after_value}"
  shows "\<exists>e. hl_step mem allow v p =
    Some (Inl (v\<lparr>v_state := value_state sw_value [c], v_req := (v_req v)\<lparr>header_end := e\<rparr>\<rparr>, p + 1))"
proof -
  show ?thesis
  proof (cases "v_state v = sw_value \<and> c = SP")
    case True
    then show ?thesis using assms by (intro exI [of _ p]) (simp add: hl_step_def hl_switch_def hl_value_def value_state_def)
  next
    case False
    then show ?thesis using assms
      by (intro exI [of _ "header_end (v_req v)"], cases v)
        (auto simp: hl_step_def hl_switch_def hl_value_def hl_space_after_value_def value_state_def value_char_def)
  qed
qed

lemma value_run:
  "bytes_at mem p bs \<Longrightarrow> list_all value_char bs \<Longrightarrow> v_state v \<in> {sw_value, sw_space_after_value} \<Longrightarrow> p + int (length bs) \<le> lst \<Longrightarrow>
     \<exists>e. hl_scan mem allow lst v p =
       hl_scan mem allow lst (v\<lparr>v_state := value_state (v_state v) bs, v_req := (v_req v)\<lparr>header_end := e\<rparr>\<rparr>) (p + int (length bs))"
proof (induction bs arbitrary: p v)
  case Nil
  have "v = v\<lparr>v_state := value_state (v_state v) [], v_req := (v_req v)\<lparr>header_end := header_end (v_req v)\<rparr>\<rparr>"
    by (simp add: value_state_def)
  then show ?case by (intro exI [of _ "header_end (v_req v)"]) simp
next
  case (Cons c bs)
  obtain e where e: "hl_step mem allow v p =
      Some (Inl (v\<lparr>v_state := value_state sw_value [c], v_req := (v_req v)\<lparr>header_end := e\<rparr>\<rparr>, p + 1))" (is "_ = Some (Inl (?v, _))")
    using value_step [of c mem p v allow] Cons.prems by auto
  have "hl_scan mem allow lst v p = hl_scan mem allow lst ?v (p + 1)" using Cons.prems e by (intro hl.scan_go) simp_all
  moreover have "\<exists>e'. hl_scan mem allow lst ?v (p + 1) =
      hl_scan mem allow lst (?v\<lparr>v_state := value_state (v_state ?v) bs, v_req := (v_req ?v)\<lparr>header_end := e'\<rparr>\<rparr>) (p + 1 + int (length bs))"
    using Cons.prems by (intro Cons.IH) (simp_all add: value_state_def)
  moreover have "value_state (v_state ?v) bs = value_state (v_state v) (c # bs)" by (simp add: value_state_def)
  moreover have "p + 1 + int (length bs) = p + int (length (c # bs))" by simp
  ultimately show ?case by simp
qed

section \<open>A header line\<close>

definition header_bytes :: "byte list \<times> byte list \<Rightarrow> byte list" where
  "header_bytes h = fst h @ [chr CHR '':'', SP] @ snd h @ [CR, LF]"

definition header_ok :: "bool \<Rightarrow> byte list \<times> byte list \<Rightarrow> bool" where
  "header_ok allow h \<longleftrightarrow> fst h \<noteq> [] \<and> list_all (name_char allow) (fst h) \<and> value_ok (snd h)"

lemma line_end:
  assumes "bytes_at mem p [CR, LF]" "v_state v \<in> {sw_value, sw_space_before_value}" "p + 2 \<le> lst"
  shows "hl_scan mem allow lst v p = Some (Inr (NGX_OK, v\<lparr>v_state := sw_almost_done,
    v_req := (if v_state v = sw_value then (v_req v)\<lparr>header_end := p\<rparr> else (v_req v)\<lparr>header_start := p, header_end := p\<rparr>)\<rparr>, p + 1))"
    (is "_ = Some (Inr (_, ?v, _))")
proof -
  have "hl_scan mem allow lst v p = hl_scan mem allow lst ?v (p + 1)"
    using assms by (intro hl.scan_go) (auto simp: hl_step_def hl_switch_def hl_value_def hl_space_before_value_def)
  also have "\<dots> = Some (Inr (NGX_OK, ?v, p + 1))"
    using assms by (intro hl.scan_stop) (auto simp: hl_step_def hl_switch_def hl_almost_done_def)
  finally show ?thesis .
qed

lemma value_part:
  assumes "bytes_at mem p (bs @ [CR, LF])" "value_ok bs" "v_state v = sw_space_before_value" "p + int (length bs) + 2 \<le> lst"
  shows "hl_scan mem allow lst v p = Some (Inr (NGX_OK, v\<lparr>v_state := sw_almost_done,
    v_req := (v_req v)\<lparr>header_start := p, header_end := p + int (length bs)\<rparr>\<rparr>, p + int (length bs) + 1))"
proof (cases bs)
  case Nil
  then show ?thesis using assms line_end [of mem p v lst allow] by simp
next
  case (Cons c cs)
  let ?v = "v\<lparr>v_state := sw_value, v_req := (v_req v)\<lparr>header_start := p\<rparr>\<rparr>"
  have "hl_scan mem allow lst v p = hl_scan mem allow lst ?v (p + 1)"
    using assms Cons by (intro hl.scan_go)
      (auto simp: hl_step_def hl_switch_def hl_space_before_value_def value_ok_def value_char_def)
  moreover obtain e where "hl_scan mem allow lst ?v (p + 1) =
      hl_scan mem allow lst (?v\<lparr>v_state := value_state (v_state ?v) cs, v_req := (v_req ?v)\<lparr>header_end := e\<rparr>\<rparr>) (p + 1 + int (length cs))"
    using value_run [of mem "p + 1" cs ?v lst allow] assms Cons by (auto simp: bytes_at_append value_ok_def)
  moreover have "value_state (v_state ?v) cs = sw_value"
    using assms(2) Cons by (auto simp: value_state_def value_ok_def split: if_splits)
  moreover have "bytes_at mem (p + 1 + int (length cs)) [CR, LF]"
    using assms(1) Cons by (simp add: bytes_at_append algebra_simps)
  ultimately show ?thesis
    using line_end [of mem "p + 1 + int (length cs)" "?v\<lparr>v_req := (v_req ?v)\<lparr>header_end := e\<rparr>\<rparr>" lst allow] assms(4) Cons
    by (simp add: algebra_simps)
qed

definition line_req :: "int \<Rightarrow> byte list \<times> byte list \<Rightarrow> ngx_headers \<Rightarrow> ngx_headers" where
  "line_req p h r = (let n = map ngx_tolower (fst h); e = p + int (length (fst h)) in
     r\<lparr>hl_state := sw_start, header_hash := ngx_hash_key n, lowcase_index := length n mod NGX_HTTP_LC_HEADER_LEN,
       lowcase_header := puts 0 (lowcase_header r) n, header_name_start := p, header_name_end := e,
       header_start := e + 2, header_end := e + 2 + int (length (snd h)), invalid_header := False\<rparr>)"

lemma name_part:
  assumes "bytes_at mem p (n @ [chr CHR '':'', SP])" "n \<noteq> []" "list_all (name_char allow) n"
    and "length (lowcase_header (v_req v)) = NGX_HTTP_LC_HEADER_LEN" "v_state v = sw_start" "p + int (length n) + 2 \<le> lst"
  shows "hl_scan mem allow lst v p = hl_scan mem allow lst
    (let w = named n (v\<lparr>v_hash := 0, v_i := 0, v_req := (v_req v)\<lparr>header_name_start := p, invalid_header := False\<rparr>\<rparr>)
     in w\<lparr>v_state := sw_space_before_value, v_req := (v_req w)\<lparr>header_name_end := p + int (length n)\<rparr>\<rparr>) (p + int (length n) + 2)"
proof -
  let ?v = "v\<lparr>v_hash := 0, v_i := 0, v_req := (v_req v)\<lparr>header_name_start := p, invalid_header := False\<rparr>\<rparr>"
  let ?q = "p + int (length n)"
  let ?w = "named n ?v"
  let ?x = "?w\<lparr>v_state := sw_space_before_value, v_req := (v_req ?w)\<lparr>header_name_end := ?q\<rparr>\<rparr>"
  obtain c cs where n: "n = c # cs" using assms(2) by (cases n) auto
  have b: "bytes_at mem p n" "mem ?q = Some (chr CHR '':'')" "mem (?q + 1) = Some SP"
    using assms(1) unfolding bytes_at_append by simp_all
  have ok: "vars_ok ?v" using assms(4) by (simp add: vars_ok_def NGX_HTTP_LC_HEADER_LEN_def)
  have "hl_scan mem allow lst v p = hl_scan mem allow lst (named [c] ?v) (p + 1)"
    using assms b n by (intro hl.scan_go start_step) simp_all
  also have "\<dots> = hl_scan mem allow lst (named cs (named [c] ?v)) (p + 1 + int (length cs))"
    using assms b n by (intro name_run named_ok ok) (simp_all add: named_def)
  also have "\<dots> = hl_scan mem allow lst ?w ?q" by (simp only: n named_Cons [of c cs] length_Cons) (simp add: algebra_simps)
  also have "\<dots> = hl_scan mem allow lst ?x (?q + 1)"
    using assms(6) b(2) colon_table by (intro hl.scan_go) (simp_all add: hl_step_def hl_switch_def named_def hl_name_def)
  also have "\<dots> = hl_scan mem allow lst ?x (?q + 1 + 1)"
    using assms(6) b(3) by (intro hl.scan_go) (simp_all add: hl_step_def hl_switch_def hl_space_before_value_def)
  finally show ?thesis by (simp add: Let_def algebra_simps)
qed

lemma parse_line:
  assumes "bytes_at mem p (header_bytes h)" "header_ok allow h" "hl_state r = sw_start"
    and "length (lowcase_header r) = NGX_HTTP_LC_HEADER_LEN" "p + int (length (header_bytes h)) \<le> lst"
  shows "ngx_http_parse_header_line mem allow r p lst = Some (line_req p h r, p + int (length (header_bytes h)), NGX_OK)"
proof -
  obtain n v where h: "h = (n, v)" by (cases h)
  let ?s = "\<lparr>v_state = hl_state r, v_hash = header_hash r, v_i = lowcase_index r, v_req = r\<rparr>"
  let ?w = "named n (?s\<lparr>v_hash := 0, v_i := 0, v_req := r\<lparr>header_name_start := p, invalid_header := False\<rparr>\<rparr>)"
  let ?x = "?w\<lparr>v_state := sw_space_before_value, v_req := (v_req ?w)\<lparr>header_name_end := p + int (length n)\<rparr>\<rparr>"
  let ?q = "p + int (length n) + 2"
  have b: "bytes_at mem p (n @ [chr CHR '':'', SP])" "bytes_at mem ?q (v @ [CR, LF])"
    using assms(1) by (simp_all add: h header_bytes_def bytes_at_append algebra_simps)
  have "hl_scan mem allow lst ?s p = hl_scan mem allow lst ?x ?q"
    using name_part [OF b(1), of allow ?s lst] assms by (simp add: h header_ok_def header_bytes_def Let_def)
  also have "\<dots> = Some (Inr (NGX_OK, ?x\<lparr>v_state := sw_almost_done,
      v_req := (v_req ?x)\<lparr>header_start := ?q, header_end := ?q + int (length v)\<rparr>\<rparr>, ?q + int (length v) + 1))"
    using assms b(2) by (intro value_part) (simp_all add: h header_ok_def header_bytes_def)
  finally show ?thesis
    by (simp add: ngx_http_parse_header_line_def line_req_def named_def h header_bytes_def ngx_hash_key_def Let_def)
qed

lemma parse_end:
  assumes "bytes_at mem p [CR, LF]" "hl_state r = sw_start" "p + 2 \<le> lst"
  shows "ngx_http_parse_header_line mem allow r p lst =
    Some (r\<lparr>hl_state := sw_start, header_name_start := p, invalid_header := False, header_end := p\<rparr>, p + 2, NGX_HTTP_PARSE_HEADER_DONE)"
proof -
  let ?s = "\<lparr>v_state = hl_state r, v_hash = header_hash r, v_i = lowcase_index r, v_req = r\<rparr>"
  let ?x = "?s\<lparr>v_state := sw_header_almost_done, v_req := r\<lparr>header_name_start := p, invalid_header := False, header_end := p\<rparr>\<rparr>"
  have "hl_scan mem allow lst ?s p = hl_scan mem allow lst ?x (p + 1)"
    using assms by (intro hl.scan_go) (simp_all add: hl_step_def hl_switch_def hl_start_def Let_def)
  also have "\<dots> = Some (Inr (NGX_HTTP_PARSE_HEADER_DONE, ?x, p + 1))"
    using assms by (intro hl.scan_stop) (simp_all add: hl_step_def hl_switch_def hl_header_almost_done_def)
  finally show ?thesis by (simp add: ngx_http_parse_header_line_def)
qed

section \<open>A block of header lines\<close>

definition elt_is :: "mem \<Rightarrow> byte list \<times> byte list \<Rightarrow> ngx_table_elt \<Rightarrow> bool" where
  "elt_is mem h e \<longleftrightarrow> key_len e = length (fst h) \<and> bytes_at mem (key_data e) (fst h @ [0])
     \<and> value_len e = length (snd h) \<and> bytes_at mem (value_data e) (snd h @ [0])
     \<and> lowcase_key e = map ngx_tolower (fst h) \<and> hash e = ngx_hash_key (map ngx_tolower (fst h))"

lemma bytes_at_cong: "bytes_at mem p bs \<Longrightarrow> (\<And>x. p \<le> x \<Longrightarrow> x < p + int (length bs) \<Longrightarrow> mem' x = mem x) \<Longrightarrow> bytes_at mem' p bs"
  by (rule bytes_atI) (simp add: bytes_at_nth)

lemma bytes_at_load: "bytes_at mem p bs \<Longrightarrow> mem_load mem p (length bs) = Some bs"
  by (induction bs arbitrary: p) simp_all

definition line_mem :: "mem \<Rightarrow> int \<Rightarrow> byte list \<times> byte list \<Rightarrow> mem" where
  "line_mem mem p h = mem(p + int (length (fst h)) \<mapsto> 0, p + int (length (fst h)) + 2 + int (length (snd h)) \<mapsto> 0)"

definition line_elt :: "int \<Rightarrow> byte list \<times> byte list \<Rightarrow> ngx_table_elt" where
  "line_elt p h = \<lparr>hash = ngx_hash_key (map ngx_tolower (fst h)), key_len = length (fst h), key_data = p, value_len = length (snd h),
     value_data = p + int (length (fst h)) + 2, lowcase_key = map ngx_tolower (fst h)\<rparr>"

lemma line_set_key_value:
  assumes "bytes_at mem p (header_bytes h)"
  shows "set_key_value mem (line_req p h r) = Some (line_mem mem p h, (line_elt p h)\<lparr>lowcase_key := []\<rparr>)"
  using assms
  by (simp add: set_key_value_def line_req_def Let_def store_nul_def line_mem_def line_elt_def header_bytes_def bytes_at_append algebra_simps)

lemma line_name_kept:
  assumes "bytes_at mem p (header_bytes h)"
  shows "bytes_at (line_mem mem p h) p (fst h @ [0])"
    and "bytes_at (line_mem mem p h) (p + int (length (fst h)) + 2) (snd h @ [0])"
proof -
  have b: "bytes_at mem p (fst h)" "bytes_at mem (p + int (length (fst h)) + 2) (snd h)"
    using assms by (simp_all add: header_bytes_def bytes_at_append algebra_simps)
  have "bytes_at (line_mem mem p h) p (fst h)" by (rule bytes_at_cong [OF b(1)]) (simp add: line_mem_def)
  then show "bytes_at (line_mem mem p h) p (fst h @ [0])" by (simp add: bytes_at_append line_mem_def)
  have "bytes_at (line_mem mem p h) (p + int (length (fst h)) + 2) (snd h)" by (rule bytes_at_cong [OF b(2)]) (simp add: line_mem_def)
  then show "bytes_at (line_mem mem p h) (p + int (length (fst h)) + 2) (snd h @ [0])" by (simp add: bytes_at_append line_mem_def)
qed

lemma line_set_lowcase_key:
  assumes "bytes_at mem p (header_bytes h)" "length (lowcase_header r) = NGX_HTTP_LC_HEADER_LEN"
  shows "set_lowcase_key (line_mem mem p h) (line_req p h r) ((line_elt p h)\<lparr>lowcase_key := []\<rparr>) = Some (line_elt p h)"
proof (cases "length (fst h) < NGX_HTTP_LC_HEADER_LEN")
  case True
  then have "take (length (fst h)) (puts 0 (lowcase_header r) (map ngx_tolower (fst h))) = map ngx_tolower (fst h)"
    using puts_prefix [of 0 "map ngx_tolower (fst h)" "lowcase_header r"] assms(2) by simp
  with True show ?thesis using assms(2) by (simp add: set_lowcase_key_def line_req_def Let_def line_elt_def)
next
  case False
  then have "length (fst h) \<noteq> length (fst h) mod NGX_HTTP_LC_HEADER_LEN"
    using mod_less_divisor [of NGX_HTTP_LC_HEADER_LEN "length (fst h)"] by (simp add: NGX_HTTP_LC_HEADER_LEN_def)
  moreover have "mem_load (line_mem mem p h) p (length (fst h)) = Some (fst h)"
    using line_name_kept(1) [OF assms(1)] by (intro bytes_at_load) (simp add: bytes_at_append)
  ultimately show ?thesis by (simp add: set_lowcase_key_def line_req_def Let_def line_elt_def ngx_strlow_def)
qed

lemma header_bytes_length: "int (length (header_bytes h)) = int (length (fst h)) + int (length (snd h)) + 4"
  by (simp add: header_bytes_def)

lemma line_elt_is:
  assumes "bytes_at mem p (header_bytes h)" "\<And>x. x < p + int (length (header_bytes h)) \<Longrightarrow> mem' x = line_mem mem p h x"
  shows "elt_is mem' h (line_elt p h)"
proof -
  have "bytes_at mem' p (fst h @ [0])"
    by (rule bytes_at_cong [OF line_name_kept(1) [OF assms(1)]]) (simp add: assms(2) header_bytes_length)
  moreover have "bytes_at mem' (p + int (length (fst h)) + 2) (snd h @ [0])"
    by (rule bytes_at_cong [OF line_name_kept(2) [OF assms(1)]]) (simp add: assms(2) header_bytes_length)
  ultimately show ?thesis by (simp add: elt_is_def line_elt_def)
qed

lemma line_mem_other: "x < p \<or> p + int (length (header_bytes h)) \<le> x \<Longrightarrow> line_mem mem p h x = mem x"
  by (auto simp: line_mem_def header_bytes_length)

lemma process_line:
  assumes "bytes_at mem p (header_bytes h)" "header_ok allow h" "hl_state r = sw_start"
    and "length (lowcase_header r) = NGX_HTTP_LC_HEADER_LEN" "p + int (length (header_bytes h)) \<le> lst" "alloc_ok 0 allocs" "alloc_ok 1 allocs"
  shows "ngx_http_process_request_headers allow ignore lst mem r p allocs hs =
    ngx_http_process_request_headers allow ignore lst (line_mem mem p h)
      ((line_req p h r)\<lparr>request_length := request_length r + int (length (header_bytes h))\<rparr>) (p + int (length (header_bytes h)))
      (drop 2 allocs) (hs @ [line_elt p h])"
proof -
  let ?r = "(line_req p h r)\<lparr>request_length := request_length r + int (length (header_bytes h))\<rparr>"
  have r: "?r = line_req p h (r\<lparr>request_length := request_length r + int (length (header_bytes h))\<rparr>)"
    by (simp add: line_req_def Let_def)
  have "request_length (line_req p h r) = request_length r" "header_name_start (line_req p h r) = p" "\<not> invalid_header (line_req p h r)"
    by (simp_all add: line_req_def Let_def)
  moreover have "set_key_value mem ?r = Some (line_mem mem p h, (line_elt p h)\<lparr>lowcase_key := []\<rparr>)"
    unfolding r by (rule line_set_key_value [OF assms(1)])
  moreover have "set_lowcase_key (line_mem mem p h) ?r ((line_elt p h)\<lparr>lowcase_key := []\<rparr>) = Some (line_elt p h)"
    unfolding r by (rule line_set_lowcase_key) (simp_all add: assms)
  ultimately show ?thesis
    using assms(6,7) by (subst ngx_http_process_request_headers.simps) (simp add: parse_line [OF assms(1-5)] Let_def)
qed

lemma alloc_ok_drop: "alloc_ok i (drop n allocs) \<longleftrightarrow> alloc_ok (n + i) allocs"
  by (auto simp: alloc_ok_def)

lemma process_block:
  assumes "bytes_at mem p (concat (map header_bytes hs) @ [CR, LF])" "list_all (header_ok allow) hs" "hl_state r = sw_start"
    and "length (lowcase_header r) = NGX_HTTP_LC_HEADER_LEN" "p + int (length (concat (map header_bytes hs))) + 2 \<le> lst"
    and "\<And>i. i < 2 * length hs \<Longrightarrow> alloc_ok i allocs"
  shows "\<exists>mem' r' es. ngx_http_process_request_headers allow ignore lst mem r p allocs acc =
      Some (mem', r', p + int (length (concat (map header_bytes hs))) + 2, acc @ es, Headers_done)
    \<and> list_all2 (elt_is mem') hs es \<and> request_length r' = request_length r + int (length (concat (map header_bytes hs))) + 2
    \<and> (\<forall>x < p. mem' x = mem x)"
  using assms
proof (induction hs arbitrary: mem p r allocs acc)
  case Nil
  then show ?case
    by (subst ngx_http_process_request_headers.simps) (simp add: parse_end Let_def)
next
  case (Cons h hs)
  let ?n = "int (length (header_bytes h))" and ?m = "int (length (concat (map header_bytes hs)))"
  let ?mem = "line_mem mem p h" and ?r = "(line_req p h r)\<lparr>request_length := request_length r + int (length (header_bytes h))\<rparr>"
  have b: "bytes_at mem p (header_bytes h)" "bytes_at mem (p + ?n) (concat (map header_bytes hs) @ [CR, LF])"
    using Cons.prems(1) by (simp_all add: bytes_at_append add.assoc)
  have step: "ngx_http_process_request_headers allow ignore lst mem r p allocs acc =
      ngx_http_process_request_headers allow ignore lst ?mem ?r (p + ?n) (drop 2 allocs) (acc @ [line_elt p h])"
    using Cons.prems b(1) by (intro process_line) simp_all
  have "\<exists>mem' r' es. ngx_http_process_request_headers allow ignore lst ?mem ?r (p + ?n) (drop 2 allocs) (acc @ [line_elt p h]) =
      Some (mem', r', p + ?n + ?m + 2, (acc @ [line_elt p h]) @ es, Headers_done)
    \<and> list_all2 (elt_is mem') hs es \<and> request_length r' = request_length ?r + ?m + 2 \<and> (\<forall>x < p + ?n. mem' x = ?mem x)"
    using Cons.prems bytes_at_cong [OF b(2), of ?mem]
    by (intro Cons.IH) (simp_all add: line_mem_other alloc_ok_drop line_req_def Let_def)
  then obtain mem' r' es where s: "ngx_http_process_request_headers allow ignore lst ?mem ?r (p + ?n) (drop 2 allocs) (acc @ [line_elt p h]) =
      Some (mem', r', p + ?n + ?m + 2, (acc @ [line_elt p h]) @ es, Headers_done)"
    "list_all2 (elt_is mem') hs es" "request_length r' = request_length r + ?n + ?m + 2" "\<forall>x < p + ?n. mem' x = ?mem x" by auto
  have "elt_is mem' h (line_elt p h)" using s(4) by (intro line_elt_is [OF b(1)]) simp
  moreover have "\<forall>x < p. mem' x = mem x" using s(4) by (simp add: line_mem_other)
  ultimately show ?case
    using s(1-3) step by (intro exI [of _ mem'] exI [of _ r'] exI [of _ "line_elt p h # es"]) (simp add: algebra_simps)
qed


section \<open>Examples\<close>

definition req0 :: ngx_headers where
  "req0 = \<lparr>hl_state = sw_start, header_hash = 7, lowcase_index = 5, lowcase_header = replicate 32 0, header_name_start = 0,
     header_name_end = 0, header_start = 0, header_end = 0, invalid_header = True, upstream = False, request_length = 0\<rparr>"

definition headers0 :: "(byte list \<times> byte list) list" where
  "headers0 = [(map chr ''Host'', map chr ''a b''), (map chr ''X-Y'', [])]"


text \<open>
  A name whose first byte is invalid does not reset the hash and the index left by the line before. With \<open>ignore_invalid_headers off\<close>
  the line \<open>!ost: x\<close> after a line with the name \<open>h\<close> is entered with the lower case key \<open>host\<close> and its hash.
\<close>

lemma invalid_first_byte_keeps_name:
  "case ngx_http_process_request_headers False False 130 (mem_store Map.empty 100 (map chr ''h: a'' @ [LF] @ map chr ''!ost: x'' @ [LF, LF]))
      req0 100 [True, True, True, True] [] of
     Some (mem', r', pos, [e1, e2], rc) \<Rightarrow> rc = Headers_done \<and> slice mem' (key_data e2) (key_data e2 + int (key_len e2)) = map chr ''!ost''
       \<and> lowcase_key e2 = map chr ''host'' \<and> hash e2 = ngx_hash_key (map chr ''host'')
   | _ \<Rightarrow> False"
  by code_simp

end
