(* ===== verification/NgxChunked.thy ===== *)
theory NgxChunked
  imports Scanner
begin

text \<open>
  Chunked transfer coding in nginx: the parser \<open>ngx_http_parse_chunked\<close> of \<^verbatim>\<open>nginx/src/http/ngx_http_parse.c\<close>, the filter
  \<open>ngx_http_request_body_chunked_filter\<close> of \<^verbatim>\<open>ngx_http_request_body.c\<close> that takes the data out of the buffers of a request
  body, and the filter \<open>ngx_http_chunked_body_filter\<close> of \<^verbatim>\<open>modules/ngx_http_chunked_filter_module.c\<close> that codes a
  response. Arithmetic on \<open>off_t\<close> is checked: a result \<open>None\<close> is a signed overflow or a load outside of memory.
\<close>

section \<open>Parser\<close>

datatype ck_state = sw_chunk_start | sw_chunk_size | sw_chunk_extension | sw_chunk_extension_almost_done | sw_chunk_data
  | sw_after_data | sw_after_data_almost_done | sw_last_chunk_extension | sw_last_chunk_extension_almost_done
  | sw_trailer | sw_trailer_almost_done | sw_trailer_header | sw_trailer_header_almost_done

datatype ck_rc = CK_OK | CK_AGAIN | CK_DONE | CK_ERROR

record ngx_http_chunked =
  ck_state :: ck_state
  ck_size :: int
  ck_length :: int

definition NGX_MAX_OFF_T_VALUE :: int where
  "NGX_MAX_OFF_T_VALUE = 2 ^ 63 - 1"

definition off_t :: "int \<Rightarrow> int option" where
  "off_t v = (if - (2 ^ 63) \<le> v \<and> v < 2 ^ 63 then Some v else None)"

datatype ck_round = Next ck_state int | To_data | To_done | To_invalid

definition hex_val :: "byte \<Rightarrow> int option" where
  "hex_val ch =
     (if chr CHR ''0'' \<le> ch \<and> ch \<le> chr CHR ''9'' then Some (uint ch - 48)
      else let c = ch OR 0x20 in
        if chr CHR ''a'' \<le> c \<and> c \<le> chr CHR ''f'' then Some (uint c - 97 + 10) else None)"

definition do_chunk_start :: "int \<Rightarrow> byte \<Rightarrow> ck_round" where
  "do_chunk_start sz ch = (case hex_val ch of Some v \<Rightarrow> Next sw_chunk_size v | None \<Rightarrow> To_invalid)"

text \<open>The end of a line with the size: \<open>cr\<close> and \<open>lf\<close> are the states after CR and LF, \<open>ext\<close> that of an extension.\<close>

definition size_end :: "ck_state \<Rightarrow> ck_state \<Rightarrow> ck_state \<Rightarrow> int \<Rightarrow> byte \<Rightarrow> ck_round" where
  "size_end cr lf ext sz ch =
     (if ch = CR then Next cr sz else if ch = LF then Next lf sz
      else if ch = chr CHR '';'' \<or> ch = chr CHR '' '' \<or> ch = 9 then Next ext sz else To_invalid)"

definition do_chunk_size :: "int \<Rightarrow> byte \<Rightarrow> ck_round option" where
  "do_chunk_size sz ch =
     (if sz > NGX_MAX_OFF_T_VALUE div 16 then Some To_invalid
      else (case hex_val ch of
          Some v \<Rightarrow> do { sz \<leftarrow> off_t (sz * 16 + v); Some (Next sw_chunk_size sz) }
        | None \<Rightarrow>
            Some (if sz = 0 then size_end sw_last_chunk_extension_almost_done sw_trailer sw_last_chunk_extension sz ch
              else size_end sw_chunk_extension_almost_done sw_chunk_data sw_chunk_extension sz ch)))"

text \<open>Skipping to the end of a line, and the LF after a CR.\<close>

definition skip_line :: "ck_state \<Rightarrow> ck_state \<Rightarrow> ck_state \<Rightarrow> int \<Rightarrow> byte \<Rightarrow> ck_round" where
  "skip_line st cr lf sz ch = Next (if ch = CR then cr else if ch = LF then lf else st) sz"

definition only_lf :: "ck_round \<Rightarrow> byte \<Rightarrow> ck_round" where
  "only_lf x ch = (if ch = LF then x else To_invalid)"

definition ck_switch :: "ck_state \<Rightarrow> int \<Rightarrow> byte \<Rightarrow> ck_round option" where
  "ck_switch st sz ch =
     (case st of
        sw_chunk_start \<Rightarrow> Some (do_chunk_start sz ch)
      | sw_chunk_size \<Rightarrow> do_chunk_size sz ch
      | sw_chunk_extension \<Rightarrow> Some (skip_line sw_chunk_extension sw_chunk_extension_almost_done sw_chunk_data sz ch)
      | sw_chunk_extension_almost_done \<Rightarrow> Some (only_lf (Next sw_chunk_data sz) ch)
      | sw_chunk_data \<Rightarrow> Some To_data
      | sw_after_data \<Rightarrow> Some (skip_line sw_after_data sw_after_data_almost_done sw_chunk_start sz ch)
      | sw_after_data_almost_done \<Rightarrow> Some (only_lf (Next sw_chunk_start sz) ch)
      | sw_last_chunk_extension \<Rightarrow> Some (skip_line sw_last_chunk_extension sw_last_chunk_extension_almost_done sw_trailer sz ch)
      | sw_last_chunk_extension_almost_done \<Rightarrow> Some (only_lf (Next sw_trailer sz) ch)
      | sw_trailer \<Rightarrow> Some (if ch = CR then Next sw_trailer_almost_done sz else if ch = LF then To_done else Next sw_trailer_header sz)
      | sw_trailer_almost_done \<Rightarrow> Some (only_lf To_done ch)
      | sw_trailer_header \<Rightarrow> Some (skip_line sw_trailer_header sw_trailer_header_almost_done sw_trailer sz ch)
      | sw_trailer_header_almost_done \<Rightarrow> Some (only_lf (Next sw_trailer sz) ch))"

datatype ck_exit = At_data int int | At_done int int | Invalid int

definition ck_step :: "mem \<Rightarrow> ck_state \<times> int \<Rightarrow> int \<Rightarrow> ((ck_state \<times> int) \<times> int + ck_exit) option" where
  "ck_step mem s p = do {
     ch \<leftarrow> mem p;
     x \<leftarrow> ck_switch (fst s) (snd s) ch;
     Some (case x of
         Next st sz \<Rightarrow> Inl ((st, sz), p + 1)
       | To_data \<Rightarrow> Inr (At_data (snd s) p)
       | To_done \<Rightarrow> Inr (At_done (snd s) p)
       | To_invalid \<Rightarrow> Inr (Invalid (snd s)))
   }"

partial_function (option) ck_scan :: "mem \<Rightarrow> int \<Rightarrow> ck_state \<times> int \<Rightarrow> int \<Rightarrow> ((ck_state \<times> int) \<times> int + ck_exit) option" where
  "ck_scan mem lst s p =
     (if p < lst then do {
        x \<leftarrow> ck_step mem s p;
        case x of Inl (s', p') \<Rightarrow> ck_scan mem lst s' p' | Inr r \<Rightarrow> Some (Inr r)
      } else Some (Inl (s, p)))"

text \<open>The least number of bytes to come.\<close>

definition min_length :: "ck_state \<Rightarrow> int \<Rightarrow> int" where
  "min_length st sz =
     (case st of
        sw_chunk_start \<Rightarrow> 3
      | sw_chunk_size \<Rightarrow> 1 + (if sz \<noteq> 0 then sz + 4 else 1)
      | sw_chunk_extension \<Rightarrow> 1 + sz + 4
      | sw_chunk_extension_almost_done \<Rightarrow> 1 + sz + 4
      | sw_chunk_data \<Rightarrow> sz + 4
      | sw_after_data \<Rightarrow> 4
      | sw_after_data_almost_done \<Rightarrow> 4
      | sw_last_chunk_extension \<Rightarrow> 2
      | sw_last_chunk_extension_almost_done \<Rightarrow> 2
      | sw_trailer \<Rightarrow> 1
      | sw_trailer_almost_done \<Rightarrow> 1
      | sw_trailer_header \<Rightarrow> 2
      | sw_trailer_header_almost_done \<Rightarrow> 2)"

text \<open>The label \<open>data\<close>.\<close>

definition ck_data :: "ngx_http_chunked \<Rightarrow> ck_state \<Rightarrow> int \<Rightarrow> int \<Rightarrow> ck_rc \<Rightarrow> (ngx_http_chunked \<times> int \<times> ck_rc) option" where
  "ck_data ctx st sz pos rc =
     (let ctx = ctx\<lparr>ck_state := st, ck_size := sz\<rparr> in
      if sz > NGX_MAX_OFF_T_VALUE - 5 then Some (ctx, pos, CK_ERROR)
      else do { n \<leftarrow> off_t (min_length st sz); Some (ctx\<lparr>ck_length := n\<rparr>, pos, rc) })"

text \<open>The arguments are the memory, \<open>ctx\<close>, \<open>b->pos\<close> and \<open>b->last\<close>; the results are \<open>ctx\<close>, \<open>b->pos\<close> and the return value.\<close>

definition ngx_http_parse_chunked :: "mem \<Rightarrow> ngx_http_chunked \<Rightarrow> int \<Rightarrow> int \<Rightarrow> (ngx_http_chunked \<times> int \<times> ck_rc) option" where
  "ngx_http_parse_chunked mem ctx pos lst = do {
     let st = (if ck_state ctx = sw_chunk_data \<and> ck_size ctx = 0 then sw_after_data else ck_state ctx);
     x \<leftarrow> ck_scan mem lst (st, ck_size ctx) pos;
     case x of
       Inl ((st, sz), p) \<Rightarrow> ck_data ctx st sz p CK_AGAIN
     | Inr (At_data sz p) \<Rightarrow> ck_data ctx sw_chunk_data sz p CK_OK
     | Inr (At_done sz p) \<Rightarrow> Some (ctx\<lparr>ck_state := sw_chunk_start, ck_size := sz\<rparr>, p + 1, CK_DONE)
     | Inr (Invalid sz) \<Rightarrow> Some (ctx\<lparr>ck_size := sz\<rparr>, pos, CK_ERROR)
   }"

section \<open>Request body\<close>

text \<open>
  The part of \<open>r->request_body\<close> and \<open>r->headers_in\<close> that the filter uses, and the results of the allocations to come. An output
  buffer is a part of an input buffer, or the empty one with \<open>last_buf\<close>.
\<close>

record request_body =
  rb_rest :: int
  rb_chunked :: ngx_http_chunked
  content_length_n :: int
  pool :: "bool list"

datatype out_buf = Part int int | Last_buf

datatype body_rc = BODY_OK | HTTP_BAD_REQUEST | HTTP_REQUEST_ENTITY_TOO_LARGE | HTTP_INTERNAL_SERVER_ERROR

definition palloc :: "request_body \<Rightarrow> bool \<times> request_body" where
  "palloc rb = (case pool rb of [] \<Rightarrow> (False, rb) | ok # rest \<Rightarrow> (ok, rb\<lparr>pool := rest\<rparr>))"

text \<open>The inner loop, on one buffer from \<open>pos\<close> to \<open>lst\<close>; \<open>out\<close> is the chain built so far, and the results are its end and the position in the buffer. \<open>BODY_OK\<close> is the way to the call of the next filter with that chain.\<close>

partial_function (option) chunked_buf ::
  "int \<Rightarrow> mem \<Rightarrow> request_body \<Rightarrow> int \<Rightarrow> int \<Rightarrow> out_buf list \<Rightarrow> (request_body \<times> int \<times> out_buf list \<times> body_rc) option" where
  "chunked_buf max_size mem rb pos lst out = do {
     (ctx, pos, rc) \<leftarrow> ngx_http_parse_chunked mem (rb_chunked rb) pos lst;
     let rb = rb\<lparr>rb_chunked := ctx\<rparr>;
     (case rc of
        CK_OK \<Rightarrow> do {
          too_large \<leftarrow> (if max_size \<noteq> 0 then do { room \<leftarrow> off_t (max_size - content_length_n rb); Some (room < ck_size ctx) }
            else Some False);
          if too_large then Some (rb, pos, out, HTTP_REQUEST_ENTITY_TOO_LARGE)
          else
            (case palloc rb of (ok, rb) \<Rightarrow>
               if \<not> ok then Some (rb, pos, out, HTTP_INTERNAL_SERVER_ERROR)
               else do {
                 let sz = lst - pos;
                 if sz > ck_size ctx then do {
                   n \<leftarrow> off_t (content_length_n rb + ck_size ctx);
                   chunked_buf max_size mem (rb\<lparr>content_length_n := n, rb_chunked := ctx\<lparr>ck_size := 0\<rparr>\<rparr>) (pos + ck_size ctx) lst
                     (out @ [Part pos (pos + ck_size ctx)])
                 } else do {
                   n \<leftarrow> off_t (content_length_n rb + sz);
                   chunked_buf max_size mem (rb\<lparr>content_length_n := n, rb_chunked := ctx\<lparr>ck_size := ck_size ctx - sz\<rparr>\<rparr>) lst lst
                     (out @ [Part pos lst])
                 }
               })
        }
      | CK_DONE \<Rightarrow>
          let rb = rb\<lparr>rb_rest := 0\<rparr> in
          (case palloc rb of (ok, rb) \<Rightarrow>
             if \<not> ok then Some (rb, pos, out, HTTP_INTERNAL_SERVER_ERROR) else Some (rb, pos, out @ [Last_buf], BODY_OK))
      | CK_AGAIN \<Rightarrow> Some (rb\<lparr>rb_rest := ck_length ctx\<rparr>, pos, out, BODY_OK)
      | CK_ERROR \<Rightarrow> Some (rb, pos, out, HTTP_BAD_REQUEST))
   }"

text \<open>The outer loop over the chain of buffers; the results are the positions in the buffers as well.\<close>

fun chunked_chain ::
  "int \<Rightarrow> mem \<Rightarrow> request_body \<Rightarrow> (int \<times> int) list \<Rightarrow> out_buf list \<Rightarrow> (request_body \<times> int list \<times> out_buf list \<times> body_rc) option" where
  "chunked_chain max_size mem rb [] out = Some (rb, [], out, BODY_OK)"
| "chunked_chain max_size mem rb ((pos, lst) # bufs) out = do {
     (rb, pos, out, rc) \<leftarrow> chunked_buf max_size mem rb pos lst out;
     if rc = BODY_OK then do {
       (rb, ps, out, rc) \<leftarrow> chunked_chain max_size mem rb bufs out;
       Some (rb, pos # ps, out, rc)
     } else Some (rb, [pos], out, rc)
   }"

definition ngx_http_request_body_chunked_filter ::
  "int \<Rightarrow> mem \<Rightarrow> request_body \<Rightarrow> (int \<times> int) list \<Rightarrow> (request_body \<times> int list \<times> out_buf list \<times> body_rc) option" where
  "ngx_http_request_body_chunked_filter max_size mem rb bufs =
     (if rb_rest rb = -1 then
        (case palloc rb of (ok, rb) \<Rightarrow>
           if \<not> ok then Some (rb, [], [], HTTP_INTERNAL_SERVER_ERROR)
           else
             chunked_chain max_size mem (rb\<lparr>rb_chunked := \<lparr>ck_state = sw_chunk_start, ck_size = 0, ck_length = 0\<rparr>, content_length_n := 0, rb_rest := 3\<rparr>)
               bufs [])
      else chunked_chain max_size mem rb bufs [])"

section \<open>Response\<close>

text \<open>
  A buffer of a response: its flags, the bytes from \<open>pos\<close> to \<open>last\<close> and those of the file from \<open>file_pos\<close> to \<open>file_last\<close>.
\<close>

record body_buf =
  bb_flush :: bool
  bb_sync :: bool
  bb_in_memory :: bool
  bb_in_file :: bool
  bb_last_buf :: bool
  bb_mem :: "byte list"
  bb_file :: "byte list"

definition ngx_buf_size :: "body_buf \<Rightarrow> nat" where
  "ngx_buf_size b = (if bb_in_memory b then length (bb_mem b) else length (bb_file b))"

text \<open>What a buffer sends when it is passed on.\<close>

definition buf_bytes :: "body_buf \<Rightarrow> byte list" where
  "buf_bytes b = (if bb_in_memory b then bb_mem b else if bb_in_file b then bb_file b else [])"

definition passed :: "body_buf \<Rightarrow> bool" where
  "passed b \<longleftrightarrow> bb_flush b \<or> bb_sync b \<or> bb_in_memory b \<or> bb_in_file b"

definition hex_digit :: "nat \<Rightarrow> byte" where
  "hex_digit d = map chr ''0123456789abcdef'' ! d"

text \<open>\<open>%xO\<close> in \<open>ngx_sprintf\<close>: the digits from the last to the first.\<close>

fun sprintf_hex :: "nat \<Rightarrow> byte list" where
  "sprintf_hex n = (if n div 16 = 0 then [hex_digit (n mod 16)] else sprintf_hex (n div 16) @ [hex_digit (n mod 16)])"

declare sprintf_hex.simps [simp del]

text \<open>The trailer fields of the response with the test whether their \<open>hash\<close> is set.\<close>

type_synonym trailer = "bool \<times> byte list \<times> byte list"

text \<open>
  The results of allocations, in the order of the calls; no result left is a failure. A buffer from the list of free ones may have
  its \<open>start\<close> set.
\<close>

datatype alloc_result = No_memory | Start_null | Start_set

definition alloc :: "alloc_result list \<Rightarrow> (alloc_result \<times> alloc_result list) option" where
  "alloc allocs = (case allocs of [] \<Rightarrow> None | a # rest \<Rightarrow> if a = No_memory then None else Some (a, rest))"

definition ngx_http_chunked_create_trailers :: "trailer list \<Rightarrow> alloc_result list \<Rightarrow> (byte list \<times> alloc_result list) option" where
  "ngx_http_chunked_create_trailers trailers allocs =
     (let live = filter fst trailers;
          len = sum_list (map (\<lambda>(_, key, value). length key + 2 + length value + 2) live) in do {
        (_, allocs) \<leftarrow> alloc allocs;
        if len = 0 then Some ([CR, LF, chr CHR ''0'', CR, LF, CR, LF], allocs)
        else do {
          (_, allocs) \<leftarrow> alloc allocs;
          Some ([CR, LF, chr CHR ''0'', CR, LF] @
            concat (map (\<lambda>(_, key, value). key @ [chr CHR '':'', chr CHR '' ''] @ value @ [CR, LF]) live) @ [CR, LF], allocs)
        }
      })"

text \<open>The loop over the chain: the size of all buffers, and links to those that are passed on.\<close>

fun link_bufs :: "body_buf list \<Rightarrow> nat \<Rightarrow> byte list list \<Rightarrow> alloc_result list \<Rightarrow> (nat \<times> byte list list \<times> alloc_result list) option" where
  "link_bufs [] sz out allocs = Some (sz, out, allocs)"
| "link_bufs (b # bs) sz out allocs =
     (if passed b then do { (_, allocs) \<leftarrow> alloc allocs; link_bufs bs (sz + ngx_buf_size b) (out @ [buf_bytes b]) allocs }
      else link_bufs bs (sz + ngx_buf_size b) out allocs)"

text \<open>The result is what the buffers of the chain \<open>out\<close> send, in order; \<open>None\<close> is the return value \<open>NGX_ERROR\<close>.\<close>

definition ngx_http_chunked_body_filter ::
  "bool \<Rightarrow> bool \<Rightarrow> trailer list \<Rightarrow> body_buf list \<Rightarrow> alloc_result list \<Rightarrow> (byte list list \<times> alloc_result list) option" where
  "ngx_http_chunked_body_filter chunked header_only trailers chain allocs =
     (if chain = [] \<or> \<not> chunked \<or> header_only then Some (map buf_bytes chain, allocs)
      else do {
        (sz, out, allocs) \<leftarrow> link_bufs chain 0 [] allocs;
        (out, allocs) \<leftarrow> (if sz \<noteq> 0 then do {
            (b, allocs) \<leftarrow> alloc allocs;
            (_, allocs) \<leftarrow> (if b = Start_null then alloc allocs else Some (b, allocs));
            Some ((sprintf_hex sz @ [CR, LF]) # out, allocs)
          } else Some (out, allocs));
        if bb_last_buf (last chain) then do {
          (tl, allocs) \<leftarrow> ngx_http_chunked_create_trailers trailers allocs;
          Some (out @ [if sz = 0 then drop 2 tl else tl], allocs)
        }
        else if sz > 0 then do {
          (_, allocs) \<leftarrow> alloc allocs;
          Some (out @ [[CR, LF]], allocs)
        }
        else Some (out, allocs)
      })"

end
