(* ===== verification/NgxChunkedProps.thy ===== *)
theory NgxChunkedProps
  imports NgxChunked
begin

text \<open>
  Chunked transfer coding: the parser and the request body filter against a machine that takes one byte at a time, the
  least number of bytes to come, and the round trip with the response filter.
\<close>

section \<open>The loop of the parser as a scanner\<close>

interpretation ck: scanner "ck_step mem" "ck_scan mem" "\<lambda>_. 0" for mem
proof
  fix lst s p
  show "ck_scan mem lst s p = (if p < lst then do {
      x \<leftarrow> ck_step mem s p;
      case x of Inl (s', p') \<Rightarrow> ck_scan mem lst s' p' | Inr r \<Rightarrow> Some (Inr r)
    } else Some (Inl (s, p)))"
    by (rule ck_scan.simps)
next
  fix s p s' p'
  assume "ck_step mem s p = Some (Inl (s', p'))"
  then show "p' = p + 1 \<or> p' = p \<and> (0 :: nat) < 0"
    by (auto simp: ck_step_def split: bind_splits ck_round.splits)
qed

section \<open>Well-formed states\<close>

abbreviation max16 :: int where "max16 \<equiv> NGX_MAX_OFF_T_VALUE div 16"

lemma max16_eq: "max16 = 2 ^ 59 - 1"
  by (simp add: NGX_MAX_OFF_T_VALUE_def)

definition ck_wf :: "ck_state \<Rightarrow> int \<Rightarrow> bool" where
  "ck_wf st sz \<longleftrightarrow>
     (case st of
        sw_chunk_size \<Rightarrow> 0 \<le> sz \<and> sz \<le> NGX_MAX_OFF_T_VALUE
      | sw_chunk_extension \<Rightarrow> 0 < sz \<and> sz \<le> max16
      | sw_chunk_extension_almost_done \<Rightarrow> 0 < sz \<and> sz \<le> max16
      | sw_chunk_data \<Rightarrow> 0 < sz \<and> sz \<le> max16
      | _ \<Rightarrow> sz = 0)"

lemma hex_val_bounds: "hex_val ch = Some v \<Longrightarrow> 0 \<le> v \<and> v < 16"
proof -
  assume "hex_val ch = Some v"
  moreover have "48 \<le> ch \<Longrightarrow> 48 \<le> uint ch" "ch \<le> 57 \<Longrightarrow> uint ch \<le> 57" by (simp_all add: word_le_def)
  moreover have "97 \<le> ch OR 0x20 \<Longrightarrow> 97 \<le> uint (ch OR 0x20)" "ch OR 0x20 \<le> 102 \<Longrightarrow> uint (ch OR 0x20) \<le> 102" by (simp_all add: word_le_def)
  ultimately show "0 \<le> v \<and> v < 16" by (auto simp: hex_val_def Let_def split: if_splits)
qed

lemma do_chunk_size_ok:
  assumes "0 \<le> sz" "sz \<le> NGX_MAX_OFF_T_VALUE"
  shows "\<exists>x. do_chunk_size sz ch = Some x \<and> (case x of Next st' sz' \<Rightarrow> ck_wf st' sz' | To_data \<Rightarrow> False | To_done \<Rightarrow> False | To_invalid \<Rightarrow> True)"
proof (cases "sz > max16")
  case True
  then show ?thesis by (simp add: do_chunk_size_def)
next
  case False
  show ?thesis
  proof (cases "hex_val ch")
    case None
    then show ?thesis using False assms by (auto simp: do_chunk_size_def size_end_def ck_wf_def)
  next
    case (Some v)
    then have "0 \<le> v" "v < 16" using hex_val_bounds by auto
    then have "0 \<le> sz * 16 + v" "sz * 16 + v \<le> NGX_MAX_OFF_T_VALUE"
      using False assms by (auto simp: max16_eq) (auto simp: NGX_MAX_OFF_T_VALUE_def)
    then show ?thesis using False Some by (auto simp: do_chunk_size_def off_t_def ck_wf_def NGX_MAX_OFF_T_VALUE_def)
  qed
qed

lemma ck_switch_ok:
  assumes "ck_wf st sz" "st \<noteq> sw_chunk_data"
  shows "\<exists>x. ck_switch st sz ch = Some x \<and> (case x of Next st' sz' \<Rightarrow> ck_wf st' sz' | To_data \<Rightarrow> False | To_done \<Rightarrow> sz = 0 | To_invalid \<Rightarrow> True)"
proof -
  have start: "case do_chunk_start sz ch of Next st' sz' \<Rightarrow> ck_wf st' sz' | To_data \<Rightarrow> False | To_done \<Rightarrow> False | To_invalid \<Rightarrow> True"
    using hex_val_bounds [of ch] by (auto simp: do_chunk_start_def ck_wf_def NGX_MAX_OFF_T_VALUE_def split: option.splits)
  show ?thesis
    using assms start do_chunk_size_ok [of sz ch]
    by (cases st) (auto simp: ck_switch_def skip_line_def only_lf_def ck_wf_def split: ck_round.splits)
qed

section \<open>One byte at a time\<close>

text \<open>The machine: a state with the data so far, the complete data with the bytes after the body, or an invalid body.\<close>

datatype fed = Fed ck_state int "byte list" | Complete "byte list" "byte list" | Bad

fun feed :: "ck_state \<Rightarrow> int \<Rightarrow> byte list \<Rightarrow> byte list \<Rightarrow> fed" where
  "feed st sz [] body = Fed st sz body"
| "feed st sz (b # bs) body =
     (if st = sw_chunk_data then feed (if sz = 1 then sw_after_data else sw_chunk_data) (sz - 1) bs (body @ [b])
      else (case ck_switch st sz b of
          Some (Next st' sz') \<Rightarrow> feed st' sz' bs body
        | Some To_done \<Rightarrow> Complete body bs
        | _ \<Rightarrow> Bad))"

lemma feed_wf: "ck_wf st sz \<Longrightarrow> feed st sz bs body = Fed st' sz' body' \<Longrightarrow> ck_wf st' sz'"
proof (induction st sz bs body rule: feed.induct)
  case (2 st sz b bs body)
  show ?case
  proof (cases "st = sw_chunk_data")
    case True
    then have "ck_wf (if sz = 1 then sw_after_data else sw_chunk_data) (sz - 1)" using "2.prems"(1) by (auto simp: ck_wf_def)
    then show ?thesis using "2.IH"(1) "2.prems" True by simp
  next
    case False
    obtain x where x: "ck_switch st sz b = Some x"
      "case x of Next st' sz' \<Rightarrow> ck_wf st' sz' | To_data \<Rightarrow> False | To_done \<Rightarrow> sz = 0 | To_invalid \<Rightarrow> True"
      using ck_switch_ok [OF "2.prems"(1) False] by blast
    then show ?thesis using "2.IH"(2) [OF False x(1)] "2.prems"(2) False by (cases x) auto
  qed
qed simp

lemma feed_append:
  "feed st sz (bs @ cs) body =
     (case feed st sz bs body of
        Fed st' sz' body' \<Rightarrow> feed st' sz' cs body'
      | Complete body' rest \<Rightarrow> Complete body' (rest @ cs)
      | Bad \<Rightarrow> Bad)"
  by (induction st sz bs body rule: feed.induct) (auto split: option.splits ck_round.splits)

lemma feed_body:
  "feed st sz bs (body @ body') =
     (case feed st sz bs body' of
        Fed st' sz' b \<Rightarrow> Fed st' sz' (body @ b)
      | Complete b rest \<Rightarrow> Complete (body @ b) rest
      | Bad \<Rightarrow> Bad)"
  by (induction st sz bs body' rule: feed.induct) (auto split: option.splits ck_round.splits)

lemma feed_data:
  "0 < sz \<Longrightarrow> feed sw_chunk_data sz bs body =
     (if int (length bs) < sz then Fed sw_chunk_data (sz - int (length bs)) (body @ bs)
      else feed sw_after_data 0 (drop (nat sz) bs) (body @ take (nat sz) bs))"
proof (induction bs arbitrary: sz body)
  case (Cons b bs)
  show ?case
  proof (cases "sz = 1")
    case False
    then have "0 < sz - 1" "nat sz = Suc (nat (sz - 1))" using Cons.prems by simp_all
    then show ?thesis using Cons.IH [of "sz - 1" "body @ [b]"] False by (auto simp: Cons.prems)
  qed simp
qed simp

lemma feed_length:
  "case feed st sz bs body of
     Fed st' sz' b \<Rightarrow> length b \<le> length body + length bs
   | Complete b rest \<Rightarrow> length b + length rest \<le> length body + length bs
   | Bad \<Rightarrow> True"
proof (induction st sz bs body rule: feed.induct)
  case (2 st sz b bs body)
  show ?case
  proof (cases "st = sw_chunk_data")
    case True
    then show ?thesis using "2.IH"(1) by (cases "sz = 1") (auto split: fed.splits)
  next
    case False
    show ?thesis
    proof (cases "ck_switch st sz b")
      case (Some x)
      then show ?thesis using "2.IH"(2) [OF False Some] False by (cases x) (auto split: fed.splits)
    qed (use False in simp)
  qed
qed simp

lemma feed_rest: "feed st sz bs body = Complete body' rest \<Longrightarrow> \<exists>ds. bs = ds @ rest \<and> ds \<noteq> []"
proof (induction st sz bs body rule: feed.induct)
  case (2 st sz b bs body)
  then show ?case by (cases "st = sw_chunk_data") (fastforce split: option.splits ck_round.splits)+
qed simp

section \<open>The least number of bytes to come\<close>

lemma min_length_step:
  assumes "ck_wf st sz" "st \<noteq> sw_chunk_data" "ck_switch st sz ch = Some x"
  shows "case x of Next st' sz' \<Rightarrow> min_length st sz \<le> 1 + min_length st' sz' | To_done \<Rightarrow> min_length st sz = 1 | _ \<Rightarrow> True"
proof -
  have "hex_val ch = Some v \<Longrightarrow> 0 \<le> v" for v using hex_val_bounds by blast
  then show ?thesis using assms
    by (cases st) (auto simp: ck_switch_def do_chunk_start_def do_chunk_size_def off_t_def size_end_def skip_line_def only_lf_def
        ck_wf_def min_length_def split: option.splits if_splits)
qed

lemma feed_min_length:
  "ck_wf st sz \<Longrightarrow> feed st sz bs body = Complete body' rest \<Longrightarrow> min_length st sz \<le> int (length bs) - int (length rest)"
proof (induction st sz bs body rule: feed.induct)
  case (2 st sz b bs body)
  show ?case
  proof (cases "st = sw_chunk_data")
    case True
    then have "ck_wf (if sz = 1 then sw_after_data else sw_chunk_data) (sz - 1)" using "2.prems"(1) by (auto simp: ck_wf_def)
    then show ?thesis using "2.IH"(1) "2.prems"(2) True by (auto simp: min_length_def split: if_splits)
  next
    case False
    obtain x where x: "ck_switch st sz b = Some x"
      "case x of Next st' sz' \<Rightarrow> ck_wf st' sz' | To_data \<Rightarrow> False | To_done \<Rightarrow> sz = 0 | To_invalid \<Rightarrow> True"
      using ck_switch_ok [OF "2.prems"(1) False] by blast
    then show ?thesis using "2.IH"(2) [OF False x(1)] "2.prems"(2) False min_length_step [OF "2.prems"(1) False x(1)] by (cases x) auto
  qed
qed simp

text \<open>A continuation of that length.\<close>

definition last_bytes :: "ck_state \<Rightarrow> int \<Rightarrow> byte list" where
  "last_bytes st sz =
     (let data = replicate (nat sz) 0 @ [LF, chr CHR ''0'', LF, LF] in
      case st of
        sw_chunk_start \<Rightarrow> [chr CHR ''0'', LF, LF]
      | sw_chunk_size \<Rightarrow> LF # (if sz \<noteq> 0 then data else [LF])
      | sw_chunk_extension \<Rightarrow> LF # data
      | sw_chunk_extension_almost_done \<Rightarrow> LF # data
      | sw_chunk_data \<Rightarrow> data
      | sw_after_data \<Rightarrow> [LF, chr CHR ''0'', LF, LF]
      | sw_after_data_almost_done \<Rightarrow> [LF, chr CHR ''0'', LF, LF]
      | sw_trailer \<Rightarrow> [LF]
      | sw_trailer_almost_done \<Rightarrow> [LF]
      | _ \<Rightarrow> [LF, LF])"

lemma length_last_bytes: "ck_wf st sz \<Longrightarrow> int (length (last_bytes st sz)) = min_length st sz"
  by (cases st) (auto simp: last_bytes_def min_length_def ck_wf_def Let_def)

lemma feed_last_bytes:
  assumes "ck_wf st sz" "sz \<le> max16"
  shows "\<exists>body'. feed st sz (last_bytes st sz) body = Complete body' []"
proof -
  have hex: "hex_val 48 = Some 0" "hex_val LF = None" "(10::byte) \<noteq> 13" by (simp_all add: hex_val_def)
  have after: "feed sw_after_data 0 [LF, 48, LF, LF] b = Complete b []" for b
    using hex by (simp add: ck_switch_def skip_line_def do_chunk_start_def do_chunk_size_def size_end_def NGX_MAX_OFF_T_VALUE_def)
  have data: "0 < sz \<Longrightarrow> \<exists>body'. feed sw_chunk_data sz (replicate (nat sz) 0 @ [LF, 48, LF, LF]) body = Complete body' []"
    using after by (simp add: feed_data del: feed.simps)
  show ?thesis using assms data after hex
    by (cases st) (auto simp: last_bytes_def ck_wf_def ck_switch_def skip_line_def only_lf_def do_chunk_start_def do_chunk_size_def size_end_def
        NGX_MAX_OFF_T_VALUE_def)
qed

section \<open>The parser against the machine\<close>

definition scan_fed :: "ck_state \<Rightarrow> int \<Rightarrow> byte list \<Rightarrow> int \<Rightarrow> (ck_state \<times> int) \<times> int + ck_exit \<Rightarrow> bool" where
  "scan_fed st sz bs pos x =
     (case x of
        Inl ((st', sz'), p) \<Rightarrow> p = pos + int (length bs) \<and> ck_wf st' sz' \<and> (\<forall>body. feed st sz bs body = Fed st' sz' body)
      | Inr (At_data sz' p) \<Rightarrow> \<exists>k < length bs. p = pos + int k \<and> ck_wf sw_chunk_data sz' \<and>
          (\<forall>body. feed st sz (take k bs) body = Fed sw_chunk_data sz' body)
      | Inr (At_done sz' p) \<Rightarrow> \<exists>k < length bs. p = pos + int k \<and> sz' = 0 \<and> (\<forall>body. feed st sz bs body = Complete body (drop (Suc k) bs))
      | Inr (Invalid sz') \<Rightarrow> \<forall>body. feed st sz bs body = Bad)"

lemma scan_fed_Next:
  assumes "ck_switch st sz b = Some (Next st' sz')" "st \<noteq> sw_chunk_data" "scan_fed st' sz' bs (pos + 1) x"
  shows "scan_fed st sz (b # bs) pos x"
proof -
  have step: "feed st sz (b # cs) body = feed st' sz' cs body" for cs body using assms by simp
  have ex: "\<exists>k' < length (b # bs). P k'" if "k < length bs" "P (Suc k)" for P k using that by (metis Suc_less_eq length_Cons)
  show ?thesis
  proof (cases x)
    case (Inl y)
    then show ?thesis using assms(3) step by (cases y) (auto simp: scan_fed_def algebra_simps simp del: feed.simps(2))
  next
    case (Inr e)
    show ?thesis
    proof (cases e)
      case (At_data sz1 p)
      then obtain k where "k < length bs" "p = pos + 1 + int k" "ck_wf sw_chunk_data sz1" "\<forall>body. feed st' sz' (take k bs) body = Fed sw_chunk_data sz1 body"
        using assms(3) Inr by (auto simp: scan_fed_def)
      then show ?thesis unfolding scan_fed_def Inr At_data sum.case ck_exit.case
        using step [of "take k bs"] by (intro ex [of k]) (simp_all del: feed.simps(2))
    next
      case (At_done sz1 p)
      then obtain k where "k < length bs" "p = pos + 1 + int k" "sz1 = 0" "\<forall>body. feed st' sz' bs body = Complete body (drop (Suc k) bs)"
        using assms(3) Inr by (auto simp: scan_fed_def)
      then show ?thesis unfolding scan_fed_def Inr At_done sum.case ck_exit.case
        using step [of bs] by (intro ex [of k]) (simp_all del: feed.simps(2))
    next
      case (Invalid sz1)
      then show ?thesis using assms(3) step Inr by (simp add: scan_fed_def del: feed.simps(2))
    qed
  qed
qed

lemma ck_scan_fed:
  "bytes_at mem pos bs \<Longrightarrow> ck_wf st sz \<Longrightarrow> \<exists>x. ck_scan mem (pos + int (length bs)) (st, sz) pos = Some x \<and> scan_fed st sz bs pos x"
proof (induction bs arbitrary: pos st sz)
  case Nil
  then show ?case by (simp add: ck.scan_end scan_fed_def)
next
  case (Cons b bs)
  have b: "mem pos = Some b" "bytes_at mem (pos + 1) bs" using Cons.prems(1) by simp_all
  have lt: "pos < pos + int (length (b # bs))" by simp
  show ?case
  proof (cases "st = sw_chunk_data")
    case True
    have "ck_step mem (st, sz) pos = Some (Inr (At_data sz pos))" using b True by (simp add: ck_step_def ck_switch_def)
    from ck.scan_stop [OF lt this] show ?thesis using Cons.prems(2) True by (auto simp: scan_fed_def intro: exI [of _ 0])
  next
    case False
    obtain x where x: "ck_switch st sz b = Some x"
      "case x of Next st' sz' \<Rightarrow> ck_wf st' sz' | To_data \<Rightarrow> False | To_done \<Rightarrow> sz = 0 | To_invalid \<Rightarrow> True"
      using ck_switch_ok [OF Cons.prems(2) False] by blast
    show ?thesis
    proof (cases x)
      case (Next st' sz')
      have s: "ck_step mem (st, sz) pos = Some (Inl ((st', sz'), pos + 1))" using b x(1) Next by (simp add: ck_step_def)
      have "pos + 1 + int (length bs) = pos + int (length (b # bs))" by simp
      then show ?thesis using Cons.IH [OF b(2), of st' sz'] x Next ck.scan_go [OF lt s] scan_fed_Next [of st sz b st' sz' bs pos] False
        by (auto simp: add.assoc)
    next
      case To_done
      have "ck_step mem (st, sz) pos = Some (Inr (At_done sz pos))" using b x(1) To_done by (simp add: ck_step_def)
      from ck.scan_stop [OF lt this] show ?thesis using x To_done False by (auto simp: scan_fed_def intro: exI [of _ 0])
    next
      case To_invalid
      have "ck_step mem (st, sz) pos = Some (Inr (Invalid sz))" using b x(1) To_invalid by (simp add: ck_step_def)
      from ck.scan_stop [OF lt this] show ?thesis using x To_invalid False by (auto simp: scan_fed_def)
    qed (use x in simp)
  qed
qed

text \<open>The state in which the parser takes up its work.\<close>

definition ck_start :: "ngx_http_chunked \<Rightarrow> ck_state" where
  "ck_start ctx = (if ck_state ctx = sw_chunk_data \<and> ck_size ctx = 0 then sw_after_data else ck_state ctx)"

definition parse_fed :: "ngx_http_chunked \<Rightarrow> byte list \<Rightarrow> int \<Rightarrow> ngx_http_chunked \<Rightarrow> int \<Rightarrow> ck_rc \<Rightarrow> bool" where
  "parse_fed ctx bs pos ctx' pos' rc =
     (case rc of
        CK_AGAIN \<Rightarrow> pos' = pos + int (length bs) \<and> ck_wf (ck_state ctx') (ck_size ctx') \<and>
          ck_length ctx' = min_length (ck_state ctx') (ck_size ctx') \<and>
          (\<forall>body. feed (ck_start ctx) (ck_size ctx) bs body = Fed (ck_state ctx') (ck_size ctx') body)
      | CK_OK \<Rightarrow> ck_state ctx' = sw_chunk_data \<and> ck_wf sw_chunk_data (ck_size ctx') \<and>
          (\<exists>k < length bs. pos' = pos + int k \<and> (\<forall>body. feed (ck_start ctx) (ck_size ctx) (take k bs) body = Fed sw_chunk_data (ck_size ctx') body))
      | CK_DONE \<Rightarrow> ck_state ctx' = sw_chunk_start \<and> ck_size ctx' = 0 \<and>
          (\<exists>k < length bs. pos' = pos + int (Suc k) \<and> (\<forall>body. feed (ck_start ctx) (ck_size ctx) bs body = Complete body (drop (Suc k) bs)))
      | CK_ERROR \<Rightarrow> \<forall>body. case feed (ck_start ctx) (ck_size ctx) bs body of Fed st sz _ \<Rightarrow> max16 < sz | Complete _ _ \<Rightarrow> False | Bad \<Rightarrow> True)"

lemma ck_data_ok:
  assumes "ck_wf st sz"
  shows "ck_data ctx st sz p rc =
    (if sz > NGX_MAX_OFF_T_VALUE - 5 then Some (ctx\<lparr>ck_state := st, ck_size := sz\<rparr>, p, CK_ERROR)
     else Some (ctx\<lparr>ck_state := st, ck_size := sz, ck_length := min_length st sz\<rparr>, p, rc))"
  using assms by (cases st) (auto simp: ck_data_def off_t_def min_length_def ck_wf_def NGX_MAX_OFF_T_VALUE_def)

lemma parse_chunked_fed:
  assumes "bytes_at mem pos bs" "ck_wf (ck_start ctx) (ck_size ctx)"
  shows "\<exists>ctx' pos' rc. ngx_http_parse_chunked mem ctx pos (pos + int (length bs)) = Some (ctx', pos', rc) \<and> parse_fed ctx bs pos ctx' pos' rc"
proof -
  obtain x where x: "ck_scan mem (pos + int (length bs)) (ck_start ctx, ck_size ctx) pos = Some x" "scan_fed (ck_start ctx) (ck_size ctx) bs pos x"
    using ck_scan_fed [OF assms] by blast
  have eq: "ngx_http_parse_chunked mem ctx pos (pos + int (length bs)) =
      (case x of
         Inl ((st, sz), p) \<Rightarrow> ck_data ctx st sz p CK_AGAIN
       | Inr (At_data sz p) \<Rightarrow> ck_data ctx sw_chunk_data sz p CK_OK
       | Inr (At_done sz p) \<Rightarrow> Some (ctx\<lparr>ck_state := sw_chunk_start, ck_size := sz\<rparr>, p + 1, CK_DONE)
       | Inr (Invalid sz) \<Rightarrow> Some (ctx\<lparr>ck_size := sz\<rparr>, pos, CK_ERROR))"
    using x(1) by (simp add: ngx_http_parse_chunked_def ck_start_def)
  have big: "NGX_MAX_OFF_T_VALUE - 5 < sz \<Longrightarrow> max16 < sz" for sz by (simp add: NGX_MAX_OFF_T_VALUE_def)
  show ?thesis
  proof (cases x)
    case (Inl y)
    then obtain st sz p where "x = Inl ((st, sz), p)" by (cases y) (auto simp: prod_eq_iff)
    then show ?thesis using x(2) unfolding eq by (simp add: scan_fed_def ck_data_ok parse_fed_def big)
  next
    case (Inr e)
    show ?thesis
    proof (cases e)
      case (At_data sz p)
      have "ck_wf sw_chunk_data sz" using x(2) by (auto simp: Inr At_data scan_fed_def)
      moreover from this have "\<not> NGX_MAX_OFF_T_VALUE - 5 < sz" using big by (fastforce simp: ck_wf_def)
      ultimately show ?thesis using x(2) unfolding eq by (auto simp: Inr At_data scan_fed_def ck_data_ok parse_fed_def)
    qed (use x(2) eq in \<open>auto simp: Inr scan_fed_def parse_fed_def\<close>)
  qed
qed

section \<open>The request body filter against the machine\<close>

definition out_bytes :: "mem \<Rightarrow> out_buf list \<Rightarrow> byte list" where
  "out_bytes mem out = concat (map (\<lambda>x. case x of Part p q \<Rightarrow> slice mem p q | Last_buf \<Rightarrow> []) out)"

lemma out_bytes_simps [simp]:
  "out_bytes mem [] = []" "out_bytes mem (Part p q # out) = slice mem p q @ out_bytes mem out" "out_bytes mem (Last_buf # out) = out_bytes mem out"
  "out_bytes mem (out @ out') = out_bytes mem out @ out_bytes mem out'"
  by (simp_all add: out_bytes_def)

text \<open>Taking data: the machine after as many bytes of the chunk as there are.\<close>

lemma feed_part:
  assumes "0 < sz" "m = min (int (length bs)) sz"
  shows "feed sw_chunk_data sz bs body = feed (if sz - m = 0 then sw_after_data else sw_chunk_data) (sz - m) (drop (nat m) bs) (body @ take (nat m) bs)"
  using assms by (auto simp: feed_data min_def)

definition fed_result :: "fed \<Rightarrow> byte list \<Rightarrow> int \<Rightarrow> mem \<Rightarrow> request_body \<Rightarrow> int \<Rightarrow> out_buf list \<Rightarrow> bool" where
  "fed_result f bs pos mem rb' pos' out' =
     (case f of
        Fed st sz body \<Rightarrow> pos' = pos + int (length bs) \<and> ck_state (rb_chunked rb') = st \<and> ck_size (rb_chunked rb') = sz \<and>
          rb_rest rb' = min_length st sz \<and> out_bytes mem out' = body \<and> Last_buf \<notin> set out'
      | Complete body rest \<Rightarrow> pos' = pos + int (length bs) - int (length rest) \<and> ck_state (rb_chunked rb') = sw_chunk_start \<and>
          ck_size (rb_chunked rb') = 0 \<and> rb_rest rb' = 0 \<and> out_bytes mem out' = body \<and> (\<exists>parts. out' = parts @ [Last_buf] \<and> Last_buf \<notin> set parts)
      | Bad \<Rightarrow> False)"

definition fed_error :: "fed \<Rightarrow> bool" where
  "fed_error f = (case f of Fed st sz _ \<Rightarrow> max16 < sz | Complete _ _ \<Rightarrow> False | Bad \<Rightarrow> True)"

definition fed_large :: "int \<Rightarrow> ck_state \<Rightarrow> int \<Rightarrow> int \<Rightarrow> byte list \<Rightarrow> bool" where
  "fed_large max_size st sz n bs \<longleftrightarrow> max_size \<noteq> 0 \<and>
     (\<exists>k sz' body. feed st sz (take k bs) [] = Fed sw_chunk_data sz' body \<and> max_size < n + int (length body) + sz')"

definition buf_fed :: "int \<Rightarrow> request_body \<Rightarrow> byte list \<Rightarrow> int \<Rightarrow> mem \<Rightarrow> request_body \<Rightarrow> int \<Rightarrow> out_buf list \<Rightarrow> body_rc \<Rightarrow> bool" where
  "buf_fed max_size rb bs pos mem rb' pos' out' rc \<longleftrightarrow>
     content_length_n rb' = content_length_n rb + int (length (out_bytes mem out')) \<and> length out' \<le> length bs \<and>
     (rc = BODY_OK \<longrightarrow> pool rb' = drop (length out') (pool rb)) \<and> (\<forall>p q. Part p q \<in> set out' \<longrightarrow> pos \<le> p \<and> p < q \<and> q \<le> pos + int (length bs)) \<and>
     (case rc of
        BODY_OK \<Rightarrow> fed_result (feed (ck_start (rb_chunked rb)) (ck_size (rb_chunked rb)) bs []) bs pos mem rb' pos' out'
      | HTTP_BAD_REQUEST \<Rightarrow> fed_error (feed (ck_start (rb_chunked rb)) (ck_size (rb_chunked rb)) bs [])
      | HTTP_REQUEST_ENTITY_TOO_LARGE \<Rightarrow> fed_large max_size (ck_start (rb_chunked rb)) (ck_size (rb_chunked rb)) (content_length_n rb) bs
      | HTTP_INTERNAL_SERVER_ERROR \<Rightarrow> \<not> (list_all id (pool rb) \<and> length bs \<le> length (pool rb)))"

text \<open>A part of a chunk, followed by what the rest of the buffer gives.\<close>

lemma fed_result_part:
  assumes "fed_result (feed st sz bs []) bs pos mem rb' pos' out'" "pos + int (length bs) = pos0 + int (length bs0)"
  shows "fed_result (feed st sz bs (slice mem p q)) bs0 pos0 mem rb' pos' (Part p q # out')"
  using assms feed_body [of st sz bs "slice mem p q" "[]"]
  by (auto simp: fed_result_def split: fed.splits intro: exI [of _ "Part p q # _"])

lemma fed_error_body: "fed_error (feed st sz bs body) = fed_error (feed st sz bs [])"
  using feed_body [of st sz bs body "[]"] by (simp add: fed_error_def split: fed.splits)

lemma feed_prefix:
  assumes "\<forall>body. feed st sz (take k bs) body = Fed sw_chunk_data sz' body" "ck_wf sw_chunk_data sz'" "m = min (int (length bs) - int k) sz'" "k < length bs"
  shows "feed st sz bs body = feed (if sz' - m = 0 then sw_after_data else sw_chunk_data) (sz' - m) (drop (k + nat m) bs) (body @ take (nat m) (drop k bs))"
proof -
  have "feed st sz (take k bs @ drop k bs) body = feed sw_chunk_data sz' (drop k bs) body" using assms(1) by (simp only: feed_append fed.case)
  moreover have "0 < sz'" using assms(2) by (simp add: ck_wf_def)
  moreover have "m = min (int (length (drop k bs))) sz'" using assms(3,4) by (simp add: of_nat_diff)
  ultimately show ?thesis using feed_part [of sz' m "drop k bs" body] by (simp add: add.commute)
qed

lemma slice_bytes: "bytes_at mem pos bs \<Longrightarrow> k + m \<le> length bs \<Longrightarrow> slice mem (pos + int k) (pos + int k + int m) = take m (drop k bs)"
proof -
  assume b: "bytes_at mem pos bs" and le: "k + m \<le> length bs"
  have "bs = take k bs @ take m (drop k bs) @ drop (k + m) bs" by (simp add: add.commute flip: take_add append_assoc)
  then have "bytes_at mem (pos + int k) (take m (drop k bs))" using b le by (metis bytes_at_append add_leD1 length_take min.absorb2)
  from bytes_at_slice [OF this] le show ?thesis by simp
qed

lemma fed_large_part:
  assumes large: "fed_large max_size (if sz' - m = 0 then sw_after_data else sw_chunk_data) (sz' - m) (n + m) (drop (k + nat m) bs)"
    and pre: "\<forall>body. feed st sz (take k bs) body = Fed sw_chunk_data sz' body" "ck_wf sw_chunk_data sz'" "m = min (int (length bs) - int k) sz'" "k < length bs"
  shows "fed_large max_size st sz n bs"
proof -
  let ?st = "if sz' - m = 0 then sw_after_data else sw_chunk_data"
  obtain j sz2 body where j: "feed ?st (sz' - m) (take j (drop (k + nat m) bs)) [] = Fed sw_chunk_data sz2 body"
      "max_size \<noteq> 0" "max_size < n + m + int (length body) + sz2" using large by (auto simp: fed_large_def)
  define bs' where "bs' = take (k + nat m + j) bs"
  have m: "0 < m" "m \<le> sz'" "k + nat m \<le> length bs" using pre by (auto simp: ck_wf_def)
  have k': "take k bs' = take k bs" "k < length bs'" "m = min (int (length bs') - int k) sz'"
    using m pre(3,4) by (auto simp: bs'_def min_def)
  have d: "drop (k + nat m) bs' = take j (drop (k + nat m) bs)" "take (nat m) (drop k bs') = take (nat m) (drop k bs)"
    using m by (simp_all add: bs'_def drop_take min_def)
  have "\<forall>body. feed st sz (take k bs') body = Fed sw_chunk_data sz' body" using pre(1) k'(1) by simp
  from feed_prefix [OF this pre(2) k'(3,2), of "[]"]
  have "feed st sz bs' [] = feed ?st (sz' - m) (take j (drop (k + nat m) bs)) (take (nat m) (drop k bs))"
    unfolding d append_Nil .
  also have "\<dots> = Fed sw_chunk_data sz2 (take (nat m) (drop k bs) @ body)"
    using feed_body [of ?st "sz' - m" "take j (drop (k + nat m) bs)" "take (nat m) (drop k bs)" "[]"] j(1) by simp
  finally have "feed st sz bs' [] = Fed sw_chunk_data sz2 (take (nat m) (drop k bs) @ body)" .
  moreover have "max_size < n + int (length (take (nat m) (drop k bs) @ body)) + sz2" using j(3) m by simp
  ultimately show ?thesis using j(2) unfolding fed_large_def bs'_def by blast
qed

lemma buf_fed_part:
  assumes rec: "buf_fed max_size rb2 (drop (k + nat m) bs) (pos + int k + m) mem rb' pos' out' rc" and ba: "bytes_at mem pos bs"
    and pre: "\<forall>body. feed (ck_start (rb_chunked rb)) (ck_size (rb_chunked rb)) (take k bs) body = Fed sw_chunk_data sz' body"
      "ck_wf sw_chunk_data sz'" "m = min (int (length bs) - int k) sz'" "k < length bs"
    and rb2: "content_length_n rb2 = content_length_n rb + m" "pool rb = True # pool rb2"
      "ck_start (rb_chunked rb2) = (if sz' - m = 0 then sw_after_data else sw_chunk_data)" "ck_size (rb_chunked rb2) = sz' - m"
  shows "buf_fed max_size rb bs pos mem rb' pos' (Part (pos + int k) (pos + int k + m) # out') rc"
proof -
  have m: "0 < m" "m \<le> sz'" "k + nat m \<le> length bs" using pre(2-4) by (auto simp: ck_wf_def)
  have sl: "slice mem (pos + int k) (pos + int k + m) = take (nat m) (drop k bs)" using slice_bytes [OF ba m(3)] m(1) by simp
  have len: "pos + int k + m + int (length (drop (k + nat m) bs)) = pos + int (length bs)" using m by simp
  note fp = feed_prefix [OF pre, of "[]"] and fb = feed_body [of _ _ _ "take (nat m) (drop k bs)" "[]"]
  have feed: "feed (ck_start (rb_chunked rb)) (ck_size (rb_chunked rb)) bs [] =
      feed (ck_start (rb_chunked rb2)) (ck_size (rb_chunked rb2)) (drop (k + nat m) bs) (slice mem (pos + int k) (pos + int k + m))"
    using fp by (simp add: rb2 sl)
  have base: "content_length_n rb' = content_length_n rb + int (length (out_bytes mem (Part (pos + int k) (pos + int k + m) # out')))"
    "length (Part (pos + int k) (pos + int k + m) # out') \<le> length bs"
    "rc = BODY_OK \<longrightarrow> pool rb' = drop (length (Part (pos + int k) (pos + int k + m) # out')) (pool rb)"
    using rec m rb2 unfolding buf_fed_def by auto
  have "\<forall>p q. Part p q \<in> set out' \<longrightarrow> pos + int k + m \<le> p \<and> p < q \<and> q \<le> pos + int (length bs)"
    using rec unfolding buf_fed_def len by blast
  then have base2: "\<forall>p q. Part p q \<in> set (Part (pos + int k) (pos + int k + m) # out') \<longrightarrow> pos \<le> p \<and> p < q \<and> q \<le> pos + int (length bs)"
    using m by fastforce
  show ?thesis
  proof (cases rc)
    case BODY_OK
    then show ?thesis using rec base base2 fed_result_part [OF _ len, of "ck_start (rb_chunked rb2)" "ck_size (rb_chunked rb2)" mem rb' pos' out'] feed
      unfolding buf_fed_def by simp
  next
    case HTTP_BAD_REQUEST
    then show ?thesis using rec base base2 unfolding buf_fed_def feed fed_error_body [of _ _ _ "slice mem (pos + int k) (pos + int k + m)"] by simp
  next
    case HTTP_REQUEST_ENTITY_TOO_LARGE
    then show ?thesis using rec base base2 fed_large_part [OF _ pre, of max_size "content_length_n rb"]
      unfolding buf_fed_def by (simp add: rb2)
  next
    case HTTP_INTERNAL_SERVER_ERROR
    then show ?thesis using rec base base2 m unfolding buf_fed_def by (auto simp: rb2)
  qed
qed

lemma off_t_Some [simp]: "- (2 ^ 63) \<le> v \<Longrightarrow> v < 2 ^ 63 \<Longrightarrow> off_t v = Some v"
  by (simp add: off_t_def)

lemma chunked_buf_data:
  assumes parse: "ngx_http_parse_chunked mem (rb_chunked rb) pos lst = Some (ctx, p, CK_OK)"
    and n: "0 \<le> content_length_n rb" "content_length_n rb + (lst - p) < 2 ^ 63" "p \<le> lst" "0 \<le> ck_size ctx" "0 \<le> max_size" "max_size < 2 ^ 63"
    and m: "m = min (lst - p) (ck_size ctx)"
  shows "chunked_buf max_size mem rb pos lst out =
    (if max_size \<noteq> 0 \<and> max_size - content_length_n rb < ck_size ctx then Some (rb\<lparr>rb_chunked := ctx\<rparr>, p, out, HTTP_REQUEST_ENTITY_TOO_LARGE)
     else (case palloc (rb\<lparr>rb_chunked := ctx\<rparr>) of (ok, rb') \<Rightarrow>
       if \<not> ok then Some (rb', p, out, HTTP_INTERNAL_SERVER_ERROR)
       else chunked_buf max_size mem (rb'\<lparr>content_length_n := content_length_n rb + m, rb_chunked := ctx\<lparr>ck_size := ck_size ctx - m\<rparr>\<rparr>) (p + m) lst
         (out @ [Part p (p + m)])))"
proof -
  have room: "off_t (max_size - content_length_n rb) = Some (max_size - content_length_n rb)"
    using n by (intro off_t_Some) linarith+
  have "content_length_n (snd (palloc (rb\<lparr>rb_chunked := ctx\<rparr>))) = content_length_n rb"
    by (simp add: palloc_def split: list.splits)
  moreover have "off_t (content_length_n rb + m) = Some (content_length_n rb + m)" using n m by (intro off_t_Some) linarith+
  ultimately show ?thesis
    using n(3,4) m by (subst chunked_buf.simps) (auto simp: parse room Let_def min_def split: prod.splits)
qed

lemma palloc_fields:
  assumes "palloc rb = (ok, rb')"
  shows "content_length_n rb' = content_length_n rb" "rb_chunked rb' = rb_chunked rb" "rb_rest rb' = rb_rest rb"
    "ok \<Longrightarrow> pool rb = True # pool rb'" "\<not> ok \<Longrightarrow> 0 < n \<Longrightarrow> \<not> (list_all id (pool rb) \<and> n \<le> length (pool rb))"
  using assms by (cases "pool rb"; auto simp: palloc_def)+

lemma chunked_buf_fed:
  assumes "bytes_at mem pos bs" "ck_wf (ck_start (rb_chunked rb)) (ck_size (rb_chunked rb))"
    and "0 \<le> content_length_n rb" "content_length_n rb + int (length bs) < 2 ^ 63" and mx: "0 \<le> max_size" "max_size < 2 ^ 63"
  shows "\<exists>rb' pos' out' rc. chunked_buf max_size mem rb pos (pos + int (length bs)) out = Some (rb', pos', out @ out', rc) \<and>
    buf_fed max_size rb bs pos mem rb' pos' out' rc"
  using assms(1-4)
proof (induction "length bs" arbitrary: rb pos bs out rule: less_induct)
  case less
  let ?lst = "pos + int (length bs)"
  obtain ctx p rc where ps: "ngx_http_parse_chunked mem (rb_chunked rb) pos ?lst = Some (ctx, p, rc)" "parse_fed (rb_chunked rb) bs pos ctx p rc"
    using parse_chunked_fed [OF less.prems(1,2)] by blast
  note eq = chunked_buf.simps [of max_size mem rb pos ?lst out]
  show ?case
  proof (cases rc)
    case CK_AGAIN
    then show ?thesis using ps eq by (simp add: parse_fed_def buf_fed_def fed_result_def)
  next
    case CK_ERROR
    then show ?thesis using ps eq by (simp add: parse_fed_def buf_fed_def fed_error_def)
  next
    case CK_DONE
    then obtain k where k: "k < length bs" "p = pos + int (Suc k)" "\<forall>body. feed (ck_start (rb_chunked rb)) (ck_size (rb_chunked rb)) bs body = Complete body (drop (Suc k) bs)"
      "ck_state ctx = sw_chunk_start" "ck_size ctx = 0" using ps(2) by (auto simp: parse_fed_def)
    obtain ok rb1 where pa: "palloc (rb\<lparr>rb_chunked := ctx, rb_rest := 0\<rparr>) = (ok, rb1)" by (cases "palloc (rb\<lparr>rb_chunked := ctx, rb_rest := 0\<rparr>)")
    show ?thesis
    proof (cases ok)
      case True
      then show ?thesis using ps(1) eq k pa palloc_fields [OF pa] CK_DONE
        by (auto simp: buf_fed_def fed_result_def intro!: exI [of _ "[Last_buf]"])
    next
      case False
      have "bs \<noteq> []" using k(1) by auto
      then show ?thesis using False ps(1) eq pa palloc_fields(1) [OF pa] palloc_fields(5) [OF pa, of "length bs"] CK_DONE
        by (auto simp: buf_fed_def intro!: exI [of _ "[]"])
    qed
  next
    case CK_OK
    then obtain k where k: "k < length bs" "p = pos + int k"
        "\<forall>body. feed (ck_start (rb_chunked rb)) (ck_size (rb_chunked rb)) (take k bs) body = Fed sw_chunk_data (ck_size ctx) body"
        "ck_wf sw_chunk_data (ck_size ctx)" "ck_state ctx = sw_chunk_data" using ps(2) by (auto simp: parse_fed_def)
    define m where "m = min (int (length bs) - int k) (ck_size ctx)"
    have m: "m = min (?lst - p) (ck_size ctx)" "0 < m" "m \<le> ck_size ctx" "k + nat m \<le> length bs" using k by (auto simp: m_def ck_wf_def)
    obtain ok rb1 where pa: "palloc (rb\<lparr>rb_chunked := ctx\<rparr>) = (ok, rb1)" by (cases "palloc (rb\<lparr>rb_chunked := ctx\<rparr>)")
    have "0 \<le> ck_size ctx" "content_length_n rb + (?lst - p) < 2 ^ 63" "p \<le> ?lst" using k less.prems(4) by (auto simp: ck_wf_def)
    note eq = chunked_buf_data [OF ps(1) [unfolded CK_OK] less.prems(3) this(2,3,1) mx m(1), of out]
    consider "max_size \<noteq> 0" "max_size - content_length_n rb < ck_size ctx" | "\<not> (max_size \<noteq> 0 \<and> max_size - content_length_n rb < ck_size ctx)" "\<not> ok"
      | "\<not> (max_size \<noteq> 0 \<and> max_size - content_length_n rb < ck_size ctx)" ok by blast
    then show ?thesis
    proof cases
      case 1
      have "fed_large max_size (ck_start (rb_chunked rb)) (ck_size (rb_chunked rb)) (content_length_n rb) bs"
        unfolding fed_large_def using 1 k(3) by (intro conjI exI [of _ k] exI [of _ "ck_size ctx"] exI [of _ "[]"]) simp_all
      then show ?thesis using eq 1 by (simp add: buf_fed_def)
    next
      case 2
      have "bs \<noteq> []" using k(1) by auto
      then have "buf_fed max_size rb bs pos mem rb1 p [] HTTP_INTERNAL_SERVER_ERROR"
        using palloc_fields(1) [OF pa] palloc_fields(5) [OF pa, of "length bs"] 2(2) k(1) by (simp add: buf_fed_def)
      then show ?thesis using eq 2 pa by auto
    next
      case 3
      define rb2 where "rb2 = rb1\<lparr>content_length_n := content_length_n rb + m, rb_chunked := ctx\<lparr>ck_size := ck_size ctx - m\<rparr>\<rparr>"
      let ?bs = "drop (k + nat m) bs"
      have f: "pool rb = True # pool rb2" using palloc_fields(4) [OF pa] 3 by (simp add: rb2_def)
      have st: "ck_start (rb_chunked rb2) = (if ck_size ctx - m = 0 then sw_after_data else sw_chunk_data)" "ck_size (rb_chunked rb2) = ck_size ctx - m"
        by (simp_all add: rb2_def ck_start_def k(5))
      have l: "p + m + int (length ?bs) = ?lst" using m(2-4) k(2) by simp
      have "bytes_at mem (p + m) ?bs" using bytes_at_drop [OF less.prems(1) m(4)] m(2) k(2) by (simp add: add.assoc)
      moreover have "ck_wf (ck_start (rb_chunked rb2)) (ck_size (rb_chunked rb2))" using k(4) m by (auto simp: st ck_wf_def)
      moreover have "0 \<le> content_length_n rb2" "content_length_n rb2 + int (length ?bs) < 2 ^ 63" "length ?bs < length bs"
        using less.prems(3,4) m(2-4) k(1) by (simp_all add: rb2_def)
      ultimately obtain rb' pos' out' rc' where r: "chunked_buf max_size mem rb2 (p + m) ?lst (out @ [Part p (p + m)]) = Some (rb', pos', (out @ [Part p (p + m)]) @ out', rc')"
        "buf_fed max_size rb2 ?bs (p + m) mem rb' pos' out' rc'" using less.hyps [of ?bs "p + m" rb2 "out @ [Part p (p + m)]"] l by metis
      have "buf_fed max_size rb bs pos mem rb' pos' (Part p (p + m) # out') rc'"
        using buf_fed_part [OF r(2) [unfolded k(2)] less.prems(1) k(3,4) m_def k(1) _ f st] by (simp add: rb2_def k(2))
      then show ?thesis using eq r(1) 3 pa by (auto simp: rb2_def)
    qed
  qed
qed

section \<open>State of the request body\<close>

definition body_inv :: "request_body \<Rightarrow> bool" where
  "body_inv rb \<longleftrightarrow> ck_wf (ck_start (rb_chunked rb)) (ck_size (rb_chunked rb)) \<and> 0 \<le> content_length_n rb \<and>
     (rb_rest rb = min_length (ck_start (rb_chunked rb)) (ck_size (rb_chunked rb)) \<or> rb_rest rb = 0)"

lemma min_length_pos: "ck_wf st sz \<Longrightarrow> 0 < min_length st sz"
  by (cases st) (auto simp: ck_wf_def min_length_def)

lemma ck_start_wf: "ck_wf (ck_state ctx) (ck_size ctx) \<Longrightarrow> ck_start ctx = ck_state ctx"
  by (auto simp: ck_start_def ck_wf_def)

lemma buf_fed_inv:
  assumes "buf_fed max_size rb bs pos mem rb' pos' out' BODY_OK" "body_inv rb"
  shows "body_inv rb' \<and> pos \<le> pos' \<and> pos' \<le> pos + int (length bs)"
proof -
  let ?f = "feed (ck_start (rb_chunked rb)) (ck_size (rb_chunked rb)) bs []"
  have r: "fed_result ?f bs pos mem rb' pos' out'" "0 \<le> content_length_n rb'" using assms by (simp_all add: buf_fed_def body_inv_def)
  show ?thesis
  proof (cases ?f)
    case (Fed st sz body)
    then have "ck_wf st sz" using feed_wf assms(2) by (auto simp: body_inv_def)
    then show ?thesis using r Fed ck_start_wf [of "rb_chunked rb'"] by (auto simp: fed_result_def body_inv_def)
  next
    case (Complete body rest)
    then show ?thesis using r feed_rest [OF Complete] by (auto simp: fed_result_def body_inv_def ck_start_def ck_wf_def)
  next
    case Bad
    then show ?thesis using r by (simp add: fed_result_def)
  qed
qed

lemma buf_fed_length: "buf_fed max_size rb bs pos mem rb' pos' out' BODY_OK \<Longrightarrow> length (out_bytes mem out') \<le> length bs"
  using feed_length [where st = "ck_start (rb_chunked rb)" and sz = "ck_size (rb_chunked rb)" and bs = bs and body = "[]"]
  by (auto simp: buf_fed_def fed_result_def split: fed.splits)

text \<open>A chain of buffers in memory, and the bytes in it.\<close>

definition chain_ok :: "mem \<Rightarrow> (int \<times> int) list \<Rightarrow> bool" where
  "chain_ok mem bufs \<longleftrightarrow> (\<forall>(p, q) \<in> set bufs. p \<le> q \<and> (\<forall>x. p \<le> x \<and> x < q \<longrightarrow> mem x \<noteq> None))"

definition chain_bytes :: "mem \<Rightarrow> (int \<times> int) list \<Rightarrow> byte list" where
  "chain_bytes mem bufs = concat (map (\<lambda>(p, q). slice mem p q) bufs)"

lemma slice_at: "p \<le> q \<Longrightarrow> (\<And>x. p \<le> x \<Longrightarrow> x < q \<Longrightarrow> mem x \<noteq> None) \<Longrightarrow> bytes_at mem p (slice mem p q)"
  by (rule bytes_atI) (auto simp: slice_def)

lemma chunked_chain_ok:
  assumes "chain_ok mem bufs" "body_inv rb" "content_length_n rb + int (length (chain_bytes mem bufs)) < 2 ^ 63" and mx: "0 \<le> max_size" "max_size < 2 ^ 63"
  shows "\<exists>rb' ps out' rc. chunked_chain max_size mem rb bufs out = Some (rb', ps, out @ out', rc) \<and>
    (\<forall>p q. Part p q \<in> set out' \<longrightarrow> p < q \<and> (\<exists>(a, b) \<in> set bufs. a \<le> p \<and> q \<le> b)) \<and>
    (rc = BODY_OK \<longrightarrow> body_inv rb' \<and> content_length_n rb' = content_length_n rb + int (length (out_bytes mem out')) \<and>
       list_all2 (\<lambda>(a, b) p. a \<le> p \<and> p \<le> b) bufs ps)"
  using assms(1-3)
proof (induction bufs arbitrary: rb out)
  case Nil
  then show ?case by simp
next
  case (Cons buf bufs)
  obtain a b where buf: "buf = (a, b)" by (cases buf)
  define bs where "bs = slice mem a b"
  have le: "a \<le> b" and at: "bytes_at mem a bs" using Cons.prems(1) by (auto simp: buf chain_ok_def bs_def intro: slice_at)
  have b: "b = a + int (length bs)" using le by (simp add: bs_def)
  have len: "content_length_n rb + int (length bs) + int (length (chain_bytes mem bufs)) < 2 ^ 63"
    using Cons.prems(3) by (simp add: buf chain_bytes_def bs_def)
  obtain rb1 p1 out1 rc1 where r1: "chunked_buf max_size mem rb a b out = Some (rb1, p1, out @ out1, rc1)" "buf_fed max_size rb bs a mem rb1 p1 out1 rc1"
    using chunked_buf_fed [OF at _ _ _ mx, of rb out] Cons.prems(2) len b by (fastforce simp: body_inv_def)
  have parts: "Part p q \<in> set out1 \<Longrightarrow> a \<le> p \<and> p < q \<and> q \<le> b" for p q using r1(2) by (auto simp: buf_fed_def b)
  show ?case
  proof (cases "rc1 = BODY_OK")
    case False
    then show ?thesis using r1(1) parts by (auto simp: buf)
  next
    case True
    have inv: "body_inv rb1" "a \<le> p1" "p1 \<le> b" using buf_fed_inv [OF r1(2) [unfolded True] Cons.prems(2)] b by auto
    have n: "content_length_n rb1 = content_length_n rb + int (length (out_bytes mem out1))" using r1(2) by (simp add: buf_fed_def)
    have "length (out_bytes mem out1) \<le> length bs" using buf_fed_length r1(2) True by blast
    then have "content_length_n rb1 + int (length (chain_bytes mem bufs)) < 2 ^ 63" using len n by linarith
    moreover have "chain_ok mem bufs" using Cons.prems(1) by (simp add: chain_ok_def)
    ultimately obtain rb' ps out' rc where r: "chunked_chain max_size mem rb1 bufs (out @ out1) = Some (rb', ps, (out @ out1) @ out', rc)"
      "\<forall>p q. Part p q \<in> set out' \<longrightarrow> p < q \<and> (\<exists>(a, b) \<in> set bufs. a \<le> p \<and> q \<le> b)"
      "rc = BODY_OK \<longrightarrow> body_inv rb' \<and> content_length_n rb' = content_length_n rb1 + int (length (out_bytes mem out')) \<and>
         list_all2 (\<lambda>(a, b) p. a \<le> p \<and> p \<le> b) bufs ps" using Cons.IH inv(1) by blast
    have "\<forall>p q. Part p q \<in> set (out1 @ out') \<longrightarrow> p < q \<and> (\<exists>(a, b) \<in> set (buf # bufs). a \<le> p \<and> q \<le> b)"
      using r(2) parts unfolding buf by fastforce
    then show ?thesis using r1(1) True r(1,3) inv(2,3) n
      by (intro exI [of _ rb'] exI [of _ "p1 # ps"] exI [of _ "out1 @ out'"] exI [of _ rc]) (simp add: buf)
  qed
qed

section \<open>Arrival of a body\<close>

text \<open>
  What is left to come completes the body: \<open>rest\<close> are the bytes to come, \<open>body\<close> the data so far and \<open>whole\<close> all data.
\<close>

definition due :: "int \<Rightarrow> request_body \<Rightarrow> byte list \<Rightarrow> byte list \<Rightarrow> byte list \<Rightarrow> bool" where
  "due max_size rb rest body whole \<longleftrightarrow>
     (if rest = [] then rb_rest rb = 0 \<and> body = whole
      else ck_wf (ck_start (rb_chunked rb)) (ck_size (rb_chunked rb)) \<and> rb_rest rb \<noteq> -1 \<and>
        feed (ck_start (rb_chunked rb)) (ck_size (rb_chunked rb)) rest body = Complete whole []) \<and>
     content_length_n rb = int (length body) \<and> int (length body) + int (length rest) < 2 ^ 63 \<and>
     list_all id (pool rb) \<and> length rest \<le> length (pool rb) \<and> (max_size = 0 \<or> int (length whole) \<le> max_size)"

lemma feed_total:
  "ck_wf st sz \<Longrightarrow> feed st sz bs body = Complete whole rest \<Longrightarrow> int (length body) + (if st = sw_chunk_data then sz else 0) \<le> int (length whole)"
proof (induction st sz bs body rule: feed.induct)
  case (2 st sz b bs body)
  show ?case
  proof (cases "st = sw_chunk_data")
    case True
    then have "ck_wf (if sz = 1 then sw_after_data else sw_chunk_data) (sz - 1)" using "2.prems"(1) by (auto simp: ck_wf_def)
    then show ?thesis using "2.IH"(1) [OF True] "2.prems"(2) True by (auto split: if_splits)
  next
    case False
    obtain x where x: "ck_switch st sz b = Some x"
      "case x of Next st' sz' \<Rightarrow> ck_wf st' sz' | To_data \<Rightarrow> False | To_done \<Rightarrow> sz = 0 | To_invalid \<Rightarrow> True"
      using ck_switch_ok [OF "2.prems"(1) False] by blast
    show ?thesis
    proof (cases x)
      case (Next st' sz')
      then have "0 \<le> sz' \<or> st' \<noteq> sw_chunk_data" using x(2) by (auto simp: ck_wf_def)
      then show ?thesis using "2.IH"(2) [OF False x(1) Next] "2.prems"(2) False x Next by (auto split: if_splits)
    qed (use "2.prems"(2) False x in auto)
  qed
qed simp

lemma due_not_large:
  assumes "feed st sz (bs @ later) [] = Complete whole []" "ck_wf st sz" "max_size = 0 \<or> n + int (length whole) \<le> max_size"
  shows "\<not> fed_large max_size st sz n bs"
proof
  assume "fed_large max_size st sz n bs"
  then obtain k sz' body where k: "feed st sz (take k bs) [] = Fed sw_chunk_data sz' body" "max_size \<noteq> 0" "max_size < n + int (length body) + sz'"
    by (auto simp: fed_large_def)
  have "feed st sz (take k bs @ drop k bs @ later) [] = Complete whole []" using assms(1) by (metis append_assoc append_take_drop_id)
  then have "feed sw_chunk_data sz' (drop k bs @ later) body = Complete whole []" unfolding feed_append [of st sz "take k bs"] k(1) by simp
  from feed_total [OF feed_wf [OF assms(2) k(1)] this] show False using k(2,3) assms(3) by simp
qed

lemma feed_big: "ck_wf st sz \<Longrightarrow> max16 < sz \<Longrightarrow> feed st sz bs body \<noteq> Complete body' rest"
proof -
  assume wf: "ck_wf st sz" and big: "max16 < sz"
  have "(0 :: int) \<le> max16" by (simp add: max16_eq)
  then have "st = sw_chunk_size" using wf big by (cases st) (auto simp: ck_wf_def)
  then show ?thesis using big by (cases bs) (simp_all add: ck_switch_def do_chunk_size_def)
qed

lemma buf_due:
  assumes due: "due max_size rb (bs @ later) body whole" and at: "bytes_at mem pos bs" and ne: "bs \<noteq> []" and mx: "0 \<le> max_size" "max_size < 2 ^ 63"
  shows "\<exists>rb' out'. chunked_buf max_size mem rb pos (pos + int (length bs)) out = Some (rb', pos + int (length bs), out @ out', BODY_OK) \<and>
    due max_size rb' later (body @ out_bytes mem out') whole"
proof -
  let ?st = "ck_start (rb_chunked rb)" and ?sz = "ck_size (rb_chunked rb)"
  have d: "ck_wf ?st ?sz" "feed ?st ?sz (bs @ later) body = Complete whole []" "content_length_n rb = int (length body)"
      "int (length body) + int (length (bs @ later)) < 2 ^ 63" "list_all id (pool rb)" "length (bs @ later) \<le> length (pool rb)"
      "max_size = 0 \<or> int (length whole) \<le> max_size" using due ne by (simp_all add: due_def)
  obtain whole' where t: "feed ?st ?sz (bs @ later) [] = Complete whole' []" "whole = body @ whole'"
    using d(2) feed_body [of ?st ?sz "bs @ later" body "[]"] by (auto split: fed.splits)
  obtain rb' pos' out' rc where r: "chunked_buf max_size mem rb pos (pos + int (length bs)) out = Some (rb', pos', out @ out', rc)"
    "buf_fed max_size rb bs pos mem rb' pos' out' rc" using chunked_buf_fed [OF at d(1) _ _ mx, of out] d(3,4) by fastforce
  have app: "feed ?st ?sz (bs @ later) [] = (case feed ?st ?sz bs [] of
        Fed st' sz' body' \<Rightarrow> feed st' sz' later body' | Complete body' rest \<Rightarrow> Complete body' (rest @ later) | Bad \<Rightarrow> Bad)" by (rule feed_append)
  have "rc = BODY_OK"
  proof (cases rc)
    case HTTP_BAD_REQUEST
    then have "fed_error (feed ?st ?sz bs [])" using r(2) by (simp add: buf_fed_def)
    then show ?thesis
    proof (cases "feed ?st ?sz bs []")
      case (Fed st' sz' b)
      have "feed st' sz' later b = Complete whole' []" using app t(1) Fed by simp
      then show ?thesis using \<open>fed_error _\<close> Fed feed_big [OF feed_wf [OF d(1) Fed]] by (simp add: fed_error_def)
    qed (use app t(1) in \<open>simp_all add: fed_error_def\<close>)
  next
    case HTTP_REQUEST_ENTITY_TOO_LARGE
    then show ?thesis using r(2) due_not_large [OF t(1) d(1), of max_size "int (length body)"] d(3,7) t(2) by (auto simp: buf_fed_def)
  next
    case HTTP_INTERNAL_SERVER_ERROR
    then show ?thesis using r(2) d(5,6) by (simp add: buf_fed_def)
  qed
  note r = r [unfolded this]
  have pool: "list_all id (pool rb')" "length later \<le> length (pool rb')" "content_length_n rb' = int (length (body @ out_bytes mem out'))"
    using r(2) d(3,5,6) by (auto simp: buf_fed_def list_all_length)
  have small: "int (length (body @ out_bytes mem out')) + int (length later) < 2 ^ 63" using buf_fed_length [OF r(2)] d(4) by simp
  have fr: "fed_result (feed ?st ?sz bs []) bs pos mem rb' pos' out'" using r(2) by (simp add: buf_fed_def)
  have "pos' = pos + int (length bs) \<and> due max_size rb' later (body @ out_bytes mem out') whole"
  proof (cases "feed ?st ?sz bs []")
    case (Fed st' sz' b)
    have wf: "ck_wf st' sz'" using feed_wf [OF d(1) Fed] .
    have f: "ck_state (rb_chunked rb') = st'" "ck_size (rb_chunked rb') = sz'" "rb_rest rb' = min_length st' sz'" "b = out_bytes mem out'"
      "pos' = pos + int (length bs)" using fr Fed by (simp_all add: fed_result_def)
    have "feed st' sz' later b = Complete whole' []" using app t(1) Fed by simp
    then have "feed st' sz' later (body @ b) = Complete whole []" "later \<noteq> []"
      using feed_body [of st' sz' later body b] t(2) by auto
    then show ?thesis using f wf ck_start_wf [of "rb_chunked rb'"] min_length_pos [OF wf] pool small d(7) by (simp add: due_def)
  next
    case (Complete b rest)
    then have "later = []" "rest = []" "b = whole'" using app t(1) by auto
    then show ?thesis using fr Complete pool small d(7) t(2) by (auto simp: fed_result_def due_def)
  next
    case Bad
    then show ?thesis using fr by (simp add: fed_result_def)
  qed
  then show ?thesis using r(1) by auto
qed

definition filled :: "(int \<times> int) list \<Rightarrow> bool" where
  "filled bufs \<longleftrightarrow> (\<forall>(p, q) \<in> set bufs. p < q)"

lemma chain_due:
  assumes "chain_ok mem bufs" "filled bufs" "due max_size rb (chain_bytes mem bufs @ later) body whole" and mx: "0 \<le> max_size" "max_size < 2 ^ 63"
  shows "\<exists>rb' out'. chunked_chain max_size mem rb bufs out = Some (rb', map snd bufs, out @ out', BODY_OK) \<and>
    due max_size rb' later (body @ out_bytes mem out') whole"
  using assms(1-3)
proof (induction bufs arbitrary: rb out body)
  case Nil
  then show ?case by (simp add: chain_bytes_def)
next
  case (Cons buf bufs)
  obtain a b where buf: "buf = (a, b)" by (cases buf)
  define bs where "bs = slice mem a b"
  have lt: "a < b" and at: "bytes_at mem a bs" using Cons.prems(1,2) by (auto simp: buf chain_ok_def filled_def bs_def intro: slice_at)
  have b: "b = a + int (length bs)" "bs \<noteq> []" using lt by (auto simp: bs_def slice_Cons)
  have "due max_size rb (bs @ chain_bytes mem bufs @ later) body whole" using Cons.prems(3) by (simp add: buf chain_bytes_def bs_def)
  from buf_due [OF this at b(2) mx] b(1) obtain rb1 out1 where r1: "chunked_buf max_size mem rb a b out = Some (rb1, b, out @ out1, BODY_OK)"
    "due max_size rb1 (chain_bytes mem bufs @ later) (body @ out_bytes mem out1) whole" by metis
  have "chain_ok mem bufs" "filled bufs" using Cons.prems(1,2) by (simp_all add: chain_ok_def filled_def)
  from Cons.IH [OF this r1(2), of "out @ out1"] obtain rb' out' where
    "chunked_chain max_size mem rb1 bufs (out @ out1) = Some (rb', map snd bufs, (out @ out1) @ out', BODY_OK)"
    "due max_size rb' later ((body @ out_bytes mem out1) @ out_bytes mem out') whole" by blast
  then show ?case using r1(1) by (intro exI [of _ rb'] exI [of _ "out1 @ out'"]) (simp add: buf)
qed

text \<open>A body that arrives in several calls of the filter, each with the memory and the chain of that call.\<close>

fun deliver :: "int \<Rightarrow> request_body \<Rightarrow> (mem \<times> (int \<times> int) list) list \<Rightarrow> (request_body \<times> byte list \<times> body_rc) option" where
  "deliver max_size rb [] = Some (rb, [], BODY_OK)"
| "deliver max_size rb ((mem, bufs) # calls) = do {
     (rb, ps, out, rc) \<leftarrow> ngx_http_request_body_chunked_filter max_size mem rb bufs;
     if rc = BODY_OK then do {
       (rb, body, rc) \<leftarrow> deliver max_size rb calls;
       Some (rb, out_bytes mem out @ body, rc)
     } else Some (rb, out_bytes mem out, rc)
   }"

definition arrival :: "(mem \<times> (int \<times> int) list) list \<Rightarrow> byte list" where
  "arrival calls = concat (map (\<lambda>(mem, bufs). chain_bytes mem bufs) calls)"

definition calls_ok :: "(mem \<times> (int \<times> int) list) list \<Rightarrow> bool" where
  "calls_ok calls \<longleftrightarrow> (\<forall>(mem, bufs) \<in> set calls. chain_ok mem bufs \<and> filled bufs)"

lemma due_rest: "due max_size rb rest body whole \<Longrightarrow> rb_rest rb \<noteq> -1"
  by (auto simp: due_def split: if_splits)

lemma deliver_due:
  assumes "calls_ok calls" "due max_size rb (arrival calls) body whole" and mx: "0 \<le> max_size" "max_size < 2 ^ 63"
  shows "\<exists>rb' body'. deliver max_size rb calls = Some (rb', body', BODY_OK) \<and> body @ body' = whole \<and> rb_rest rb' = 0"
  using assms(1,2)
proof (induction calls arbitrary: rb body)
  case Nil
  then show ?case by (simp add: arrival_def due_def)
next
  case (Cons call calls)
  obtain mem bufs where c: "call = (mem, bufs)" by (cases call)
  have ok: "chain_ok mem bufs" "filled bufs" "calls_ok calls" using Cons.prems(1) by (simp_all add: c calls_ok_def)
  have d: "due max_size rb (chain_bytes mem bufs @ arrival calls) body whole" using Cons.prems(2) by (simp add: c arrival_def)
  from chain_due [OF ok(1,2) d mx, of "[]"] obtain rb1 out1 where
    r1: "chunked_chain max_size mem rb bufs [] = Some (rb1, map snd bufs, out1, BODY_OK)" "due max_size rb1 (arrival calls) (body @ out_bytes mem out1) whole"
    by auto
  have "ngx_http_request_body_chunked_filter max_size mem rb bufs = Some (rb1, map snd bufs, out1, BODY_OK)"
    using r1(1) due_rest [OF d] by (simp add: ngx_http_request_body_chunked_filter_def)
  then show ?case using Cons.IH [OF ok(3) r1(2)] by (auto simp: c)
qed

text \<open>A body from its first byte on.\<close>

lemma deliver_fresh:
  assumes "calls_ok calls" "rb_rest rb = -1" "feed sw_chunk_start 0 (arrival calls) [] = Complete whole []"
    and "list_all id (pool rb)" "length (arrival calls) < length (pool rb)" "int (length (arrival calls)) < 2 ^ 63"
    and "max_size = 0 \<or> int (length whole) \<le> max_size" and mx: "0 \<le> max_size" "max_size < 2 ^ 63"
  shows "\<exists>rb'. deliver max_size rb calls = Some (rb', whole, BODY_OK) \<and> rb_rest rb' = 0"
proof (cases calls)
  case Nil
  then show ?thesis using assms(3) by (simp add: arrival_def)
next
  case (Cons call calls')
  obtain mem bufs where c: "call = (mem, bufs)" by (cases call)
  obtain pool' where p: "pool rb = True # pool'" using assms(4,5) by (cases "pool rb") auto
  define rb0 where "rb0 = rb\<lparr>pool := pool', rb_chunked := \<lparr>ck_state = sw_chunk_start, ck_size = 0, ck_length = 0\<rparr>, content_length_n := 0, rb_rest := 3\<rparr>"
  have "arrival calls \<noteq> []" using assms(3) by auto
  then have "due max_size rb0 (arrival calls) [] whole"
    using assms(3-7) p by (simp add: due_def rb0_def ck_start_def ck_wf_def)
  moreover have "ngx_http_request_body_chunked_filter max_size mem rb bufs = ngx_http_request_body_chunked_filter max_size mem rb0 bufs"
    using assms(2) p by (simp add: ngx_http_request_body_chunked_filter_def palloc_def rb0_def)
  ultimately show ?thesis using deliver_due [OF assms(1) _ mx, of rb0 "[]" whole] by (auto simp: Cons c)
qed

section \<open>What the response filter writes\<close>

lemma hex_val_digit: "d < 16 \<Longrightarrow> hex_val (hex_digit d) = Some (int d)"
proof -
  have "list_all (\<lambda>d. hex_val (hex_digit d) = Some (int d)) [0..<16]" by code_simp
  then show "d < 16 \<Longrightarrow> hex_val (hex_digit d) = Some (int d)" by (simp add: list_all_iff)
qed

lemma feed_hex: "int n \<le> max16 \<Longrightarrow> feed sw_chunk_start 0 (sprintf_hex n) body = Fed sw_chunk_size (int n) body"
proof (induction n rule: sprintf_hex.induct)
  case (1 n)
  show ?case
  proof (cases "n div 16 = 0")
    case True
    then have "n < 16" by simp
    then show ?thesis by (simp add: sprintf_hex.simps [of n] ck_switch_def do_chunk_start_def hex_val_digit)
  next
    case False
    have "int (n div 16) \<le> int n" by simp
    also note "1.prems"
    finally have le: "int (n div 16) \<le> max16" .
    have n: "int (n div 16) * 16 + int (n mod 16) = int n" by (metis of_nat_add of_nat_mult of_nat_numeral div_mult_mod_eq)
    have "int n < 2 ^ 63" using "1.prems" by (simp add: max16_eq)
    then have "ck_switch sw_chunk_size (int (n div 16)) (hex_digit (n mod 16)) = Some (Next sw_chunk_size (int n))"
      using le n by (simp add: ck_switch_def do_chunk_size_def hex_val_digit not_less)
    then show ?thesis using "1.IH" [OF False le] False by (simp add: sprintf_hex.simps [of n] feed_append)
  qed
qed

lemma feed_chunk:
  assumes "data \<noteq> []" "int (length data) \<le> max16"
  shows "feed sw_chunk_start 0 (sprintf_hex (length data) @ [CR, LF] @ data) body = Fed sw_after_data 0 (body @ data)"
proof -
  have "hex_val CR = None" by (simp add: hex_val_def)
  then have "ck_switch sw_chunk_size (int (length data)) CR = Some (Next sw_chunk_extension_almost_done (int (length data)))"
    using assms by (simp add: ck_switch_def do_chunk_size_def size_end_def not_less)
  moreover have "ck_switch sw_chunk_extension_almost_done (int (length data)) LF = Some (Next sw_chunk_data (int (length data)))"
    by (simp add: ck_switch_def only_lf_def)
  ultimately have "feed sw_chunk_size (int (length data)) ([CR, LF] @ data) body = feed sw_chunk_data (int (length data)) data body" by simp
  also have "\<dots> = Fed sw_after_data 0 (body @ data)" using assms(1) by (simp add: feed_data)
  finally show ?thesis using feed_hex [OF assms(2)] by (simp add: feed_append)
qed

text \<open>A trailer field has no line end in it.\<close>

definition plain_line :: "byte list \<Rightarrow> bool" where
  "plain_line bs \<longleftrightarrow> CR \<notin> set bs \<and> LF \<notin> set bs"

lemma feed_trailer_text: "plain_line bs \<Longrightarrow> feed sw_trailer_header 0 (bs @ [CR, LF]) body = Fed sw_trailer 0 body"
  by (induction bs) (auto simp: plain_line_def ck_switch_def skip_line_def only_lf_def)

lemma feed_trailer_line: "plain_line bs \<Longrightarrow> bs \<noteq> [] \<Longrightarrow> feed sw_trailer 0 (bs @ [CR, LF]) body = Fed sw_trailer 0 body"
  using feed_trailer_text [of "tl bs" body] by (cases bs) (auto simp: plain_line_def ck_switch_def)

abbreviation trailer_lines :: "trailer list \<Rightarrow> byte list" where
  "trailer_lines ts \<equiv> concat (map (\<lambda>(_, key, value). key @ [chr CHR '':'', chr CHR '' ''] @ value @ [CR, LF]) ts)"

definition trailers_ok :: "trailer list \<Rightarrow> bool" where
  "trailers_ok ts \<longleftrightarrow> (\<forall>(_, key, value) \<in> set ts. plain_line key \<and> plain_line value)"

lemma feed_trailers: "trailers_ok ts \<Longrightarrow> feed sw_trailer 0 (trailer_lines ts @ [CR, LF]) body = Complete body []"
proof (induction ts)
  case Nil
  then show ?case by (simp add: ck_switch_def only_lf_def)
next
  case (Cons t ts)
  obtain h key val where t: "t = (h, key, val)" by (cases t)
  let ?line = "key @ [chr CHR '':'', chr CHR '' ''] @ val"
  have "plain_line ?line" using Cons.prems by (auto simp: t trailers_ok_def plain_line_def)
  then have "feed sw_trailer 0 (?line @ [CR, LF]) body = Fed sw_trailer 0 body" by (rule feed_trailer_line) simp
  moreover have "trailers_ok ts" using Cons.prems by (simp add: trailers_ok_def)
  ultimately show ?case using Cons.IH feed_append [of sw_trailer 0 "?line @ [CR, LF]" "trailer_lines ts @ [CR, LF]" body] by (simp add: t)
qed

definition last_chunk :: "trailer list \<Rightarrow> byte list" where
  "last_chunk ts = [CR, LF, chr CHR ''0'', CR, LF] @ trailer_lines (filter fst ts) @ [CR, LF]"

lemma create_trailers_eq: "ngx_http_chunked_create_trailers ts allocs = Some (bs, allocs') \<Longrightarrow> bs = last_chunk ts"
  by (cases "filter fst ts") (auto simp: ngx_http_chunked_create_trailers_def last_chunk_def Let_def split: bind_splits)

lemma feed_last_chunk:
  assumes "trailers_ok ts"
  shows "feed sw_chunk_start 0 (drop 2 (last_chunk ts)) body = Complete body []"
    and "feed sw_after_data 0 (last_chunk ts) body = Complete body []"
proof -
  have "trailers_ok (filter fst ts)" using assms by (auto simp: trailers_ok_def)
  then have t: "feed sw_trailer 0 (trailer_lines (filter fst ts) @ [CR, LF]) body = Complete body []" by (rule feed_trailers)
  have hex: "hex_val 48 = Some 0" "hex_val CR = None" "0 \<le> max16" by (simp_all add: hex_val_def max16_eq)
  show a: "feed sw_chunk_start 0 (drop 2 (last_chunk ts)) body = Complete body []"
    using t hex by (simp add: last_chunk_def ck_switch_def do_chunk_start_def do_chunk_size_def size_end_def only_lf_def not_less)
  show "feed sw_after_data 0 (last_chunk ts) body = Complete body []"
    using a by (simp add: last_chunk_def ck_switch_def skip_line_def only_lf_def)
qed

text \<open>A chain of buffers that is sent: the buffers with data are those in memory or in a file.\<close>

definition chain_data :: "body_buf list \<Rightarrow> byte list" where
  "chain_data chain = concat (map buf_bytes chain)"

definition honest :: "body_buf \<Rightarrow> bool" where
  "honest b \<longleftrightarrow> bb_in_memory b \<or> bb_in_file b \<or> bb_file b = []"

lemma honest_size: "honest b \<Longrightarrow> ngx_buf_size b = length (buf_bytes b)" "honest b \<Longrightarrow> \<not> passed b \<Longrightarrow> buf_bytes b = []"
  by (auto simp: honest_def ngx_buf_size_def buf_bytes_def passed_def)

lemma link_bufs_ok:
  "list_all honest chain \<Longrightarrow> link_bufs chain n out allocs = Some (sz, out', allocs') \<Longrightarrow>
     sz = n + length (chain_data chain) \<and> concat out' = concat out @ chain_data chain"
proof (induction chain arbitrary: n out allocs)
  case (Cons b chain)
  show ?case
  proof (cases "passed b")
    case True
    then obtain al where "link_bufs chain (n + ngx_buf_size b) (out @ [buf_bytes b]) al = Some (sz, out', allocs')"
      using Cons.prems(2) by (auto split: bind_splits)
    then show ?thesis using Cons.IH [of "n + ngx_buf_size b"] Cons.prems(1) honest_size(1) [of b] by (fastforce simp: chain_data_def)
  next
    case False
    then show ?thesis using Cons.IH [of "n + ngx_buf_size b" out allocs] Cons.prems honest_size [of b] by (auto simp: chain_data_def)
  qed
qed (simp add: chain_data_def)

text \<open>What one call of the response filter makes of the state of a receiver.\<close>

lemma body_filter_feed:
  assumes call: "ngx_http_chunked_body_filter True False ts chain allocs = Some (out, allocs')" and ts: "trailers_ok ts"
    and chain: "chain \<noteq> []" "list_all honest chain" "int (length (chain_data chain)) \<le> max16"
  shows "feed sw_chunk_start 0 (concat out) body =
    (if bb_last_buf (last chain) then Complete (body @ chain_data chain) [] else Fed sw_chunk_start 0 (body @ chain_data chain))"
proof -
  obtain sz out1 al1 where l: "link_bufs chain 0 [] allocs = Some (sz, out1, al1)"
    using call chain(1) by (auto simp: ngx_http_chunked_body_filter_def split: bind_splits)
  have d: "sz = length (chain_data chain)" "concat out1 = chain_data chain" using link_bufs_ok [OF chain(2) l] by simp_all
  have after: "feed sw_after_data 0 [CR, LF] b = Fed sw_chunk_start 0 b" for b by (simp add: ck_switch_def skip_line_def only_lf_def)
  show ?thesis
  proof (cases "chain_data chain = []")
    case True
    then have "out = out1 @ (if bb_last_buf (last chain) then [drop 2 (last_chunk ts)] else [])"
      using call chain(1) l d(1) by (auto simp: ngx_http_chunked_body_filter_def dest!: create_trailers_eq split: bind_splits if_splits)
    then have "concat out = (if bb_last_buf (last chain) then drop 2 (last_chunk ts) else [])" using d(2) True by simp
    then show ?thesis using feed_last_chunk(1) [OF ts] True by simp
  next
    case False
    then have "out = (sprintf_hex sz @ [CR, LF]) # out1 @ [if bb_last_buf (last chain) then last_chunk ts else [CR, LF]]"
      using call chain(1) l d(1) by (auto simp: ngx_http_chunked_body_filter_def dest!: create_trailers_eq split: bind_splits if_splits)
    then have o: "concat out = (sprintf_hex (length (chain_data chain)) @ [CR, LF] @ chain_data chain) @
        (if bb_last_buf (last chain) then last_chunk ts else [CR, LF])" (is "_ = ?chunk @ ?end")
      using d by simp
    have "feed sw_chunk_start 0 ?chunk body = Fed sw_after_data 0 (body @ chain_data chain)" by (rule feed_chunk [OF False chain(3)])
    then have "feed sw_chunk_start 0 (concat out) body = feed sw_after_data 0 ?end (body @ chain_data chain)"
      unfolding o feed_append [of _ _ ?chunk] by (simp only: fed.case)
    then show ?thesis using feed_last_chunk(2) [OF ts] after by (simp del: feed.simps)
  qed
qed

text \<open>A response that is sent by several calls.\<close>

fun send_all :: "trailer list \<Rightarrow> body_buf list list \<Rightarrow> alloc_result list \<Rightarrow> byte list option" where
  "send_all ts [] allocs = Some []"
| "send_all ts (chain # sends) allocs = do {
     (out, allocs) \<leftarrow> ngx_http_chunked_body_filter True False ts chain allocs;
     wire \<leftarrow> send_all ts sends allocs;
     Some (concat out @ wire)
   }"

definition response_ok :: "body_buf list list \<Rightarrow> bool" where
  "response_ok sends \<longleftrightarrow> sends \<noteq> [] \<and> bb_last_buf (last (last sends)) \<and> (\<forall>chain \<in> set (butlast sends). \<not> bb_last_buf (last chain)) \<and>
     (\<forall>chain \<in> set sends. chain \<noteq> [] \<and> list_all honest chain \<and> int (length (chain_data chain)) \<le> max16)"

lemma send_all_feed:
  "response_ok sends \<Longrightarrow> trailers_ok ts \<Longrightarrow> send_all ts sends allocs = Some wire \<Longrightarrow>
     feed sw_chunk_start 0 wire body = Complete (body @ concat (map chain_data sends)) []"
proof (induction sends arbitrary: allocs wire body)
  case (Cons chain sends)
  obtain out al w where c: "ngx_http_chunked_body_filter True False ts chain allocs = Some (out, al)" "send_all ts sends al = Some w" "wire = concat out @ w"
    using Cons.prems(3) by (auto split: bind_splits)
  have ok: "chain \<noteq> []" "list_all honest chain" "int (length (chain_data chain)) \<le> max16" using Cons.prems(1) by (simp_all add: response_ok_def)
  note f = body_filter_feed [OF c(1) Cons.prems(2) ok, of body]
  show ?case
  proof (cases "sends = []")
    case True
    then show ?thesis using f c(2,3) Cons.prems(1) by (simp add: response_ok_def)
  next
    case False
    then have "\<not> bb_last_buf (last chain)" "response_ok sends" using Cons.prems(1) by (auto simp: response_ok_def)
    then show ?thesis using f c(3) Cons.IH [OF _ Cons.prems(2) c(2), of "body @ chain_data chain"] by (simp add: feed_append)
  qed
qed (simp add: response_ok_def)

lemma rest_taken:
  assumes "body_inv rb" "0 < rb_rest rb" "buf_fed max_size rb bs pos mem rb' pos' out BODY_OK" "int (length bs) \<le> rb_rest rb"
  shows "pos' = pos + int (length bs) \<and> (rb_rest rb' = 0 \<longrightarrow> int (length bs) = rb_rest rb)"
proof -
  let ?st = "ck_start (rb_chunked rb)" and ?sz = "ck_size (rb_chunked rb)"
  have wf: "ck_wf ?st ?sz" "rb_rest rb = min_length ?st ?sz" using assms(1,2) by (auto simp: body_inv_def)
  have r: "fed_result (feed ?st ?sz bs []) bs pos mem rb' pos' out" using assms(3) by (simp add: buf_fed_def)
  show ?thesis
  proof (cases "feed ?st ?sz bs []")
    case (Fed st sz body)
    then show ?thesis using r min_length_pos [OF feed_wf [OF wf(1) Fed]] by (simp add: fed_result_def)
  next
    case (Complete body rest)
    have "int (length rest) = 0" "int (length bs) = rb_rest rb" using feed_min_length [OF wf(1) Complete] wf(2) assms(4) by linarith+
    then show ?thesis using r Complete by (simp add: fed_result_def)
  next
    case Bad
    then show ?thesis using r by (simp add: fed_result_def)
  qed
qed

lemma rest_attained:
  assumes "body_inv rb" "0 < rb_rest rb" "ck_size (rb_chunked rb) \<le> max16" "list_all id (pool rb)" "rb_rest rb \<le> int (length (pool rb))"
    and "content_length_n rb + rb_rest rb < 2 ^ 63" and cs: "cs = last_bytes (ck_start (rb_chunked rb)) (ck_size (rb_chunked rb))"
    and at: "bytes_at mem pos cs"
  shows "\<exists>rb' ps out. ngx_http_request_body_chunked_filter 0 mem rb [(pos, pos + int (length cs))] = Some (rb', ps, out, BODY_OK) \<and> rb_rest rb' = 0"
proof -
  let ?st = "ck_start (rb_chunked rb)" and ?sz = "ck_size (rb_chunked rb)" and ?body = "replicate (nat (content_length_n rb)) 0"
  have wf: "ck_wf ?st ?sz" "rb_rest rb = min_length ?st ?sz" "0 \<le> content_length_n rb" using assms(1,2) by (auto simp: body_inv_def)
  have len: "int (length cs) = rb_rest rb" using length_last_bytes [OF wf(1)] wf(2) cs by simp
  obtain whole where "feed ?st ?sz cs ?body = Complete whole []" using feed_last_bytes [OF wf(1) assms(3)] cs by blast
  moreover have "cs \<noteq> []" using len assms(2) by auto
  ultimately have "due 0 rb (cs @ []) ?body whole" using wf assms(2,4-6) len by (simp add: due_def)
  from buf_due [OF this at \<open>cs \<noteq> []\<close>, of "[]"] obtain rb' out where
    "chunked_buf 0 mem rb pos (pos + int (length cs)) [] = Some (rb', pos + int (length cs), out, BODY_OK)" "rb_rest rb' = 0"
    by (auto simp: due_def)
  then show ?thesis using assms(2) by (simp add: ngx_http_request_body_chunked_filter_def)
qed

section \<open>Properties\<close>

text \<open>
  C12. The state of a chunked request body keeps its type. Whatever bytes a chain of buffers holds, the filter
  \<open>ngx_http_request_body_chunked_filter\<close> returns without reading outside of the buffers and without overflow of an \<open>off_t\<close>, from
  a body that has not begun or one in a well-formed state. The parts it passes on are not empty and lie within the buffers. After
  success the state is well-formed again: the size of the chunk fits its state, and \<open>rb->rest\<close> is the length that belongs
  to the state, or zero at the end of the body; the counter of the body has grown by the bytes passed on, and the
  positions of the buffers are within them.
\<close>
theorem chunked_filter_type:
  assumes "rb_rest rb = -1 \<or> body_inv rb" "chain_ok mem bufs" "0 \<le> max_size" "max_size < 2 ^ 63"
    and "(if rb_rest rb = -1 then 0 else content_length_n rb) + int (length (chain_bytes mem bufs)) < 2 ^ 63"
  shows "\<exists>rb' ps out rc. ngx_http_request_body_chunked_filter max_size mem rb bufs = Some (rb', ps, out, rc) \<and>
    (\<forall>p q. Part p q \<in> set out \<longrightarrow> p < q \<and> (\<exists>(a, b) \<in> set bufs. a \<le> p \<and> q \<le> b)) \<and>
    (rc = BODY_OK \<longrightarrow> body_inv rb' \<and>
       content_length_n rb' = (if rb_rest rb = -1 then 0 else content_length_n rb) + int (length (out_bytes mem out)) \<and>
       list_all2 (\<lambda>(a, b) p. a \<le> p \<and> p \<le> b) bufs ps)"
proof (cases "rb_rest rb = -1")
  case False
  then show ?thesis using chunked_chain_ok [OF assms(2) _ _ assms(3,4), of rb "[]"] assms(1,5)
    by (auto simp: ngx_http_request_body_chunked_filter_def)
next
  case True
  obtain ok rb1 where pa: "palloc rb = (ok, rb1)" by (cases "palloc rb")
  define rb2 where "rb2 = rb1\<lparr>rb_chunked := \<lparr>ck_state = sw_chunk_start, ck_size = 0, ck_length = 0\<rparr>, content_length_n := 0, rb_rest := 3\<rparr>"
  have "body_inv rb2" by (simp add: body_inv_def rb2_def ck_start_def ck_wf_def min_length_def)
  moreover have "content_length_n rb2 = 0" by (simp add: rb2_def)
  ultimately show ?thesis using chunked_chain_ok [OF assms(2) _ _ assms(3,4), of rb2 "[]"] assms(5) pa True
    by (auto simp: ngx_http_request_body_chunked_filter_def rb2_def)
qed

text \<open>
  C18. \<open>rb->rest\<close> is the least number of bytes that can complete the body. The server asks the socket for at most that many bytes;
  given such a buffer the filter takes all of it, so no byte of a following request is read with the body, and the body can only
  end when all \<open>rb->rest\<close> bytes have come. The bound is attained: unless the size of the current chunk is already too large to be accepted, there are
  bytes of exactly this length that complete the body.
\<close>
theorem chunked_rest_least:
  assumes "body_inv rb" "0 < rb_rest rb" "0 \<le> max_size" "max_size < 2 ^ 63" "content_length_n rb + rb_rest rb < 2 ^ 63"
    and "bytes_at mem pos bs" "int (length bs) \<le> rb_rest rb"
  shows "(\<exists>rb' ps out rc. ngx_http_request_body_chunked_filter max_size mem rb [(pos, pos + int (length bs))] = Some (rb', ps, out, rc) \<and>
      (rc = BODY_OK \<longrightarrow> ps = [pos + int (length bs)] \<and> (rb_rest rb' = 0 \<longrightarrow> int (length bs) = rb_rest rb))) \<and>
    (ck_size (rb_chunked rb) \<le> max16 \<and> list_all id (pool rb) \<and> rb_rest rb \<le> int (length (pool rb)) \<longrightarrow>
      (\<exists>cs. int (length cs) = rb_rest rb \<and> (\<forall>mem pos. bytes_at mem pos cs \<longrightarrow>
        (\<exists>rb' ps out. ngx_http_request_body_chunked_filter 0 mem rb [(pos, pos + int (length cs))] = Some (rb', ps, out, BODY_OK) \<and> rb_rest rb' = 0))))"
proof (intro conjI impI)
  have wf: "ck_wf (ck_start (rb_chunked rb)) (ck_size (rb_chunked rb))" "0 \<le> content_length_n rb" "content_length_n rb + int (length bs) < 2 ^ 63"
    using assms(1,5,7) by (simp_all add: body_inv_def)
  obtain rb' pos' out rc where r: "chunked_buf max_size mem rb pos (pos + int (length bs)) [] = Some (rb', pos', out, rc)"
    "buf_fed max_size rb bs pos mem rb' pos' out rc" using chunked_buf_fed [OF assms(6) wf assms(3,4), of "[]"] by auto
  then show "\<exists>rb' ps out rc. ngx_http_request_body_chunked_filter max_size mem rb [(pos, pos + int (length bs))] = Some (rb', ps, out, rc) \<and>
      (rc = BODY_OK \<longrightarrow> ps = [pos + int (length bs)] \<and> (rb_rest rb' = 0 \<longrightarrow> int (length bs) = rb_rest rb))"
    using rest_taken [OF assms(1,2) _ assms(7)] assms(2) by (auto simp: ngx_http_request_body_chunked_filter_def)
next
  assume a: "ck_size (rb_chunked rb) \<le> max16 \<and> list_all id (pool rb) \<and> rb_rest rb \<le> int (length (pool rb))"
  have "int (length (last_bytes (ck_start (rb_chunked rb)) (ck_size (rb_chunked rb)))) = rb_rest rb"
    using length_last_bytes assms(1,2) by (auto simp: body_inv_def)
  then show "\<exists>cs. int (length cs) = rb_rest rb \<and> (\<forall>mem pos. bytes_at mem pos cs \<longrightarrow>
      (\<exists>rb' ps out. ngx_http_request_body_chunked_filter 0 mem rb [(pos, pos + int (length cs))] = Some (rb', ps, out, BODY_OK) \<and> rb_rest rb' = 0))"
    using rest_attained [OF assms(1,2) _ _ _ assms(5) refl] a by blast
qed

text \<open>
  C5. Round trip of the chunked coding. What the response filter writes for a body, in any number of calls and with any trailer
  fields without line ends in them, is taken by the request body filter, in whatever buffers and calls it arrives: the
  data passed on is the body, and the filter knows that the body is complete. The chunks are below the limit of the parser and the body
  below \<open>client_max_body_size\<close>, and no allocation fails.
\<close>
theorem chunked_roundtrip:
  assumes "response_ok sends" "trailers_ok ts" "send_all ts sends allocs = Some wire" "calls_ok calls" "arrival calls = wire"
    and "rb_rest rb = -1" "list_all id (pool rb)" "length wire < length (pool rb)" "int (length wire) < 2 ^ 63"
    and "max_size = 0 \<or> int (length (concat (map chain_data sends))) \<le> max_size" "0 \<le> max_size" "max_size < 2 ^ 63"
  shows "\<exists>rb'. deliver max_size rb calls = Some (rb', concat (map chain_data sends), BODY_OK) \<and> rb_rest rb' = 0"
  using deliver_fresh [OF assms(4,6) _ assms(7)] send_all_feed [OF assms(1-3), of "[]"] assms(5,8-12) by simp

section \<open>Witnesses\<close>

text \<open>A response of two chunks, its coding in memory, and requests that receive it.\<close>

definition text_buf :: "string \<Rightarrow> bool \<Rightarrow> body_buf" where
  "text_buf t l = \<lparr>bb_flush = False, bb_sync = False, bb_in_memory = True, bb_in_file = False, bb_last_buf = l, bb_mem = map chr t, bb_file = []\<rparr>"

definition hello_wire :: "byte list" where
  "hello_wire = map chr ''5'' @ [CR, LF] @ map chr ''hello'' @ [CR, LF] @ map chr ''1'' @ [CR, LF] @ map chr ''!'' @ [CR, LF] @ map chr ''0'' @ [CR, LF, CR, LF]"

definition hello_mem :: mem where
  "hello_mem = mem_store Map.empty 100 hello_wire"

definition new_body :: request_body where
  "new_body = \<lparr>rb_rest = -1, rb_chunked = \<lparr>ck_state = sw_chunk_start, ck_size = 0, ck_length = 0\<rparr>, content_length_n = 0, pool = replicate 30 True\<rparr>"

lemma hello_wire_length: "length hello_wire = 21"
  by (simp add: hello_wire_def)

lemma hello_mem_at: "bytes_at hello_mem 100 hello_wire"
  unfolding hello_mem_def by (rule bytes_at_store)

lemma hello_mem_None: "100 \<le> x \<Longrightarrow> x < 121 \<Longrightarrow> hello_mem x \<noteq> None"
  by (simp add: hello_mem_def mem_store_def hello_wire_length)

theorem chunked_filter_type_witness:
  "\<exists>rb' ps out rc. ngx_http_request_body_chunked_filter 0 hello_mem new_body [(100, 107), (107, 121)] = Some (rb', ps, out, rc) \<and>
    (rc = BODY_OK \<longrightarrow> body_inv rb')"
proof -
  have "chain_ok hello_mem [(100, 107), (107, 121)]" using hello_mem_None by (auto simp: chain_ok_def)
  moreover have "int (length (chain_bytes hello_mem [(100, 107), (107, 121)])) < 2 ^ 63" by (simp add: chain_bytes_def)
  ultimately show ?thesis using chunked_filter_type [of new_body hello_mem "[(100, 107), (107, 121)]" 0] by (auto simp: new_body_def)
qed

theorem chunked_rest_least_witness:
  "\<exists>rb' ps out rc. ngx_http_request_body_chunked_filter 0 hello_mem (new_body\<lparr>rb_rest := 3\<rparr>) [(100, 100 + int (length (take 3 hello_wire)))] = Some (rb', ps, out, rc) \<and>
    (rc = BODY_OK \<longrightarrow> ps = [103])"
proof -
  have "body_inv (new_body\<lparr>rb_rest := 3\<rparr>)" by (simp add: body_inv_def new_body_def ck_start_def ck_wf_def min_length_def)
  moreover have "bytes_at hello_mem 100 (take 3 hello_wire)"
    using hello_mem_at bytes_at_append [of hello_mem 100 "take 3 hello_wire" "drop 3 hello_wire"] by simp
  ultimately show ?thesis
    using chunked_rest_least [of "new_body\<lparr>rb_rest := 3\<rparr>" 0 hello_mem 100 "take 3 hello_wire"]
    by (auto simp: new_body_def hello_wire_length)
qed

theorem chunked_roundtrip_witness:
  "\<exists>rb'. deliver 0 new_body [(hello_mem, [(100, 107)]), (hello_mem, [(107, 121)])] = Some (rb', map chr ''hello!'', BODY_OK) \<and> rb_rest rb' = 0"
proof -
  let ?sends = "[[text_buf ''hello'' False], [text_buf ''!'' True]]" and ?calls = "[(hello_mem, [(100, 107)]), (hello_mem, [(107, 121)])]"
  have 1: "response_ok ?sends" by (simp add: response_ok_def text_buf_def honest_def chain_data_def buf_bytes_def max16_eq)
  have 2: "trailers_ok []" by (simp add: trailers_ok_def)
  have hex: "sprintf_hex (Suc 0) = [49]" "sprintf_hex (Suc (Suc (Suc (Suc (Suc 0))))) = [53]"
    by (subst sprintf_hex.simps; simp add: hex_digit_def)+
  have 3: "send_all [] ?sends (replicate 7 Start_null @ [Start_set]) = Some hello_wire"
    by (simp add: ngx_http_chunked_body_filter_def text_buf_def passed_def alloc_def ngx_buf_size_def buf_bytes_def hex
        ngx_http_chunked_create_trailers_def hello_wire_def numeral_eq_Suc)
  have 4: "calls_ok ?calls" using hello_mem_None by (auto simp: calls_ok_def chain_ok_def filled_def)
  have "slice hello_mem 100 107 = take 7 hello_wire" "slice hello_mem 107 121 = drop 7 hello_wire"
    using slice_bytes [OF hello_mem_at, of 0 7] slice_bytes [OF hello_mem_at, of 7 14] by (simp_all add: hello_wire_length)
  then have 5: "arrival ?calls = hello_wire" by (simp add: arrival_def chain_bytes_def)
  have 6: "rb_rest new_body = -1" "list_all id (pool new_body)" "length hello_wire < length (pool new_body)"
    by (simp_all add: new_body_def hello_wire_length list_all_length)
  show ?thesis
    using chunked_roundtrip [OF 1 2 3 4 5 6, of 0]
    by (simp add: hello_wire_length chain_data_def buf_bytes_def text_buf_def del: deliver.simps)
qed

end
