(* ===== verification/Spec2Isabelle.thy ===== *)
theory Spec2Isabelle
  imports Intset DictScan DictIter Coroutine NumStr GlobMatch Adlist Codec Http Lzf NgxHeaderBuffer NgxHeaderProps NgxChunkedProps
begin

text \<open>
  The repository collects annotated sources of five programs: redis, nginx, muduo, libco and a small coroutine library. They are
  not linked with each other. This development models parts of four of them, down to bytes, indices and pointers, and proves that they
  do what their callers rely on.

  \<^bold>\<open>Conventions.\<close> A function of the source is a HOL function with the state it changes as argument and result. A result \<open>None\<close> of
  type \<open>option\<close> is a fault: an access outside of a buffer, a failed assertion, a signed overflow, a null pointer. Theorems that
  give a result \<open>Some\<close> thus contain memory safety. Values that come from outside (allocator, random numbers, \<open>recv\<close>, \<open>ucontext\<close>, callbacks)
  are arguments. Loops whose end is not obvious are \<open>partial_function (option)\<close>, for which not returning is \<open>None\<close> as well, so the
  theorems that give \<open>Some\<close> prove termination too; no bound on the number of rounds is built into the model.

  \<^bold>\<open>Shared theories.\<close> \<^verbatim>\<open>Prelude\<close> has bytes, little-endian words and lemmas on lists and options. \<^verbatim>\<open>Interfaces\<close> has the locales
  \<open>int_set\<close>, \<open>kv_map\<close> and \<open>byte_queue\<close>: the contract of a set of integers, of a map and of a queue of bytes, with the theorem that any sequence
  of operations refines the abstract one. \<^verbatim>\<open>Scanner\<close> has memory as a map from addresses to bytes and the locale \<open>scanner\<close> of
  resumable loops over a buffer (termination, invariants, splitting of the input, simulation of two runs). Each locale is interpreted on the
  models below.

  \<^bold>\<open>redis.\<close>
  \<^item> \<^verbatim>\<open>Intset\<close>: \<^verbatim>\<open>redis/src/intset.c\<close>, the sorted array with its three encodings as raw bytes. Operations refine a set;
    an upgrade keeps the elements; \<open>intsetValidateIntegrity\<close> accepts exactly the well-formed encodings.
  \<^item> \<^verbatim>\<open>Dict\<close>, \<^verbatim>\<open>DictMap\<close>, \<^verbatim>\<open>DictScan\<close>, \<^verbatim>\<open>DictIter\<close>: \<^verbatim>\<open>redis/src/dict.c\<close>, two bucket tables with incremental rehashing. All operations
    refine a map while rehashing is in progress; rehashing ends; \<open>dictScan\<close> returns every element that stays in the table although it is
    resized between calls; iterators visit each entry once; random selection and sampling return entries of the table.
  \<^item> \<^verbatim>\<open>Adlist\<close>: \<^verbatim>\<open>redis/src/adlist.c\<close>, doubly linked lists on a heap with an allocator that may fail. Operations refine lists.
  \<^item> \<^verbatim>\<open>NumStr\<close>, \<^verbatim>\<open>GlobMatch\<close>: \<open>ll2string\<close>, \<open>string2ll\<close> and \<open>stringmatchlen\<close> of \<^verbatim>\<open>redis/src/util.c\<close>, with their relation to decimal
    notation and to a declarative definition of matching.
  \<^item> \<^verbatim>\<open>Lzf\<close>: \<^verbatim>\<open>redis/src/lzf_c.c\<close> and \<^verbatim>\<open>lzf_d.c\<close>. Decompression inverts compression, and both stay within their buffers.

  \<^bold>\<open>coroutine.\<close> \<^verbatim>\<open>Coroutine\<close>: \<^verbatim>\<open>coroutine/coroutine.c\<close>, the scheduler that copies the used part of a shared stack at every yield. A coroutine
  finds its stack as it left it, whatever others do in between.

  \<^bold>\<open>muduo.\<close>
  \<^item> \<^verbatim>\<open>Buffer\<close>: \<^verbatim>\<open>muduo/muduo/net/Buffer.h\<close> and \<^verbatim>\<open>Buffer.cc\<close>, a queue of bytes with room in front.
  \<^item> \<^verbatim>\<open>Codec\<close>: \<^verbatim>\<open>muduo/examples/asio/chat/codec.h\<close>, framing over that buffer, for any splitting of the input.
  \<^item> \<^verbatim>\<open>Http\<close>: \<^verbatim>\<open>muduo/muduo/net/http\<close>, the request parser, the response and the handlers of the server. Also proved: a bad version
    makes the server fail an assertion at the next message, and a line without a colon ends the header.

  \<^bold>\<open>nginx.\<close>
  \<^item> \<^verbatim>\<open>NgxRequestLine\<close>, \<^verbatim>\<open>NgxRequestProps\<close>: \<open>ngx_http_parse_request_line\<close> of \<^verbatim>\<open>nginx/src/http/ngx_http_parse.c\<close>, one definition per state; an
    invariant on arbitrary input and the fields of a recognised line.
  \<^item> \<^verbatim>\<open>NgxHeaderBuffer\<close>: the loop of \<open>ngx_http_process_request_line\<close> with \<open>ngx_http_read_request_header\<close> and
    \<open>ngx_http_alloc_large_header_buffer\<close> of \<^verbatim>\<open>ngx_http_request.c\<close>. Splitting and moving a line does not change the outcome.
  \<^item> \<^verbatim>\<open>NgxHeaderLine\<close>, \<^verbatim>\<open>NgxHeaderProps\<close>: \<open>ngx_http_parse_header_line\<close> and the part of \<open>ngx_http_process_request_headers\<close> that enters header
    lines into the request. A block of well-formed lines gives one element per line; a lemma shows that a name with an invalid
    first byte is mixed with the name before it.
  \<^item> \<^verbatim>\<open>NgxChunked\<close>, \<^verbatim>\<open>NgxChunkedProps\<close>: \<open>ngx_http_parse_chunked\<close>, \<open>ngx_http_request_body_chunked_filter\<close> of
    \<^verbatim>\<open>ngx_http_request_body.c\<close> and \<open>ngx_http_chunked_body_filter\<close> of \<^verbatim>\<open>modules/ngx_http_chunked_filter_module.c\<close>. The filter keeps the type of its
    state and does not overflow, \<open>rb->rest\<close> is the least number of bytes to come, and the two filters are inverse to each other.

  \<^bold>\<open>Bounds.\<close> Integers have their width where the source depends on it: bytes, hash values and scan cursors are words (\<^verbatim>\<open>Dict\<close>, \<^verbatim>\<open>DictScan\<close>,
  \<^verbatim>\<open>NgxHeaderLine\<close>), sizes are reduced modulo \<open>2 ^ 32\<close> or \<open>2 ^ 64\<close> where they may wrap (\<^verbatim>\<open>Intset\<close>, \<^verbatim>\<open>Dict\<close>, \<^verbatim>\<open>Buffer\<close>, \<^verbatim>\<open>Lzf\<close>), \<^verbatim>\<open>NumStr\<close> has the limits of
  \<open>long long\<close>, and \<^verbatim>\<open>NgxChunked\<close> checks every result of type \<open>off_t\<close>. Bounds on sizes are hypotheses of the theorems, and each of those
  has an instance that meets them.

  \<^bold>\<open>Not modelled.\<close> libco, which works by an assembly context switch and intercepted system calls; event loops, sockets, timers,
  files, threads and processes of redis, nginx and muduo, which are made of system calls; commands, persistence, replication, cluster,
  scripting and modules of redis, and upstreams, HTTP/2, caching, mail and stream of nginx, which depend on that state; generated
  tables, bundled third-party libraries, tests and examples. Other self-contained code (sds, ziplist, listpack, rax and
  the hash functions of redis; the URI and status line parsers, pools, trees and hash tables of nginx; dates and number
  formatting of muduo) is open to the same methods and is left out for its size. Of \<open>ngx_http_process_request_line\<close> and
  \<open>ngx_http_process_request_headers\<close> the handling of a parsed line by virtual hosts and header handlers is left out, as are timers and logging.
\<close>

end
